(* ===== verification/Prelude.thy ===== *)
theory Prelude
  imports Main "HOL-Library.Word" "HOL-Library.Multiset"
begin

text \<open>
  Shared ground of the development: the machine integers of the Rust sources, results
  (\<open>Result<T, E>\<close> as a sum with the error on the left), the slice and vector operations the
  crates use, little- and big-endian byte conversion with its round trips, and the checked,
  saturating and bit-counting operations of Rust's integers.  \<open>usize\<close> values that index or
  count elements of an in-memory vector are \<open>nat\<close>; integers whose wrap-around can be
  observed are words.
\<close>

unbundle bit_operations_syntax

section \<open>Types\<close>

type_synonym u8 = "8 word"
type_synonym u16 = "16 word"
type_synonym u32 = "32 word"
type_synonym u64 = "64 word"
type_synonym bytes = "8 word list"
type_synonym ('a, 'e) result = "'e + 'a"

abbreviation Ok :: "'a \<Rightarrow> ('a, 'e) result" where
  "Ok \<equiv> Inr"

abbreviation Err :: "'e \<Rightarrow> ('a, 'e) result" where
  "Err \<equiv> Inl"

named_theorems wire_simps \<open>lengths, slices and byte conversions, for the encoders and decoders\<close>
named_theorems word_bounds \<open>facts that bound unsigned readings of words\<close>

section \<open>Results and options\<close>

definition ok_or :: "'a option \<Rightarrow> 'e \<Rightarrow> ('a, 'e) result" where
  "ok_or x e = (case x of None \<Rightarrow> Err e | Some v \<Rightarrow> Ok v)"

lemma ok_or_simps [simp]:
  "ok_or None e = Err e"
  "ok_or (Some v) e = Ok v"
  by (simp_all add: ok_or_def)

definition is_ok :: "('a, 'e) result \<Rightarrow> bool" where
  "is_ok r = (case r of Inl _ \<Rightarrow> False | Inr _ \<Rightarrow> True)"

lemma is_ok_simps [simp]:
  "is_ok (Err e) = False"
  "is_ok (Ok v) = True"
  by (simp_all add: is_ok_def)

section \<open>Vectors and slices\<close>

text \<open>\<open>position\<close> is \<open>iter().position(P)\<close>: the index of the first element that satisfies \<open>P\<close>.\<close>

fun position :: "('a \<Rightarrow> bool) \<Rightarrow> 'a list \<Rightarrow> nat option" where
  "position P [] = None"
| "position P (x # xs) = (if P x then Some 0 else map_option Suc (position P xs))"

lemma position_None: "position P xs = None \<longleftrightarrow> (\<forall>x\<in>set xs. \<not> P x)"
  by (induction xs) auto

lemma position_Some:
  "position P xs = Some i \<longleftrightarrow> i < length xs \<and> P (xs ! i) \<and> (\<forall>j<i. \<not> P (xs ! j))"
proof (induction xs arbitrary: i)
  case Nil
  then show ?case by simp
next
  case (Cons x xs)
  show ?case
  proof (cases i)
    case 0
    then show ?thesis by auto
  next
    case (Suc k)
    then show ?thesis using Cons.IH [of k] by (auto simp: All_less_Suc2)
  qed
qed

lemma position_map: "position P (map f xs) = position (P \<circ> f) xs"
  by (induction xs) auto

lemma find_position:
  "List.find P xs = map_option (\<lambda>i. xs ! i) (position P xs)"
  by (induction xs) (auto simp: option.map_comp comp_def)

lemma find_upt_Some:
  "List.find P [a..<b] = Some p \<longleftrightarrow> a \<le> p \<and> p < b \<and> P p \<and> (\<forall>g. a \<le> g \<and> g < p \<longrightarrow> \<not> P g)"
proof
  assume "List.find P [a..<b] = Some p"
  then obtain i where i: "i < b - a" "P (a + i)" "p = a + i" "\<forall>j<i. \<not> P (a + j)"
    by (auto simp: find_Some_iff)
  have "\<not> P g" if "a \<le> g" "g < p" for g
    using i(4) [rule_format, of "g - a"] i(3) that by simp
  with i show "a \<le> p \<and> p < b \<and> P p \<and> (\<forall>g. a \<le> g \<and> g < p \<longrightarrow> \<not> P g)" by simp
next
  assume "a \<le> p \<and> p < b \<and> P p \<and> (\<forall>g. a \<le> g \<and> g < p \<longrightarrow> \<not> P g)"
  then show "List.find P [a..<b] = Some p"
    unfolding find_Some_iff by (intro exI [of _ "p - a"]) auto
qed

lemma find_upt_None: "List.find P [a..<b] = None \<longleftrightarrow> (\<forall>g. a \<le> g \<and> g < b \<longrightarrow> \<not> P g)"
  by (auto simp: find_None_iff)

text \<open>\<open>remove_at i\<close> is \<open>Vec::remove\<close>, \<open>swap_remove i\<close> is \<open>Vec::swap_remove\<close> (the last element takes
  the place of the removed one); both are used with an index in range.\<close>

definition remove_at :: "nat \<Rightarrow> 'a list \<Rightarrow> 'a list" where
  "remove_at i xs = take i xs @ drop (Suc i) xs"

definition swap_remove :: "nat \<Rightarrow> 'a list \<Rightarrow> 'a list" where
  "swap_remove i xs = butlast (xs[i := last xs])"

lemma length_remove_at [simp]: "i < length xs \<Longrightarrow> length (remove_at i xs) = length xs - 1"
  by (simp add: remove_at_def)

lemma length_swap_remove [simp]: "length (swap_remove i xs) = length xs - 1"
  by (simp add: swap_remove_def)

lemma mset_remove_at: "i < length xs \<Longrightarrow> add_mset (xs ! i) (mset (remove_at i xs)) = mset xs"
  by (metis (no_types, lifting) add_mset_add_single id_take_nth_drop mset.simps(2) mset_append
      remove_at_def union_mset_add_mset_right)

lemma mset_swap_remove:
  assumes "i < length xs"
  shows "add_mset (xs ! i) (mset (swap_remove i xs)) = mset xs"
proof (cases "i = length xs - 1")
  case True
  with assms show ?thesis
    by (cases xs rule: rev_cases) (auto simp: swap_remove_def list_update_append nth_append)
next
  case False
  with assms obtain ys z where xs: "xs = ys @ [z]" and i: "i < length ys"
    by (cases xs rule: rev_cases) auto
  then show ?thesis
    by (simp add: swap_remove_def list_update_append nth_append mset_update)
qed

text \<open>\<open>slice a b xs\<close> is \<open>xs[a..b]\<close> and \<open>copy_at at ys xs\<close> is \<open>xs[at..at + ys.len()].copy_from_slice(ys)\<close>.\<close>

definition slice :: "nat \<Rightarrow> nat \<Rightarrow> 'a list \<Rightarrow> 'a list" where
  "slice a b xs = take (b - a) (drop a xs)"

definition copy_at :: "nat \<Rightarrow> 'a list \<Rightarrow> 'a list \<Rightarrow> 'a list" where
  "copy_at at ys xs = take at xs @ ys @ drop (at + length ys) xs"

lemma length_slice [wire_simps]: "b \<le> length xs \<Longrightarrow> length (slice a b xs) = b - a"
  by (simp add: slice_def)

lemma nth_slice [wire_simps]: "a + i < b \<Longrightarrow> b \<le> length xs \<Longrightarrow> slice a b xs ! i = xs ! (a + i)"
  by (simp add: slice_def)

lemma length_copy_at [simp]: "at + length ys \<le> length xs \<Longrightarrow> length (copy_at at ys xs) = length xs"
  by (simp add: copy_at_def)

lemma nth_copy_at:
  "at + length ys \<le> length xs \<Longrightarrow> i < length xs \<Longrightarrow>
   copy_at at ys xs ! i = (if at \<le> i \<and> i < at + length ys then ys ! (i - at) else xs ! i)"
  by (auto simp: copy_at_def nth_append)

lemma slice_copy_at:
  "at + length ys \<le> length xs \<Longrightarrow> slice at (at + length ys) (copy_at at ys xs) = ys"
  by (simp add: slice_def copy_at_def)

lemma slice_copy_at_other:
  assumes "at + length ys \<le> length xs" and "b \<le> at \<or> at + length ys \<le> a"
  shows "slice a b (copy_at at ys xs) = slice a b xs"
proof (rule nth_equalityI)
  show "length (slice a b (copy_at at ys xs)) = length (slice a b xs)"
    using assms(1) by (simp add: slice_def)
next
  fix i assume "i < length (slice a b (copy_at at ys xs))"
  then have "i < b - a" "a + i < length xs"
    using assms(1) by (auto simp: slice_def)
  then show "slice a b (copy_at at ys xs) ! i = slice a b xs ! i"
    using assms by (auto simp: slice_def nth_copy_at)
qed

lemma slice_append_left [wire_simps]: "b \<le> length xs \<Longrightarrow> slice a b (xs @ ys) = slice a b xs"
  by (simp add: slice_def)

lemma slice_append_right [wire_simps]:
  "length xs \<le> a \<Longrightarrow> slice a b (xs @ ys) = slice (a - length xs) (b - length xs) ys"
  by (simp add: slice_def)

lemma slice_all [wire_simps]: "b = length xs \<Longrightarrow> slice 0 b xs = xs"
  by (simp add: slice_def)

lemma slice_join: "a \<le> b \<Longrightarrow> b \<le> c \<Longrightarrow> slice a b xs @ slice b c xs = slice a c xs"
proof -
  assume "a \<le> b" "b \<le> c"
  then have "c - a = (b - a) + (c - b)" and "drop (b - a) (drop a xs) = drop b xs" by simp_all
  then show ?thesis by (simp only: slice_def take_add)
qed

lemma slice_join_drop: "a \<le> b \<Longrightarrow> slice a b xs @ drop b xs = drop a xs"
proof -
  assume "a \<le> b"
  then have "drop (b - a) (drop a xs) = drop b xs" by simp
  then show ?thesis by (metis append_take_drop_id slice_def)
qed

lemma slice_Cons [wire_simps]: "0 < a \<Longrightarrow> slice a b (x # xs) = slice (a - 1) (b - 1) xs"
  by (cases a; cases b) (simp_all add: slice_def)

lemma slice_take: "b \<le> k \<Longrightarrow> slice a b (take k xs) = slice a b xs"
  by (simp add: slice_def drop_take min_def)

section \<open>Machine integers\<close>

definition checked_add :: "'a::len word \<Rightarrow> 'a word \<Rightarrow> 'a word option" where
  "checked_add a b = (if unat a + unat b < 2 ^ LENGTH('a) then Some (a + b) else None)"

definition checked_mul :: "'a::len word \<Rightarrow> 'a word \<Rightarrow> 'a word option" where
  "checked_mul a b = (if unat a * unat b < 2 ^ LENGTH('a) then Some (a * b) else None)"

definition saturating_add :: "'a::len word \<Rightarrow> 'a word \<Rightarrow> 'a word" where
  "saturating_add a b = (if unat a + unat b < 2 ^ LENGTH('a) then a + b else - 1)"

definition saturating_sub :: "'a::len word \<Rightarrow> 'a word \<Rightarrow> 'a word" where
  "saturating_sub a b = (if b \<le> a then a - b else 0)"

definition saturating_mul :: "'a::len word \<Rightarrow> 'a word \<Rightarrow> 'a word" where
  "saturating_mul a b = (if unat a * unat b < 2 ^ LENGTH('a) then a * b else - 1)"

lemma unat_lt [word_bounds]: "unat (w :: 'a::len word) < 2 ^ LENGTH('a)"
  by (rule unsigned_less)

lemma unat_of_nat_lt: "n < 2 ^ LENGTH('a) \<Longrightarrow> unat (of_nat n :: 'a::len word) = n"
  by (simp add: unat_of_nat)

lemma unat_max: "unat (- 1 :: 'a::len word) = 2 ^ LENGTH('a) - 1"
  by (simp add: unsigned_minus_1_eq_mask mask_eq_exp_minus_1)

lemma unat_add_lt:
  "unat a + unat b < 2 ^ LENGTH('a) \<Longrightarrow> unat (a + b :: 'a::len word) = unat a + unat b"
  by (simp add: unat_word_ariths)

lemma unat_mult_lt:
  "unat a * unat b < 2 ^ LENGTH('a) \<Longrightarrow> unat (a * b :: 'a::len word) = unat a * unat b"
  by (simp add: unat_word_ariths)

lemma unat_saturating_add:
  "unat (saturating_add a b :: 'a::len word) = min (unat a + unat b) (2 ^ LENGTH('a) - 1)"
  using unat_lt [of a] by (auto simp: saturating_add_def unat_add_lt unat_max min_def)

lemma unat_saturating_sub: "unat (saturating_sub a b) = unat a - unat b"
  by (auto simp: saturating_sub_def unat_sub word_le_nat_alt)

lemma unat_saturating_mul:
  "unat (saturating_mul a b :: 'a::len word) = min (unat a * unat b) (2 ^ LENGTH('a) - 1)"
proof (cases "unat a * unat b < 2 ^ LENGTH('a)")
  case True
  then show ?thesis by (simp add: saturating_mul_def unat_mult_lt)
next
  case False
  then have "2 ^ LENGTH('a) - 1 \<le> unat a * unat b" by linarith
  with False show ?thesis by (simp add: saturating_mul_def unat_max min_absorb2)
qed

lemma checked_add_Some:
  "checked_add a b = Some c \<longleftrightarrow> unat a + unat b < 2 ^ LENGTH('a) \<and> unat c = unat a + unat b"
  for c :: "'a::len word"
  by (auto simp: checked_add_def unat_add_lt word_unat_eq_iff split: if_splits)

lemma checked_add_None:
  "checked_add a b = None \<longleftrightarrow> 2 ^ LENGTH('a) \<le> unat a + unat b" for a :: "'a::len word"
  by (auto simp: checked_add_def)

text \<open>\<open>trailing_zeros\<close> and \<open>trailing_ones\<close> count the low-order bits up to the first one (zero); a
  word with no such bit gives its width.\<close>

definition trailing_zeros :: "'a::len word \<Rightarrow> nat" where
  "trailing_zeros w = length (takeWhile (\<lambda>i. \<not> bit w i) [0..<LENGTH('a)])"

definition trailing_ones :: "'a::len word \<Rightarrow> nat" where
  "trailing_ones w = trailing_zeros (NOT w)"

lemma trailing_zeros_below: "i < trailing_zeros w \<Longrightarrow> \<not> bit w i" for w :: "'a::len word"
proof -
  assume i: "i < trailing_zeros w"
  let ?t = "takeWhile (\<lambda>i. \<not> bit w i) [0..<LENGTH('a)]"
  have "?t ! i = [0..<LENGTH('a)] ! i"
    using i by (simp add: takeWhile_nth trailing_zeros_def)
  moreover have "i < LENGTH('a)"
    using i length_takeWhile_le [of "\<lambda>i. \<not> bit w i" "[0..<LENGTH('a)]"]
    by (simp add: trailing_zeros_def)
  moreover have "\<not> bit w (?t ! i)"
    using i set_takeWhileD [of "?t ! i" "\<lambda>i. \<not> bit w i" "[0..<LENGTH('a)]"]
    by (simp add: trailing_zeros_def)
  ultimately show ?thesis by simp
qed

lemma trailing_zeros_le: "trailing_zeros w \<le> LENGTH('a)" for w :: "'a::len word"
  using length_takeWhile_le [of "\<lambda>i. \<not> bit w i" "[0..<LENGTH('a)]"] by (simp add: trailing_zeros_def)

lemma trailing_zeros_bit:
  fixes w :: "'a::len word"
  assumes "w \<noteq> 0"
  shows "trailing_zeros w < LENGTH('a) \<and> bit w (trailing_zeros w)"
proof -
  let ?xs = "[0..<LENGTH('a)]"
  from assms obtain k where k: "bit w k"
    by (auto simp: bit_eq_iff)
  then have "k < LENGTH('a)"
    by (simp add: bit_imp_le_length)
  with k have lt: "trailing_zeros w < length ?xs"
    using trailing_zeros_below [of k w] by (metis diff_zero leI length_upt not_less_iff_gr_or_eq order_less_le_trans trailing_zeros_le)
  then have "bit w (?xs ! trailing_zeros w)"
    using nth_length_takeWhile [of "\<lambda>i. \<not> bit w i" ?xs] by (simp add: trailing_zeros_def)
  with lt show ?thesis by simp
qed

section \<open>Byte conversion\<close>

text \<open>\<open>to_le n\<close> is \<open>to_le_bytes\<close> of an \<open>n\<close>-byte integer, \<open>from_le\<close> is \<open>from_le_bytes\<close>; the big-endian
  forms read and write the same bytes in reverse.\<close>

definition to_le :: "nat \<Rightarrow> 'a::len word \<Rightarrow> bytes" where
  "to_le n w = map (\<lambda>i. ucast (drop_bit (8 * i) w)) [0..<n]"

fun from_le :: "bytes \<Rightarrow> 'a::len word" where
  "from_le [] = 0"
| "from_le (b # bs) = ucast b OR push_bit 8 (from_le bs)"

definition to_be :: "nat \<Rightarrow> 'a::len word \<Rightarrow> bytes" where
  "to_be n w = rev (to_le n w)"

definition from_be :: "bytes \<Rightarrow> 'a::len word" where
  "from_be bs = from_le (rev bs)"

lemma length_to_le [simp]: "length (to_le n w) = n"
  by (simp add: to_le_def)

lemma length_to_be [simp]: "length (to_be n w) = n"
  by (simp add: to_be_def)

lemma bit_from_le:
  "bit (from_le bs :: 'a::len word) i \<longleftrightarrow>
     i < LENGTH('a) \<and> i div 8 < length bs \<and> bit (bs ! (i div 8)) (i mod 8)"
proof (induction bs arbitrary: i)
  case Nil
  then show ?case by simp
next
  case (Cons b bs)
  show ?case
  proof (cases "i < 8")
    case True
    then show ?thesis by (auto simp: bit_simps)
  next
    case False
    then obtain j where "i = j + 8" by (metis add.commute le_Suc_ex not_less)
    moreover have "(j + 8) div 8 = Suc (j div 8)" "(j + 8) mod 8 = j mod 8" by simp_all
    ultimately show ?thesis using Cons.IH [of j]
      by (auto simp: bit_simps dest: bit_imp_le_length simp del: div_add_self2)
  qed
qed

lemma from_to_le [wire_simps]:
  "LENGTH('a) \<le> 8 * n \<Longrightarrow> from_le (to_le n w) = w" for w :: "'a::len word"
proof (rule bit_word_eqI)
  fix i assume "LENGTH('a) \<le> 8 * n" and "i < LENGTH('a)"
  moreover from this have "i div 8 < n" by auto
  moreover have "i mod 8 + 8 * (i div 8) = i" by simp
  ultimately show "bit (from_le (to_le n w) :: 'a word) i = bit w i"
    by (auto simp: bit_from_le to_le_def bit_simps add.commute)
qed

lemma to_from_le [wire_simps]:
  assumes "length bs = n" and "8 * n \<le> LENGTH('a)"
  shows "to_le n (from_le bs :: 'a::len word) = bs"
proof (rule nth_equalityI)
  show "length (to_le n (from_le bs :: 'a word)) = length bs"
    using assms by simp
next
  fix k assume "k < length (to_le n (from_le bs :: 'a word))"
  then have k: "k < n" by simp
  show "to_le n (from_le bs :: 'a word) ! k = bs ! k"
  proof (rule bit_word_eqI)
    fix i assume "i < LENGTH(8)"
    then have i: "i < 8" by simp
    with k assms(2) have "8 * k + i < LENGTH('a)" by linarith
    with i k assms(1) show "bit (to_le n (from_le bs :: 'a word) ! k) i = bit (bs ! k) i"
      by (simp add: to_le_def bit_simps bit_from_le)
  qed
qed

lemma from_to_be [wire_simps]:
  "LENGTH('a) \<le> 8 * n \<Longrightarrow> from_be (to_be n w) = w" for w :: "'a::len word"
  by (simp add: from_be_def to_be_def from_to_le)

lemma to_from_be [wire_simps]:
  "length bs = n \<Longrightarrow> 8 * n \<le> LENGTH('a) \<Longrightarrow> to_be n (from_be bs :: 'a::len word) = bs"
  by (simp add: from_be_def to_be_def to_from_le)

end
