(* ===== verification/Interfaces.thy ===== *)
theory Interfaces
  imports Prelude
begin

text \<open>
  The contracts that several crates share, each stated once as a locale with the facts its
  clients need.  The components interpret them on their own definitions:
  \<^item> \<open>resource_pool\<close>: a finite pool whose resources are handed out one at a time and given
    back (physical frames, swap slots);
  \<^item> \<open>wire_format\<close> and \<open>strict_wire_format\<close>: an encoder and its decoder (driver messages, the
    update configuration, the bad-block table);
  \<^item> \<open>safe_machine\<close>: a step relation with an invariant (interrupt vectors, the update slots,
    the lock-order tracker, process limits).
  The contract of block devices stands with its trait in the theory \<open>Block\<close>.
\<close>

section \<open>Pools of resources\<close>

datatype 'r pool_op = Take | Give 'r

text \<open>\<open>pool_run\<close> plays a sequence of requests against a pool and keeps the ledger of what the
  clients hold; a request that fails leaves both as they are.\<close>

fun pool_run ::
  "('s \<Rightarrow> ('r \<times> 's) option) \<Rightarrow> ('r \<Rightarrow> 's \<Rightarrow> 's) \<Rightarrow> 'r pool_op list \<Rightarrow> 'r list \<times> 's \<Rightarrow> 'r list \<times> 's"
where
  "pool_run tk gv [] (rs, s) = (rs, s)"
| "pool_run tk gv (Take # ops) (rs, s) =
     (case tk s of None \<Rightarrow> pool_run tk gv ops (rs, s)
      | Some (r, s') \<Rightarrow> pool_run tk gv ops (r # rs, s'))"
| "pool_run tk gv (Give r # ops) (rs, s) =
     (if r \<in> set rs then pool_run tk gv ops (remove1 r rs, gv r s)
      else pool_run tk gv ops (rs, s))"

locale resource_pool =
  fixes inv :: "'s \<Rightarrow> bool"
    and universe :: "'s \<Rightarrow> 'r set"
    and held :: "'s \<Rightarrow> 'r set"
    and tk :: "'s \<Rightarrow> ('r \<times> 's) option"
    and gv :: "'r \<Rightarrow> 's \<Rightarrow> 's"
  assumes universe_finite: "inv s \<Longrightarrow> finite (universe s)"
    and held_universe: "inv s \<Longrightarrow> held s \<subseteq> universe s"
    and tk_Some: "inv s \<Longrightarrow> tk s = Some (r, s') \<Longrightarrow>
      r \<in> universe s \<and> r \<notin> held s \<and> held s' = insert r (held s) \<and> universe s' = universe s \<and> inv s'"
    and tk_None: "inv s \<Longrightarrow> tk s = None \<Longrightarrow> held s = universe s"
    and gv_held: "inv s \<Longrightarrow> r \<in> held s \<Longrightarrow>
      held (gv r s) = held s - {r} \<and> universe (gv r s) = universe s \<and> inv (gv r s)"
begin

lemma tk_None_iff: "inv s \<Longrightarrow> tk s = None \<longleftrightarrow> held s = universe s"
proof (cases "tk s")
  case (Some p)
  assume "inv s"
  with Some tk_Some [of s "fst p" "snd p"] show ?thesis by auto
qed (simp add: tk_None)

text \<open>Whatever the sequence of requests, no resource is held twice, everything the clients
  hold is marked as held, and nothing else became held on their behalf.\<close>

lemma run_ledger:
  assumes "inv s" and "distinct rs" and "set rs \<subseteq> held s"
    and "pool_run tk gv ops (rs, s) = (rs', s')"
  shows "inv s' \<and> distinct rs' \<and> set rs' \<subseteq> held s' \<and> held s' - set rs' = held s - set rs
    \<and> universe s' = universe s"
  using assms
proof (induction ops arbitrary: rs s)
  case Nil
  then show ?case by simp
next
  case (Cons op ops)
  show ?case
  proof (cases op)
    case Take
    show ?thesis
    proof (cases "tk s")
      case None
      with Take Cons show ?thesis by simp
    next
      case (Some p)
      obtain r t where p: "p = (r, t)" by (cases p)
      note step = tk_Some [OF Cons.prems(1), of r t]
      from Some p step have "inv t" "distinct (r # rs)" "set (r # rs) \<subseteq> held t"
        using Cons.prems by auto
      moreover have "pool_run tk gv ops (r # rs, t) = (rs', s')"
        using Cons.prems(4) Take Some p by simp
      ultimately have "inv s' \<and> distinct rs' \<and> set rs' \<subseteq> held s'
        \<and> held s' - set rs' = held t - set (r # rs) \<and> universe s' = universe t"
        by (rule Cons.IH)
      then show ?thesis using step Some p by auto
    qed
  next
    case (Give r)
    show ?thesis
    proof (cases "r \<in> set rs")
      case False
      with Give Cons show ?thesis by simp
    next
      case True
      with Cons.prems have "r \<in> held s" by auto
      note step = gv_held [OF Cons.prems(1) this]
      have "distinct (remove1 r rs)" "set (remove1 r rs) \<subseteq> held (gv r s)"
        using Cons.prems step by auto
      moreover have "pool_run tk gv ops (remove1 r rs, gv r s) = (rs', s')"
        using Cons.prems(4) Give True by simp
      ultimately have "inv s' \<and> distinct rs' \<and> set rs' \<subseteq> held s'
        \<and> held s' - set rs' = held (gv r s) - set (remove1 r rs) \<and> universe s' = universe (gv r s)"
        using step by (intro Cons.IH) auto
      then show ?thesis using step True Cons.prems(2) by auto
    qed
  qed
qed

text \<open>\<open>n\<close> requests in a row yield \<open>n\<close> resources as long as that many are free, and
  everything that is free otherwise.\<close>

lemma run_takes:
  assumes "inv s" and "pool_run tk gv (replicate n Take) (rs, s) = (rs', s')"
  shows "length rs' = length rs + min n (card (universe s - held s))"
  using assms
proof (induction n arbitrary: rs s)
  case 0
  then show ?case by simp
next
  case (Suc n)
  show ?case
  proof (cases "tk s")
    case None
    then have "card (universe s - held s) = 0"
      using tk_None [OF Suc.prems(1)] by simp
    moreover have "length rs' = length rs + min n (card (universe s - held s))"
      using None Suc.prems by (intro Suc.IH) simp_all
    ultimately show ?thesis by simp
  next
    case (Some p)
    obtain r t where p: "p = (r, t)" by (cases p)
    note step = tk_Some [OF Suc.prems(1), of r t]
    have "length rs' = length (r # rs) + min n (card (universe t - held t))"
      using step Some p Suc.prems(2) by (intro Suc.IH) simp_all
    moreover have "universe s - held s = insert r (universe t - held t)"
      using step Some p by auto
    moreover have "finite (universe t - held t)" "r \<notin> universe t - held t"
      using step Some p universe_finite [of t] by auto
    ultimately show ?thesis by simp
  qed
qed

end

section \<open>Wire formats\<close>

locale wire_format =
  fixes valid :: "'a \<Rightarrow> bool"
    and enc :: "'a \<Rightarrow> bytes"
    and dec :: "bytes \<Rightarrow> 'a option"
  assumes dec_enc: "valid x \<Longrightarrow> dec (enc x) = Some x"
begin

lemma enc_inj: "valid x \<Longrightarrow> valid y \<Longrightarrow> enc x = enc y \<Longrightarrow> x = y"
  using dec_enc by (metis option.inject)

end

locale strict_wire_format = wire_format +
  assumes dec_sound: "dec b = Some x \<Longrightarrow> valid x \<and> enc x = b"
begin

lemma dec_iff: "dec b = Some x \<longleftrightarrow> valid x \<and> b = enc x"
  using dec_enc dec_sound by blast

lemma dec_inj: "dec b = Some x \<Longrightarrow> dec c = Some x \<Longrightarrow> b = c"
  using dec_sound by blast

lemma dec_refused: "dec b = None \<longleftrightarrow> (\<forall>x. valid x \<longrightarrow> enc x \<noteq> b)"
  using dec_iff by (metis not_None_eq)

end

section \<open>Machines with an invariant\<close>

locale safe_machine =
  fixes init :: "'s \<Rightarrow> bool"
    and step :: "'s \<Rightarrow> 's \<Rightarrow> bool"
    and inv :: "'s \<Rightarrow> bool"
  assumes inv_init: "init s \<Longrightarrow> inv s"
    and inv_step: "inv s \<Longrightarrow> step s t \<Longrightarrow> inv t"
begin

lemma inv_steps: "step\<^sup>*\<^sup>* s t \<Longrightarrow> inv s \<Longrightarrow> inv t"
  by (induction rule: rtranclp_induct) (auto intro: inv_step)

lemma inv_reachable: "init s \<Longrightarrow> step\<^sup>*\<^sup>* s t \<Longrightarrow> inv t"
  using inv_init inv_steps by blast

end

end
