(* ===== verification/Frames.thy ===== *)
theory Frames
  imports Interfaces
begin

text \<open>
  The physical frame allocator of \<open>crates/euromm/src/frame.rs\<close>: one bit per 4 KiB frame, 64
  frames per word (a set bit is a frame in use).  The model keeps the bitmap as the list of
  64-bit words the code keeps, so the word-at-a-time scan of \<open>first_used_in\<close> is modelled with
  its shifts and masks and proved equal to the frame-by-frame search.  A \<open>usize\<close> count or
  index is a \<open>nat\<close>; the invariant shows that every index stays inside the bitmap and that no
  counter is decremented below zero.
\<close>

section \<open>Data\<close>

abbreviation PAGE_SIZE :: nat where
  "PAGE_SIZE \<equiv> 4096"

record MemoryRegion =
  mr_start :: u64
  mr_len :: u64
  mr_usable :: bool

datatype FrameError = OutOfMemory | DoubleFree | OutOfBounds

record FrameAllocator =
  bitmap :: "u64 list"
  total_frames :: nat
  free_frames :: nat
  usable_total :: nat
  hint :: nat
  double_frees :: nat
  trace :: "(u64 \<times> nat) list option"
  high_water :: nat

section \<open>Operations\<close>

definition div_ceil :: "nat \<Rightarrow> nat \<Rightarrow> nat" where
  "div_ceil a b = (a + b - 1) div b"

definition FrameAllocator_new :: "nat \<Rightarrow> FrameAllocator" where
  "FrameAllocator_new n =
     \<lparr>bitmap = replicate (div_ceil n 64) (- 1), total_frames = n, free_frames = 0,
      usable_total = 0, hint = 0, double_frees = 0, trace = None, high_water = 0\<rparr>"

definition set_frame :: "nat \<Rightarrow> u64 list \<Rightarrow> u64 list" where
  "set_frame f bm = bm[f div 64 := bm ! (f div 64) OR push_bit (f mod 64) 1]"

definition clear_frame :: "nat \<Rightarrow> u64 list \<Rightarrow> u64 list" where
  "clear_frame f bm = bm[f div 64 := bm ! (f div 64) AND NOT (push_bit (f mod 64) 1)]"

definition frame_is_free :: "u64 list \<Rightarrow> nat \<Rightarrow> bool" where
  "frame_is_free bm f \<longleftrightarrow> bm ! (f div 64) AND push_bit (f mod 64) 1 = 0"

definition set_range :: "u64 \<Rightarrow> u64 \<Rightarrow> bool \<Rightarrow> FrameAllocator \<Rightarrow> FrameAllocator" where
  "set_range start len used a =
     (let first = unat start div PAGE_SIZE; cnt = unat len div PAGE_SIZE in
      a\<lparr>bitmap := fold (\<lambda>f bm. if used then set_frame f bm else clear_frame f bm)
                       [first..<min (first + cnt) (total_frames a)] (bitmap a)\<rparr>)"

definition recount :: "FrameAllocator \<Rightarrow> FrameAllocator" where
  "recount a = a\<lparr>free_frames := length (filter (frame_is_free (bitmap a)) [0..<total_frames a])\<rparr>"

definition from_regions :: "MemoryRegion list \<Rightarrow> u64 \<Rightarrow> FrameAllocator" where
  "from_regions regions reserve_below =
     (let highest = fold (\<lambda>r m. max m (mr_start r + mr_len r)) (filter mr_usable regions) 0;
          a = FrameAllocator_new (unat highest div PAGE_SIZE);
          a = fold (\<lambda>r. set_range (mr_start r) (mr_len r) False) (filter mr_usable regions) a;
          a = fold (\<lambda>r. set_range (mr_start r) (mr_len r) True)
                (filter (\<lambda>r. \<not> mr_usable r) regions) a;
          a = set_range 0 reserve_below True a;
          a = recount a
      in a\<lparr>usable_total := free_frames a\<rparr>)"

definition trace_start :: "FrameAllocator \<Rightarrow> FrameAllocator" where
  "trace_start a = a\<lparr>trace := Some []\<rparr>"

definition trace_take :: "FrameAllocator \<Rightarrow> (u64 \<times> nat) list \<times> FrameAllocator" where
  "trace_take a = (case trace a of None \<Rightarrow> [] | Some t \<Rightarrow> t, a\<lparr>trace := None\<rparr>)"

definition note_alloc :: "u64 \<Rightarrow> nat \<Rightarrow> FrameAllocator \<Rightarrow> FrameAllocator" where
  "note_alloc base cnt a =
     (case trace a of None \<Rightarrow> a | Some t \<Rightarrow> a\<lparr>trace := Some (t @ [(base, cnt)])\<rparr>)"

definition note_high_water :: "FrameAllocator \<Rightarrow> FrameAllocator" where
  "note_high_water a =
     (let used = usable_total a - free_frames a
      in if used > high_water a then a\<lparr>high_water := used\<rparr> else a)"

fun allocate_scan :: "nat list \<Rightarrow> FrameAllocator \<Rightarrow> (u64, FrameError) result \<times> FrameAllocator" where
  "allocate_scan [] a = (Err OutOfMemory, a)"
| "allocate_scan (w # ws) a =
     (if bitmap a ! w \<noteq> - 1 then
        (let b = trailing_ones (bitmap a ! w); frame = w * 64 + b in
         if frame \<ge> total_frames a then allocate_scan ws a
         else
           (let a = a\<lparr>bitmap := (bitmap a)[w := bitmap a ! w OR push_bit b 1]\<rparr>;
                a = a\<lparr>free_frames := free_frames a - 1\<rparr>;
                a = note_high_water a
            in (Ok (of_nat frame * of_nat PAGE_SIZE), a\<lparr>hint := w\<rparr>)))
      else allocate_scan ws a)"

definition allocate_inner :: "FrameAllocator \<Rightarrow> (u64, FrameError) result \<times> FrameAllocator" where
  "allocate_inner a = allocate_scan ([hint a..<length (bitmap a)] @ [0..<hint a]) a"

definition allocate :: "FrameAllocator \<Rightarrow> (u64, FrameError) result \<times> FrameAllocator" where
  "allocate a =
     (case allocate_inner a of
        (Ok b, a) \<Rightarrow> (Ok b, note_alloc b 1 a)
      | (Err e, a) \<Rightarrow> (Err e, a))"

text \<open>The loop of \<open>first_used_in\<close> from frame \<open>f\<close>, with the exclusive end of the window.\<close>

function first_used_from :: "u64 list \<Rightarrow> nat \<Rightarrow> nat \<Rightarrow> nat option" where
  "first_used_from bm f end =
     (if f < end then
        (let w = f div 64; lo = f mod 64; hi = min 64 (end - w * 64);
             word = drop_bit lo (bm ! w);
             word = (if hi < 64 then word AND (push_bit (hi - lo) 1 - 1) else word)
         in if word \<noteq> 0 then Some (f + trailing_zeros word)
            else first_used_from bm ((w + 1) * 64) end)
      else None)"
  by pat_completeness auto
termination
proof (relation "measure (\<lambda>(bm, f, end). end - f)", goal_cases)
  case (2 bm f "end" w lo hi word word')
  then have "f < (f div 64 + 1) * 64" by (simp add: dividend_less_div_times)
  with 2(1) have "end - (f div 64 + 1) * 64 < end - f" by linarith
  with 2 show ?case by simp
qed simp

declare first_used_from.simps [simp del]

definition first_used_in :: "FrameAllocator \<Rightarrow> nat \<Rightarrow> nat \<Rightarrow> nat option" where
  "first_used_in a start len = first_used_from (bitmap a) start (start + len)"

definition mark_run :: "nat \<Rightarrow> nat \<Rightarrow> FrameAllocator \<Rightarrow> FrameAllocator" where
  "mark_run f cnt a =
     (let a = a\<lparr>bitmap := fold (\<lambda>j. set_frame (f + j)) [0..<cnt] (bitmap a)\<rparr>;
          a = a\<lparr>free_frames := free_frames a - cnt\<rparr>;
          a = note_high_water a
      in note_alloc (of_nat f * of_nat PAGE_SIZE) cnt a)"


lemma first_used_from_ge: "first_used_from bm f e = Some p \<Longrightarrow> f \<le> p"
proof (induction bm f e rule: first_used_from.induct)
  case (1 bm f e)
  have "f \<le> (f div 64 + 1) * 64" by (simp add: dividend_less_div_times less_imp_le)
  with 1 show ?case
    by (subst (asm) (2) first_used_from.simps) (fastforce simp: Let_def split: if_splits)
qed

text \<open>The search loops of \<open>allocate_contiguous\<close> and \<open>allocate_aligned\<close>; a used frame at \<open>p\<close> moves
  the window to the next candidate after \<open>p\<close>.\<close>

function contiguous_loop ::
  "nat \<Rightarrow> nat \<Rightarrow> FrameAllocator \<Rightarrow> (u64, FrameError) result \<times> FrameAllocator"
where
  "contiguous_loop f cnt a =
     (if f + cnt \<le> total_frames a then
        (case first_used_in a f cnt of
           None \<Rightarrow> (Ok (of_nat f * of_nat PAGE_SIZE), mark_run f cnt a)
         | Some p \<Rightarrow> contiguous_loop (p + 1) cnt a)
      else (Err OutOfMemory, a))"
  by pat_completeness auto
termination
  by (relation "measure (\<lambda>(f, cnt, a). total_frames a + 1 - f)")
     (auto simp: first_used_in_def dest!: first_used_from_ge)

declare contiguous_loop.simps [simp del]

definition allocate_contiguous ::
  "nat \<Rightarrow> FrameAllocator \<Rightarrow> (u64, FrameError) result \<times> FrameAllocator" where
  "allocate_contiguous cnt a =
     (if cnt = 0 then (Err OutOfBounds, a) else contiguous_loop 0 cnt a)"

definition round_up :: "nat \<Rightarrow> nat \<Rightarrow> nat" where
  "round_up align x = div_ceil x align * align"

lemma round_up_ge: "0 < align \<Longrightarrow> x \<le> round_up align x"
proof -
  assume "0 < align"
  then have "x + align - 1 < round_up align x + align"
    unfolding round_up_def div_ceil_def using dividend_less_div_times [of align "x + align - 1"] by simp
  with \<open>0 < align\<close> show ?thesis by linarith
qed

text \<open>The loop is entered only with \<open>align \<noteq> 0\<close>; the guard repeats it so that the recursion
  is total.\<close>

function aligned_loop ::
  "nat \<Rightarrow> nat \<Rightarrow> nat \<Rightarrow> FrameAllocator \<Rightarrow> (u64, FrameError) result \<times> FrameAllocator"
where
  "aligned_loop f cnt align a =
     (if align \<noteq> 0 \<and> f + cnt \<le> total_frames a then
        (case first_used_in a f cnt of
           None \<Rightarrow> (Ok (of_nat f * of_nat PAGE_SIZE), mark_run f cnt a)
         | Some p \<Rightarrow> aligned_loop (round_up align (p + 1)) cnt align a)
      else (Err OutOfMemory, a))"
  by pat_completeness auto
termination
proof (relation "measure (\<lambda>(f, cnt, align, a). total_frames a + 1 - f)", goal_cases)
  case (2 f cnt align a p)
  then have "f \<le> p" "p + 1 \<le> round_up align (p + 1)"
    by (auto simp: first_used_in_def intro: round_up_ge dest: first_used_from_ge)
  with 2 show ?case by (simp, arith)
qed simp

declare aligned_loop.simps [simp del]

definition allocate_aligned ::
  "nat \<Rightarrow> nat \<Rightarrow> FrameAllocator \<Rightarrow> (u64, FrameError) result \<times> FrameAllocator" where
  "allocate_aligned cnt align a =
     (if cnt = 0 \<or> align = 0 then (Err OutOfBounds, a) else aligned_loop 0 cnt align a)"

definition free_frame :: "u64 \<Rightarrow> FrameAllocator \<Rightarrow> (unit, FrameError) result \<times> FrameAllocator" where
  "free_frame phys a =
     (let frame = unat phys div PAGE_SIZE in
      if frame \<ge> total_frames a then (Err OutOfBounds, a)
      else if frame_is_free (bitmap a) frame then
        (Err DoubleFree, a\<lparr>double_frees := double_frees a + 1\<rparr>)
      else
        (let w = frame div 64;
             a = a\<lparr>bitmap := clear_frame frame (bitmap a)\<rparr>;
             a = a\<lparr>free_frames := free_frames a + 1\<rparr>;
             a = (if w < hint a then a\<lparr>hint := w\<rparr> else a)
         in (Ok (), a)))"

definition used_frames :: "FrameAllocator \<Rightarrow> nat" where
  "used_frames a = total_frames a - free_frames a"

definition total_bytes :: "FrameAllocator \<Rightarrow> u64" where
  "total_bytes a = of_nat (total_frames a) * of_nat PAGE_SIZE"

definition free_bytes :: "FrameAllocator \<Rightarrow> u64" where
  "free_bytes a = of_nat (free_frames a) * of_nat PAGE_SIZE"

definition usable_bytes :: "FrameAllocator \<Rightarrow> u64" where
  "usable_bytes a = of_nat (usable_total a) * of_nat PAGE_SIZE"


section \<open>Bits and frames\<close>

definition bm_used :: "u64 list \<Rightarrow> nat \<Rightarrow> bool" where
  "bm_used bm f \<longleftrightarrow> bit (bm ! (f div 64)) (f mod 64)"

lemma frame_is_free_iff: "frame_is_free bm f \<longleftrightarrow> \<not> bm_used bm f"
  by (simp add: frame_is_free_def bm_used_def push_bit_of_1 and_exp_eq_0_iff_not_bit)

lemma length_set_frame [simp]: "length (set_frame f bm) = length bm"
  by (simp add: set_frame_def)

lemma length_clear_frame [simp]: "length (clear_frame f bm) = length bm"
  by (simp add: clear_frame_def)

lemma frame_eqI: "f div 64 = g div 64 \<Longrightarrow> f mod 64 = g mod 64 \<Longrightarrow> f = (g :: nat)"
  by (metis div_mult_mod_eq)

lemma bm_used_set_frame:
  assumes "f div 64 < length bm"
  shows "bm_used (set_frame f bm) g \<longleftrightarrow> bm_used bm g \<or> g = f"
proof (cases "g div 64 = f div 64")
  case True
  with assms have "bm_used (set_frame f bm) g \<longleftrightarrow> bm_used bm g \<or> g mod 64 = f mod 64"
    by (auto simp: bm_used_def set_frame_def bit_simps)
  with True show ?thesis using frame_eqI [of g f] by auto
next
  case False
  then show ?thesis by (auto simp: bm_used_def set_frame_def)
qed

lemma bm_used_clear_frame:
  assumes "f div 64 < length bm"
  shows "bm_used (clear_frame f bm) g \<longleftrightarrow> bm_used bm g \<and> g \<noteq> f"
proof (cases "g div 64 = f div 64")
  case True
  with assms have "bm_used (clear_frame f bm) g \<longleftrightarrow> bm_used bm g \<and> g mod 64 \<noteq> f mod 64"
    by (auto simp: bm_used_def clear_frame_def bit_simps)
  with True show ?thesis using frame_eqI [of g f] by auto
next
  case False
  then show ?thesis by (auto simp: bm_used_def clear_frame_def)
qed

lemma length_fold_set_frame [simp]: "length (fold set_frame fs bm) = length bm"
  by (induction fs arbitrary: bm) simp_all

lemma length_fold_clear_frame [simp]: "length (fold clear_frame fs bm) = length bm"
  by (induction fs arbitrary: bm) simp_all

lemma bm_used_fold_set_frame:
  "\<forall>f\<in>set fs. f div 64 < length bm \<Longrightarrow> bm_used (fold set_frame fs bm) g \<longleftrightarrow> bm_used bm g \<or> g \<in> set fs"
  by (induction fs arbitrary: bm) (auto simp: bm_used_set_frame)

lemma bm_used_fold_clear_frame:
  "\<forall>f\<in>set fs. f div 64 < length bm \<Longrightarrow> bm_used (fold clear_frame fs bm) g \<longleftrightarrow> bm_used bm g \<and> g \<notin> set fs"
  by (induction fs arbitrary: bm) (auto simp: bm_used_clear_frame)

lemma div_ceil_index: "f < n \<Longrightarrow> f div 64 < div_ceil n 64"
  by (auto simp: div_ceil_def less_eq_div_iff_mult_less_eq Suc_le_eq [symmetric])

section \<open>The invariant\<close>

text \<open>\<open>free_set\<close> is the abstract state: the frames that can still be handed out.  The invariant
  says that the bitmap has exactly the words it needs, that the bits beyond the last frame are
  set, that the free counter is the number of free frames, that the hint lies inside the
  bitmap, and that every frame has a 64-bit address.\<close>

definition free_set :: "FrameAllocator \<Rightarrow> nat set" where
  "free_set a = {f. f < total_frames a \<and> \<not> bm_used (bitmap a) f}"

definition frame_inv :: "FrameAllocator \<Rightarrow> bool" where
  "frame_inv a \<longleftrightarrow>
     length (bitmap a) = div_ceil (total_frames a) 64 \<and>
     (\<forall>f. total_frames a \<le> f \<and> f div 64 < length (bitmap a) \<longrightarrow> bm_used (bitmap a) f) \<and>
     free_frames a = card (free_set a) \<and>
     hint a \<le> length (bitmap a) \<and>
     total_frames a \<le> 2 ^ 52"

lemma frame_inv_length: "frame_inv a \<Longrightarrow> length (bitmap a) = div_ceil (total_frames a) 64"
  by (simp add: frame_inv_def)

lemma finite_free_set [simp]: "finite (free_set a)"
  by (simp add: free_set_def)

lemma in_bitmap: "frame_inv a \<Longrightarrow> f < total_frames a \<Longrightarrow> f div 64 < length (bitmap a)"
  by (simp add: frame_inv_length div_ceil_index)

lemma free_set_cong:
  "bitmap a = bitmap b \<Longrightarrow> total_frames a = total_frames b \<Longrightarrow> free_set a = free_set b"
  by (simp add: free_set_def)

text \<open>The bookkeeping that follows an allocation touches neither the bitmap nor the counters.\<close>

lemma note_high_water_simps [simp]:
  "bitmap (note_high_water a) = bitmap a"
  "total_frames (note_high_water a) = total_frames a"
  "free_frames (note_high_water a) = free_frames a"
  "usable_total (note_high_water a) = usable_total a"
  "hint (note_high_water a) = hint a"
  "double_frees (note_high_water a) = double_frees a"
  "trace (note_high_water a) = trace a"
  by (simp_all add: note_high_water_def Let_def)

lemma note_alloc_simps [simp]:
  "bitmap (note_alloc b n a) = bitmap a"
  "total_frames (note_alloc b n a) = total_frames a"
  "free_frames (note_alloc b n a) = free_frames a"
  "usable_total (note_alloc b n a) = usable_total a"
  "hint (note_alloc b n a) = hint a"
  "double_frees (note_alloc b n a) = double_frees a"
  "high_water (note_alloc b n a) = high_water a"
  by (simp_all add: note_alloc_def split: option.splits)

lemma frame_inv_cong:
  "bitmap a = bitmap b \<Longrightarrow> total_frames a = total_frames b \<Longrightarrow> free_frames a = free_frames b \<Longrightarrow>
   hint a = hint b \<Longrightarrow> frame_inv a = frame_inv b"
  by (simp add: frame_inv_def free_set_def)


section \<open>Allocation and release of frames\<close>

lemma take_frames:
  assumes inv: "frame_inv a" and F: "F \<subseteq> free_set a"
    and len: "length (bitmap b) = length (bitmap a)" and tot: "total_frames b = total_frames a"
    and used: "\<And>g. bm_used (bitmap b) g \<longleftrightarrow> bm_used (bitmap a) g \<or> g \<in> F"
    and free: "free_frames b = free_frames a - card F" and hint: "hint b \<le> length (bitmap a)"
  shows "free_set b = free_set a - F \<and> frame_inv b"
proof -
  have fs: "free_set b = free_set a - F"
    using used tot by (auto simp: free_set_def)
  moreover have "finite F" using F finite_subset [OF F] by simp
  then have "card (free_set b) = free_frames b"
    using inv F fs free by (simp add: frame_inv_def card_Diff_subset)
  ultimately show ?thesis
    using inv len tot used hint by (simp add: frame_inv_def)
qed

lemma first_free_bit:
  fixes w :: u64
  assumes "w \<noteq> - 1"
  shows "trailing_ones w < 64 \<and> \<not> bit w (trailing_ones w) \<and> (\<forall>i<trailing_ones w. bit w i)"
proof -
  from assms have "NOT w \<noteq> 0"
    by (metis bit.double_compl bit.compl_zero)
  from trailing_zeros_bit [OF this] have "trailing_ones w < 64 \<and> bit (NOT w) (trailing_ones w)"
    by (simp add: trailing_ones_def)
  moreover have "bit w i" if "i < trailing_ones w" for i
    using that trailing_zeros_below [of i "NOT w"] calculation
    by (simp add: trailing_ones_def bit_not_iff)
  ultimately show ?thesis by (auto simp: bit_not_iff)
qed

lemma full_word:
  "bm ! w = - 1 \<Longrightarrow> f div 64 = w \<Longrightarrow> bm_used bm f"
  by (simp add: bm_used_def)

lemma allocate_scan_Ok:
  assumes "frame_inv a" and "\<forall>w\<in>set ws. w < length (bitmap a)"
    and "allocate_scan ws a = (Ok p, a')"
  shows "\<exists>f\<in>free_set a. p = of_nat f * of_nat PAGE_SIZE \<and> free_set a' = free_set a - {f} \<and>
    frame_inv a' \<and> total_frames a' = total_frames a"
  using assms
proof (induction ws)
  case Nil
  then show ?case by simp
next
  case (Cons w ws)
  let ?b = "trailing_ones (bitmap a ! w)"
  let ?f = "w * 64 + ?b"
  show ?case
  proof (cases "bitmap a ! w \<noteq> - 1 \<and> ?f < total_frames a")
    case False
    with Cons show ?thesis by (auto simp: Let_def split: if_splits)
  next
    case True
    note bit = first_free_bit [OF True [THEN conjunct1]]
    have idx: "?f div 64 = w" "?f mod 64 = ?b" using bit by simp_all
    have free: "?f \<in> free_set a" using True bit idx by (simp add: free_set_def bm_used_def)
    have bm: "(bitmap a)[w := bitmap a ! w OR push_bit ?b 1] = set_frame ?f (bitmap a)"
      unfolding set_frame_def idx ..
    from True Cons.prems(3) have p: "p = of_nat ?f * of_nat PAGE_SIZE"
      and a': "bitmap a' = set_frame ?f (bitmap a)" "total_frames a' = total_frames a"
        "free_frames a' = free_frames a - 1" "hint a' = w"
      unfolding bm [symmetric] by (auto simp: Let_def)
    have "free_set a' = free_set a - {?f} \<and> frame_inv a'"
      using Cons.prems free a' idx
      by (intro take_frames) (auto simp: bm_used_set_frame)
    with p free a' show ?thesis by blast
  qed
qed

lemma allocate_scan_Err:
  assumes "allocate_scan ws a = (Err e, a')"
  shows "e = OutOfMemory \<and> a' = a \<and> (\<forall>f\<in>free_set a. f div 64 \<notin> set ws)"
  using assms
proof (induction ws)
  case Nil
  then show ?case by simp
next
  case (Cons w ws)
  let ?b = "trailing_ones (bitmap a ! w)"
  from Cons have IH: "e = OutOfMemory \<and> a' = a \<and> (\<forall>f\<in>free_set a. f div 64 \<notin> set ws)"
    by (auto simp: Let_def split: if_splits)
  have "f div 64 \<noteq> w" if "f \<in> free_set a" for f
  proof (cases "bitmap a ! w = - 1")
    case True
    with that show ?thesis using full_word [of "bitmap a" w f] by (auto simp: free_set_def)
  next
    case False
    with Cons.prems have "total_frames a \<le> w * 64 + ?b"
      by (auto simp: Let_def split: if_splits)
    moreover have "?b \<le> f mod 64" if "f div 64 = w"
      using that \<open>f \<in> free_set a\<close> first_free_bit [OF False]
      by (auto simp: free_set_def bm_used_def not_less [symmetric])
    ultimately show ?thesis using that
      by (metis (lifting) add_le_cancel_left div_mult_mod_eq free_set_def mem_Collect_eq not_less order_trans)
  qed
  with IH show ?case by auto
qed

theorem allocate_Ok:
  assumes "frame_inv a" and "allocate a = (Ok p, a')"
  shows "\<exists>f\<in>free_set a. p = of_nat f * of_nat PAGE_SIZE \<and> free_set a' = free_set a - {f} \<and>
    frame_inv a' \<and> total_frames a' = total_frames a"
proof -
  obtain b where b: "allocate_inner a = (Ok p, b)" and a': "a' = note_alloc p 1 b"
    using assms(2) by (auto simp: allocate_def split: prod.splits sum.splits)
  from b assms(1) have "\<exists>f\<in>free_set a. p = of_nat f * of_nat PAGE_SIZE \<and> free_set b = free_set a - {f} \<and>
    frame_inv b \<and> total_frames b = total_frames a"
    unfolding allocate_inner_def by (intro allocate_scan_Ok) (auto simp: frame_inv_def)
  moreover have "free_set a' = free_set b" "frame_inv a' = frame_inv b" "total_frames a' = total_frames b"
    unfolding a' by (simp_all add: free_set_def frame_inv_def)
  ultimately show ?thesis by simp
qed

theorem allocate_Err:
  assumes "frame_inv a" and "allocate a = (Err e, a')"
  shows "e = OutOfMemory \<and> a' = a \<and> free_set a = {}"
proof -
  from assms(2) have "allocate_scan ([hint a..<length (bitmap a)] @ [0..<hint a]) a = (Err e, a')"
    by (auto simp: allocate_def allocate_inner_def split: prod.splits sum.splits)
  from allocate_scan_Err [OF this] have
    *: "e = OutOfMemory" "a' = a" "\<forall>f\<in>free_set a. f div 64 \<notin> {hint a..<length (bitmap a)} \<union> {0..<hint a}"
    by auto
  have "f div 64 < length (bitmap a)" if "f \<in> free_set a" for f
    using that in_bitmap [OF assms(1)] by (simp add: free_set_def)
  with * show ?thesis by fastforce
qed


section \<open>The word scan is the frame-by-frame search\<close>

lemma frame_split: obtains q r :: nat where "f = q * 64 + r" "r < 64" "f div 64 = q" "f mod 64 = r"
  by (metis add.commute div_mult_mod_eq mod_less_divisor zero_less_numeral)

lemma frame_offset:
  fixes f i :: nat
  assumes "f mod 64 + i < 64"
  shows "(f + i) div 64 = f div 64" "(f + i) mod 64 = f mod 64 + i" "f + i < (f div 64 + 1) * 64"
proof -
  obtain q r where f: "f = q * 64 + r" "r < 64" "f div 64 = q" "f mod 64 = r"
    by (rule frame_split)
  with assms have "r + i < 64" "f + i = q * 64 + (r + i)" by simp_all
  moreover from this have "(f + i) mod 64 = r + i"
    by (metis mod_less mod_mult_self3)
  ultimately show "(f + i) div 64 = f div 64" "(f + i) mod 64 = f mod 64 + i" "f + i < (f div 64 + 1) * 64"
    using f by simp_all
qed

lemma frame_offset_out:
  fixes f i :: nat
  assumes "\<not> f mod 64 + i < 64"
  shows "\<not> f + i < (f div 64 + 1) * 64"
proof -
  obtain q r where f: "f = q * 64 + r" "r < 64" "f div 64 = q" "f mod 64 = r"
    by (rule frame_split)
  with assms show ?thesis by simp
qed

lemma frame_window:
  fixes f i e :: nat
  assumes "f < e"
  shows "i < e - f div 64 * 64 - f mod 64 \<longleftrightarrow> f + i < e"
proof -
  obtain q r where f: "f = q * 64 + r" "r < 64" "f div 64 = q" "f mod 64 = r"
    by (rule frame_split)
  with assms show ?thesis by auto
qed

definition scan_word :: "u64 list \<Rightarrow> nat \<Rightarrow> nat \<Rightarrow> u64" where
  "scan_word bm f e =
     (let w = f div 64; lo = f mod 64; hi = min 64 (e - w * 64); word = drop_bit lo (bm ! w)
      in if hi < 64 then word AND (push_bit (hi - lo) 1 - 1) else word)"

lemma first_used_from_scan_word:
  "first_used_from bm f e =
     (if f < e then (if scan_word bm f e \<noteq> 0 then Some (f + trailing_zeros (scan_word bm f e))
                     else first_used_from bm ((f div 64 + 1) * 64) e)
      else None)"
  by (subst first_used_from.simps) (simp only: scan_word_def Let_def)

lemma bit_scan_word:
  assumes "f < e"
  shows "bit (scan_word bm f e) i \<longleftrightarrow> f + i < min e ((f div 64 + 1) * 64) \<and> bm_used bm (f + i)"
proof (cases "f mod 64 + i < 64")
  case False
  then have "\<not> f + i < (f div 64 + 1) * 64" by (rule frame_offset_out)
  moreover have "\<not> bit (scan_word bm f e) i"
    using False by (auto simp: scan_word_def Let_def bit_simps dest: bit_imp_le_length)
  ultimately show ?thesis by simp
next
  case True
  note idx = frame_offset [OF True]
  have mask: "bit (2 ^ n - 1 :: u64) j \<longleftrightarrow> j < n \<and> j < 64" for n j
    unfolding mask_eq_exp_minus_1 [symmetric] by (auto simp: bit_mask_iff)
  have *: "bit (drop_bit (f mod 64) (bm ! (f div 64))) i \<longleftrightarrow> bm_used bm (f + i)"
    by (simp add: bm_used_def idx bit_simps)
  show ?thesis
  proof (cases "e - f div 64 * 64 < 64")
    case True
    with idx(3) * frame_window [OF assms, of i] show ?thesis
      by (simp add: scan_word_def mask bit_and_iff push_bit_of_1) (auto dest: bit_imp_le_length)
  next
    case False
    with idx(3) * assms show ?thesis by (simp add: scan_word_def)
  qed
qed

theorem first_used_from_find: "first_used_from bm f e = List.find (bm_used bm) [f..<e]"
proof (induction bm f e rule: first_used_from.induct)
  case (1 bm f e)
  let ?n = "(f div 64 + 1) * 64"
  show ?case
  proof (cases "f < e")
    case False
    then show ?thesis by (simp add: first_used_from_scan_word)
  next
    case True
    note bits = bit_scan_word [OF True, of bm]
    show ?thesis
    proof (cases "scan_word bm f e = 0")
      case False
      let ?t = "trailing_zeros (scan_word bm f e)"
      have t: "f + ?t < min e ?n" "bm_used bm (f + ?t)"
        using trailing_zeros_bit [OF False] bits [of ?t] by auto
      have "\<not> bm_used bm g" if "f \<le> g" "g < f + ?t" for g
        using that t trailing_zeros_below [of "g - f" "scan_word bm f e"] bits [of "g - f"] by auto
      with t have "List.find (bm_used bm) [f..<e] = Some (f + ?t)"
        unfolding find_upt_Some by auto
      with True False show ?thesis by (simp add: first_used_from_scan_word)
    next
      case True
      then have none: "\<not> bm_used bm g" if "f \<le> g" "g < min e ?n" for g
        using that bits [of "g - f"] by auto
      have "f \<le> ?n" by (simp add: dividend_less_div_times less_imp_le)
      then have "List.find (bm_used bm) [f..<e] = Some p \<longleftrightarrow> List.find (bm_used bm) [?n..<e] = Some p" for p
        unfolding find_upt_Some using none \<open>f \<le> ?n\<close>
        by (meson leI less_imp_le min_less_iff_conj order.strict_trans1 order_trans)
      then have "List.find (bm_used bm) [f..<e] = List.find (bm_used bm) [?n..<e]"
        by (metis not_None_eq)
      then show ?thesis
        using True \<open>f < e\<close> 1 by (subst first_used_from_scan_word) (simp add: scan_word_def Let_def)
    qed
  qed
qed


corollary first_used_in_find:
  "first_used_in a start len = List.find (bm_used (bitmap a)) [start..<start + len]"
  by (simp add: first_used_in_def first_used_from_find)

section \<open>Contiguous and aligned runs\<close>

text \<open>\<open>run_free a f n\<close>: the \<open>n\<close> frames from \<open>f\<close> on exist and are free.\<close>

definition run_free :: "FrameAllocator \<Rightarrow> nat \<Rightarrow> nat \<Rightarrow> bool" where
  "run_free a f n \<longleftrightarrow> {f..<f + n} \<subseteq> free_set a"

lemma first_used_in_None:
  "f + n \<le> total_frames a \<Longrightarrow> first_used_in a f n = None \<longleftrightarrow> run_free a f n"
  by (auto simp: first_used_in_find find_upt_None run_free_def free_set_def subset_iff)

lemma first_used_in_Some_blocks:
  "first_used_in a f n = Some p \<Longrightarrow> f \<le> g \<Longrightarrow> g \<le> p \<Longrightarrow> \<not> run_free a g n"
  by (auto simp: first_used_in_find find_upt_Some run_free_def free_set_def subset_iff)

lemma run_free_total: "run_free a f n \<Longrightarrow> 0 < n \<Longrightarrow> f + n \<le> total_frames a"
proof -
  assume "run_free a f n" "0 < n"
  then have "f + n - 1 \<in> free_set a" by (auto simp: run_free_def)
  with \<open>0 < n\<close> show ?thesis by (auto simp: free_set_def)
qed

lemma fold_shift: "fold (\<lambda>j. set_frame (f + j)) [0..<n] bm = fold set_frame [f..<f + n] bm"
proof -
  have "[f..<f + n] = map (\<lambda>j. f + j) [0..<n]"
    by (simp add: map_add_upt add.commute)
  then show ?thesis by (simp only: fold_map comp_def)
qed

lemma mark_run_spec:
  assumes "frame_inv a" and "run_free a f n"
  shows "free_set (mark_run f n a) = free_set a - {f..<f + n} \<and> frame_inv (mark_run f n a)"
proof -
  have "g div 64 < length (bitmap a)" if "g \<in> {f..<f + n}" for g
    using that assms in_bitmap by (auto simp: run_free_def free_set_def)
  then have "bm_used (bitmap (mark_run f n a)) g \<longleftrightarrow> bm_used (bitmap a) g \<or> g \<in> {f..<f + n}" for g
    by (simp add: mark_run_def Let_def fold_shift bm_used_fold_set_frame)
  moreover have "length (bitmap (mark_run f n a)) = length (bitmap a)"
    "total_frames (mark_run f n a) = total_frames a"
    "free_frames (mark_run f n a) = free_frames a - n" "hint (mark_run f n a) = hint a"
    by (simp_all add: mark_run_def Let_def fold_shift)
  ultimately show ?thesis
    using assms by (intro take_frames) (auto simp: run_free_def frame_inv_def)
qed

text \<open>One statement for both searches: among the candidates \<open>C\<close> the loop takes the first run
  that is free, and fails exactly when no candidate run is.\<close>

definition first_fit ::
  "nat set \<Rightarrow> nat \<Rightarrow> FrameAllocator \<Rightarrow> (u64, FrameError) result \<times> FrameAllocator \<Rightarrow> bool" where
  "first_fit C n a r \<longleftrightarrow>
     (case r of
        (Ok p, a') \<Rightarrow> \<exists>f\<in>C. p = of_nat f * of_nat PAGE_SIZE \<and> a' = mark_run f n a \<and> run_free a f n \<and>
                          (\<forall>g\<in>C. g < f \<longrightarrow> \<not> run_free a g n)
      | (Err e, a') \<Rightarrow> e = OutOfMemory \<and> a' = a \<and> (\<forall>g\<in>C. \<not> run_free a g n))"

lemma contiguous_loop_first_fit:
  assumes "0 < n" and "\<forall>g<f. \<not> run_free a g n"
  shows "first_fit UNIV n a (contiguous_loop f n a)"
  using assms
proof (induction f n a rule: contiguous_loop.induct)
  case (1 f n a)
  show ?case
  proof (cases "f + n \<le> total_frames a")
    case False
    have "\<not> run_free a g n" for g
      using 1(2,3) False run_free_total [of a g n] by (cases "g < f") auto
    with False show ?thesis by (simp add: contiguous_loop.simps first_fit_def)
  next
    case True
    show ?thesis
    proof (cases "first_used_in a f n")
      case None
      with True 1(3) show ?thesis
        using first_used_in_None [OF True] by (auto simp: contiguous_loop.simps first_fit_def)
    next
      case (Some p)
      have "\<forall>g<p + 1. \<not> run_free a g n"
        using 1(3) first_used_in_Some_blocks [OF Some] by (metis Suc_eq_plus1 less_Suc_eq_le not_less)
      with True Some 1 have "first_fit UNIV n a (contiguous_loop (p + 1) n a)" by blast
      with True Some show ?thesis by (simp add: contiguous_loop.simps [of f])
    qed
  qed
qed

lemma round_up_least:
  assumes "0 < align" and "align dvd g" and "x \<le> g"
  shows "round_up align x \<le> g"
proof -
  from assms(2) obtain k where k: "g = k * align" by (metis dvd_def mult.commute)
  with assms have "x + align - 1 < (k + 1) * align" by (simp add: algebra_simps)
  then have "div_ceil x align < k + 1"
    unfolding div_ceil_def using assms(1) by (simp add: less_mult_imp_div_less)
  then show ?thesis by (simp add: round_up_def k)
qed

lemma round_up_dvd: "align dvd round_up align x"
  by (simp add: round_up_def)

lemma aligned_loop_first_fit:
  assumes "0 < n" and "0 < align" and "align dvd f" and "\<forall>g<f. align dvd g \<longrightarrow> \<not> run_free a g n"
  shows "first_fit {g. align dvd g} n a (aligned_loop f n align a)"
  using assms
proof (induction f n align a rule: aligned_loop.induct)
  case (1 f n align a)
  show ?case
  proof (cases "f + n \<le> total_frames a")
    case False
    have "\<not> run_free a g n" if "align dvd g" for g
      using 1(2,5) that False run_free_total [of a g n] by (cases "g < f") auto
    with False show ?thesis by (simp add: aligned_loop.simps first_fit_def)
  next
    case True
    show ?thesis
    proof (cases "first_used_in a f n")
      case None
      with True 1(3-5) show ?thesis
        using first_used_in_None [OF True] by (auto simp: aligned_loop.simps first_fit_def)
    next
      case (Some p)
      have "\<not> run_free a g n" if "align dvd g" "g < round_up align (p + 1)" for g
      proof (cases "g < f")
        case True
        with that 1(5) show ?thesis by blast
      next
        case False
        with that(2) have "g \<le> p"
          using round_up_least [OF 1(3) that(1), of "p + 1"] by linarith
        with False show ?thesis using first_used_in_Some_blocks [OF Some] by simp
      qed
      with True Some 1 have
        "first_fit {g. align dvd g} n a (aligned_loop (round_up align (p + 1)) n align a)"
        by (simp add: round_up_dvd)
      with True Some 1(3) show ?thesis by (simp add: aligned_loop.simps [of f])
    qed
  qed
qed


lemma first_fit_result:
  assumes "first_fit C n a r" and "frame_inv a"
  shows "case r of
      (Ok p, a') \<Rightarrow> \<exists>f. f \<in> C \<and> p = of_nat f * of_nat PAGE_SIZE \<and> run_free a f n \<and>
        (\<forall>g<f. g \<in> C \<longrightarrow> \<not> run_free a g n) \<and> free_set a' = free_set a - {f..<f + n} \<and> frame_inv a'
    | (Err e, a') \<Rightarrow> e = OutOfMemory \<and> a' = a \<and> (\<forall>g. g \<in> C \<longrightarrow> \<not> run_free a g n)"
proof (cases r)
  case (Pair x a')
  show ?thesis
  proof (cases x)
    case (Inl e)
    with Pair assms(1) show ?thesis by (simp add: first_fit_def)
  next
    case (Inr p)
    with Pair assms(1) obtain f where "f \<in> C" "p = of_nat f * of_nat PAGE_SIZE" "a' = mark_run f n a"
      "run_free a f n" "\<forall>g\<in>C. g < f \<longrightarrow> \<not> run_free a g n" by (auto simp: first_fit_def)
    with Pair Inr mark_run_spec [OF assms(2)] show ?thesis by auto
  qed
qed

section \<open>Release\<close>


lemma free_frame_DoubleFree:
  assumes "unat phys div PAGE_SIZE \<in> free_set a"
  shows "free_frame phys a = (Err DoubleFree, a\<lparr>double_frees := double_frees a + 1\<rparr>)"
  using assms by (simp add: free_frame_def free_set_def frame_is_free_iff)

lemma free_frame_OutOfBounds:
  assumes "total_frames a \<le> unat phys div PAGE_SIZE"
  shows "free_frame phys a = (Err OutOfBounds, a)"
  using assms by (simp add: free_frame_def)


section \<open>The boot memory map\<close>

definition region_frames :: "u64 \<Rightarrow> u64 \<Rightarrow> nat set" where
  "region_frames start len =
     {f. unat start div PAGE_SIZE \<le> f \<and> f < unat start div PAGE_SIZE + unat len div PAGE_SIZE}"

lemma set_range_simps [simp]:
  "total_frames (set_range s l u a) = total_frames a"
  "hint (set_range s l u a) = hint a"
  "length (bitmap (set_range s l u a)) = length (bitmap a)"
  by (cases u; simp add: set_range_def Let_def)+

lemma bm_used_set_range:
  assumes "length (bitmap a) = div_ceil (total_frames a) 64"
  shows "bm_used (bitmap (set_range s l u a)) g \<longleftrightarrow>
    (if g \<in> region_frames s l \<and> g < total_frames a then u else bm_used (bitmap a) g)"
proof -
  let ?n = "total_frames a"
  let ?fs = "[unat s div PAGE_SIZE..<min (unat s div PAGE_SIZE + unat l div PAGE_SIZE) ?n]"
  have idx: "\<forall>f\<in>set ?fs. f div 64 < length (bitmap a)"
    using assms div_ceil_index by auto
  show ?thesis
    using bm_used_fold_set_frame [OF idx, of g] bm_used_fold_clear_frame [OF idx, of g]
    by (cases u) (auto simp: set_range_def Let_def region_frames_def)
qed

lemma set_ranges_simps [simp]:
  "total_frames (fold (\<lambda>r. set_range (mr_start r) (mr_len r) u) rs a) = total_frames a"
  "hint (fold (\<lambda>r. set_range (mr_start r) (mr_len r) u) rs a) = hint a"
  "length (bitmap (fold (\<lambda>r. set_range (mr_start r) (mr_len r) u) rs a)) = length (bitmap a)"
  by (induction rs arbitrary: a) simp_all

lemma bm_used_set_ranges:
  assumes "length (bitmap a) = div_ceil (total_frames a) 64"
  shows "bm_used (bitmap (fold (\<lambda>r. set_range (mr_start r) (mr_len r) u) rs a)) g \<longleftrightarrow>
    (if g < total_frames a \<and> (\<exists>r\<in>set rs. g \<in> region_frames (mr_start r) (mr_len r)) then u
     else bm_used (bitmap a) g)"
  using assms
proof (induction rs arbitrary: a)
  case Nil
  then show ?case by simp
next
  case (Cons r rs)
  show ?case
    using Cons.IH [of "set_range (mr_start r) (mr_len r) u a"] Cons.prems
    by (auto simp: bm_used_set_range)
qed

definition highest_usable :: "MemoryRegion list \<Rightarrow> u64" where
  "highest_usable regions = fold (\<lambda>r m. max m (mr_start r + mr_len r)) (filter mr_usable regions) 0"

lemma recount_inv:
  assumes "length (bitmap a) = div_ceil (total_frames a) 64" "hint a = 0" "total_frames a \<le> 2 ^ 52"
    and "\<And>f. total_frames a \<le> f \<Longrightarrow> f div 64 < length (bitmap a) \<Longrightarrow> bm_used (bitmap a) f"
  shows "frame_inv (recount a) \<and> free_set (recount a) = free_set a"
proof -
  have "{f. f < total_frames a \<and> \<not> bm_used (bitmap a) f} =
      set (filter (frame_is_free (bitmap a)) [0..<total_frames a])"
    by (auto simp: frame_is_free_iff)
  then have "card (free_set a) = length (filter (frame_is_free (bitmap a)) [0..<total_frames a])"
    by (simp only: free_set_def distinct_card distinct_filter distinct_upt)
  then show ?thesis
    using assms by (simp add: frame_inv_def recount_def free_set_def)
qed

lemma from_regions_spec:
  fixes regions reserve
  defines "a \<equiv> from_regions regions reserve"
  shows "frame_inv a \<and> usable_total a = free_frames a \<and>
    total_frames a = unat (highest_usable regions) div PAGE_SIZE \<and>
    free_set a = {f. f < total_frames a \<and> unat reserve div PAGE_SIZE \<le> f \<and>
      (\<exists>r\<in>set regions. mr_usable r \<and> f \<in> region_frames (mr_start r) (mr_len r)) \<and>
      \<not> (\<exists>r\<in>set regions. \<not> mr_usable r \<and> f \<in> region_frames (mr_start r) (mr_len r))}"
proof -
  define n where "n = unat (highest_usable regions) div PAGE_SIZE"
  define b where "b = fold (\<lambda>r. set_range (mr_start r) (mr_len r) False) (filter mr_usable regions)
    (FrameAllocator_new n)"
  define c where "c = set_range 0 reserve True (fold (\<lambda>r. set_range (mr_start r) (mr_len r) True)
    (filter (\<lambda>r. \<not> mr_usable r) regions) b)"
  have a: "a = (recount c)\<lparr>usable_total := free_frames (recount c)\<rparr>"
    by (simp add: a_def from_regions_def Let_def c_def b_def n_def highest_usable_def)
  have len: "length (bitmap c) = div_ceil n 64" "total_frames c = n" "hint c = 0"
    by (simp_all add: c_def b_def FrameAllocator_new_def)
  have n: "n \<le> 2 ^ 52"
    using unat_lt [of "highest_usable regions"] by (simp add: n_def)
  have new: "bm_used (bitmap (FrameAllocator_new n)) f" if "f div 64 < div_ceil n 64" for f
    using that by (simp add: FrameAllocator_new_def bm_used_def)
  have used: "bm_used (bitmap c) f \<longleftrightarrow>
      (if f < n \<and> (f \<in> region_frames 0 reserve \<or>
          (\<exists>r\<in>set regions. \<not> mr_usable r \<and> f \<in> region_frames (mr_start r) (mr_len r))) then True
       else if f < n \<and> (\<exists>r\<in>set regions. mr_usable r \<and> f \<in> region_frames (mr_start r) (mr_len r))
       then False else bm_used (bitmap (FrameAllocator_new n)) f)" for f
    by (auto simp: c_def b_def bm_used_set_range bm_used_set_ranges FrameAllocator_new_def)
  have "frame_inv (recount c) \<and> free_set (recount c) = free_set c"
    using len n used new by (intro recount_inv) auto
  moreover have "free_set c = {f. f < n \<and> unat reserve div PAGE_SIZE \<le> f \<and>
      (\<exists>r\<in>set regions. mr_usable r \<and> f \<in> region_frames (mr_start r) (mr_len r)) \<and>
      \<not> (\<exists>r\<in>set regions. \<not> mr_usable r \<and> f \<in> region_frames (mr_start r) (mr_len r))}"
    using len used new div_ceil_index by (auto simp: free_set_def region_frames_def)
  moreover have "free_set a = free_set (recount c)" "frame_inv a = frame_inv (recount c)"
    "total_frames a = n" "usable_total a = free_frames a"
    unfolding a using len by (simp_all add: frame_inv_def free_set_def recount_def)
  ultimately show ?thesis by (simp add: n_def)
qed


section \<open>The allocator as a pool of frames\<close>





lemma free_set_subset: "free_set a \<subseteq> {..<total_frames a}"
  by (auto simp: free_set_def)


section \<open>Properties\<close>

abbreviation sample_map :: "MemoryRegion list" where
  "sample_map \<equiv> [\<lparr>mr_start = 0, mr_len = 65536, mr_usable = True\<rparr>,
                 \<lparr>mr_start = 32768, mr_len = 8192, mr_usable = False\<rparr>]"

lemma sample_inv: "frame_inv (from_regions sample_map 8192)"
  using from_regions_spec by blast

text \<open>
  Property C13.  The boot-time allocator built from the firmware memory map satisfies the
  invariant, and the frames it may hand out are exactly those below the highest usable
  address that lie in a usable region, in no unusable region and not in the reserved low
  memory; the recorded amount of usable memory is their number.
\<close>

theorem from_regions_free_frames:
  "let a = from_regions regions reserve_below in
     frame_inv a \<and> usable_total a = card (free_set a) \<and>
     free_set a = {f. f < unat (highest_usable regions) div PAGE_SIZE \<and>
       unat reserve_below div PAGE_SIZE \<le> f \<and>
       (\<exists>r\<in>set regions. mr_usable r \<and> f \<in> region_frames (mr_start r) (mr_len r)) \<and>
       (\<forall>r\<in>set regions. f \<in> region_frames (mr_start r) (mr_len r) \<longrightarrow> mr_usable r)}"
  using from_regions_spec [of regions reserve_below]
  by (auto simp: Let_def frame_inv_def)

theorem from_regions_free_frames_witness:
  "let a = from_regions sample_map 8192 in
     frame_inv a \<and> usable_total a = card (free_set a) \<and> 3 \<in> free_set a \<and> 9 \<notin> free_set a \<and> 1 \<notin> free_set a"
  using from_regions_free_frames [of sample_map 8192]
  by (simp add: Let_def region_frames_def highest_usable_def)

text \<open>
  Property C11.  \<open>allocate\<close> on a well-formed allocator either hands out the address of one free
  frame, which is the only frame whose state changes, or fails with \<open>OutOfMemory\<close>, leaves the
  allocator as it was, and then no frame was free: the hint never hides a free frame.
\<close>

theorem allocate_correct:
  assumes "frame_inv a"
  shows "case allocate a of
      (Ok p, a') \<Rightarrow> \<exists>f\<in>free_set a. p = of_nat f * of_nat PAGE_SIZE \<and> free_set a' = free_set a - {f} \<and>
        frame_inv a'
    | (Err e, a') \<Rightarrow> e = OutOfMemory \<and> a' = a \<and> free_set a = {}"
  using allocate_Ok [OF assms] allocate_Err [OF assms]
  by (auto split: prod.splits sum.splits)

theorem allocate_correct_witness:
  "case allocate (from_regions sample_map 8192) of
      (Ok p, a') \<Rightarrow> \<exists>f\<in>free_set (from_regions sample_map 8192). p = of_nat f * of_nat PAGE_SIZE \<and>
        free_set a' = free_set (from_regions sample_map 8192) - {f} \<and> frame_inv a'
    | (Err e, a') \<Rightarrow> e = OutOfMemory \<and> a' = from_regions sample_map 8192 \<and>
        free_set (from_regions sample_map 8192) = {}"
  by (rule allocate_correct [OF sample_inv])

text \<open>
  The word-at-a-time scan of \<open>first_used_in\<close> (shift, mask, count trailing zeros,
  skip to the next word) finds the same frame as looking at the frames of the window one by
  one.
\<close>

lemma first_used_in_reference:
  "first_used_in a start len = List.find (\<lambda>f. \<not> frame_is_free (bitmap a) f) [start..<start + len]"
  unfolding first_used_in_find frame_is_free_iff by simp

text \<open>
  Property C12.  \<open>allocate_contiguous\<close> is first fit: it returns the lowest run of \<open>cnt\<close> free frames
  and marks exactly that run as used, or fails with \<open>OutOfMemory\<close>, and then no such run exists.
\<close>

theorem allocate_contiguous_first_fit:
  assumes "frame_inv a" and "0 < cnt"
  shows "case allocate_contiguous cnt a of
      (Ok p, a') \<Rightarrow> \<exists>f. p = of_nat f * of_nat PAGE_SIZE \<and> run_free a f cnt \<and>
        (\<forall>g<f. \<not> run_free a g cnt) \<and> free_set a' = free_set a - {f..<f + cnt} \<and> frame_inv a'
    | (Err e, a') \<Rightarrow> e = OutOfMemory \<and> a' = a \<and> (\<forall>g. \<not> run_free a g cnt)"
  using first_fit_result [OF contiguous_loop_first_fit [OF assms(2), of 0 a] assms(1)] assms(2)
  unfolding allocate_contiguous_def by (simp only: UNIV_I simp_thms, simp)

theorem allocate_contiguous_first_fit_witness:
  "case allocate_contiguous 3 (from_regions sample_map 8192) of
      (Ok p, a') \<Rightarrow> \<exists>f. p = of_nat f * of_nat PAGE_SIZE \<and> run_free (from_regions sample_map 8192) f 3 \<and>
        (\<forall>g<f. \<not> run_free (from_regions sample_map 8192) g 3) \<and>
        free_set a' = free_set (from_regions sample_map 8192) - {f..<f + 3} \<and> frame_inv a'
    | (Err e, a') \<Rightarrow> e = OutOfMemory \<and> a' = from_regions sample_map 8192 \<and>
        (\<forall>g. \<not> run_free (from_regions sample_map 8192) g 3)"
  by (rule allocate_contiguous_first_fit [OF sample_inv]) simp

text \<open>
  \<open>allocate_aligned\<close> returns the lowest run of \<open>cnt\<close> free frames whose start is a
  multiple of \<open>align\<close>, marks exactly that run, and fails only when there is none: jumping past
  the used frame to the next boundary skips no candidate.
\<close>

lemma allocate_aligned_first_fit:
  assumes "frame_inv a" and "0 < cnt" and "0 < align"
  shows "case allocate_aligned cnt align a of
      (Ok p, a') \<Rightarrow> \<exists>f. align dvd f \<and> p = of_nat f * of_nat PAGE_SIZE \<and> run_free a f cnt \<and>
        (\<forall>g<f. align dvd g \<longrightarrow> \<not> run_free a g cnt) \<and>
        free_set a' = free_set a - {f..<f + cnt} \<and> frame_inv a'
    | (Err e, a') \<Rightarrow> e = OutOfMemory \<and> a' = a \<and> (\<forall>g. align dvd g \<longrightarrow> \<not> run_free a g cnt)"
  using first_fit_result [OF aligned_loop_first_fit [OF assms(2,3), of 0 a] assms(1)] assms(2,3)
  unfolding allocate_aligned_def by (simp only: mem_Collect_eq simp_thms, simp)



end
