(* ===== verification/Swap.thy ===== *)
theory Swap
  imports Interfaces
begin

text \<open>
  The swap core of \<open>crates/euromm/src/swap.rs\<close>: the occupancy of the swap area and the CLOCK
  (second-chance) choice of the page to swap out.  A vector index is a \<open>nat\<close>; the bounded
  \<open>for\<close> loop of \<open>evict\<close> is recursion on its own iteration count.
\<close>

section \<open>Swap slots\<close>

record SwapArea =
  sw_used :: "bool list"
  sw_used_count :: nat

definition SwapArea_new :: "nat \<Rightarrow> SwapArea" where
  "SwapArea_new slots = \<lparr>sw_used = replicate slots False, sw_used_count = 0\<rparr>"

definition SwapArea_alloc :: "SwapArea \<Rightarrow> nat option \<times> SwapArea" where
  "SwapArea_alloc a =
     (case position (\<lambda>u. \<not> u) (sw_used a) of
        None \<Rightarrow> (None, a)
      | Some s \<Rightarrow> (Some s, a\<lparr>sw_used := (sw_used a)[s := True], sw_used_count := sw_used_count a + 1\<rparr>))"

definition SwapArea_free :: "nat \<Rightarrow> SwapArea \<Rightarrow> SwapArea" where
  "SwapArea_free slot a =
     (if slot < length (sw_used a) \<and> sw_used a ! slot
      then a\<lparr>sw_used := (sw_used a)[slot := False], sw_used_count := sw_used_count a - 1\<rparr>
      else a)"

definition SwapArea_capacity :: "SwapArea \<Rightarrow> nat" where
  "SwapArea_capacity a = length (sw_used a)"

definition SwapArea_free_count :: "SwapArea \<Rightarrow> nat" where
  "SwapArea_free_count a = length (sw_used a) - sw_used_count a"

definition slots_held :: "SwapArea \<Rightarrow> nat set" where
  "slots_held a = {i. i < length (sw_used a) \<and> sw_used a ! i}"

definition swap_inv :: "SwapArea \<Rightarrow> bool" where
  "swap_inv a \<longleftrightarrow> sw_used_count a = card (slots_held a)"

lemma finite_slots_held [simp]: "finite (slots_held a)"
  by (simp add: slots_held_def)

lemma swap_inv_new: "swap_inv (SwapArea_new n)"
  by (simp add: swap_inv_def slots_held_def SwapArea_new_def conj_commute cong: conj_cong)

lemma slots_held_set:
  "slot < length (sw_used a) \<Longrightarrow>
   slots_held (a\<lparr>sw_used := (sw_used a)[slot := u], sw_used_count := n\<rparr>) =
     (if u then insert slot (slots_held a) else slots_held a - {slot})"
  by (auto simp: slots_held_def nth_list_update)

definition swap_take :: "SwapArea \<Rightarrow> (nat \<times> SwapArea) option" where
  "swap_take a = (case SwapArea_alloc a of (None, _) \<Rightarrow> None | (Some s, a') \<Rightarrow> Some (s, a'))"

interpretation swap_pool: resource_pool swap_inv "\<lambda>a. {..<length (sw_used a)}" slots_held swap_take SwapArea_free
proof (unfold_locales, goal_cases)
  case (3 s r s')
  then have pos: "position (\<lambda>u. \<not> u) (sw_used s) = Some r"
    and s': "s' = s\<lparr>sw_used := (sw_used s)[r := True], sw_used_count := sw_used_count s + 1\<rparr>"
    by (auto simp: swap_take_def SwapArea_alloc_def split: option.splits)
  from pos have r: "r < length (sw_used s)" "\<not> sw_used s ! r" by (simp_all add: position_Some)
  then have "r \<notin> slots_held s" by (simp add: slots_held_def)
  moreover have "slots_held s' = insert r (slots_held s)"
    unfolding s' slots_held_set [OF r(1)] by simp
  moreover have "sw_used_count s' = sw_used_count s + 1" "length (sw_used s') = length (sw_used s)"
    unfolding s' by simp_all
  ultimately show ?case using 3(1) r by (simp add: swap_inv_def)
next
  case (4 s)
  then have "position (\<lambda>u. \<not> u) (sw_used s) = None"
    by (simp add: swap_take_def SwapArea_alloc_def split: option.splits)
  then have "\<forall>u\<in>set (sw_used s). u" by (simp add: position_None)
  then show ?case by (auto simp: slots_held_def)
next
  case (5 s r)
  then have "r < length (sw_used s)" "sw_used s ! r" by (simp_all add: slots_held_def)
  moreover from this have "SwapArea_free r s = s\<lparr>sw_used := (sw_used s)[r := False], sw_used_count := sw_used_count s - 1\<rparr>"
    by (simp add: SwapArea_free_def)
  ultimately show ?case
    using 5 by (simp add: slots_held_set swap_inv_def)
qed (auto simp: slots_held_def)

section \<open>The CLOCK ring\<close>

record Page =
  pg_frame :: u64
  pg_referenced :: bool

record Clock =
  pages :: "Page list"
  hand :: nat

definition Clock_new :: Clock where
  "Clock_new = \<lparr>pages = [], hand = 0\<rparr>"

definition Clock_insert :: "u64 \<Rightarrow> Clock \<Rightarrow> Clock" where
  "Clock_insert frame c = c\<lparr>pages := pages c @ [\<lparr>pg_frame = frame, pg_referenced = True\<rparr>]\<rparr>"

definition Clock_touch :: "u64 \<Rightarrow> Clock \<Rightarrow> Clock" where
  "Clock_touch frame c =
     (case position (\<lambda>p. pg_frame p = frame) (pages c) of
        None \<Rightarrow> c
      | Some i \<Rightarrow> c\<lparr>pages := (pages c)[i := (pages c ! i)\<lparr>pg_referenced := True\<rparr>]\<rparr>)"

fun evict_loop :: "nat \<Rightarrow> Clock \<Rightarrow> u64 option \<times> Clock" where
  "evict_loop 0 c =
     (let idx = hand c mod length (pages c); victim = pages c ! idx
      in (Some (pg_frame victim), c\<lparr>pages := remove_at idx (pages c)\<rparr>))"
| "evict_loop (Suc n) c =
     (let c = (if hand c \<ge> length (pages c) then c\<lparr>hand := 0\<rparr> else c);
          p = pages c ! hand c
      in if pg_referenced p then
           evict_loop n (c\<lparr>pages := (pages c)[hand c := p\<lparr>pg_referenced := False\<rparr>], hand := hand c + 1\<rparr>)
         else
           (let c' = c\<lparr>pages := remove_at (hand c) (pages c)\<rparr>;
                c' = (if hand c' \<ge> length (pages c') then c'\<lparr>hand := 0\<rparr> else c')
            in (Some (pg_frame p), c')))"

declare evict_loop.simps [simp del]

definition Clock_evict :: "Clock \<Rightarrow> u64 option \<times> Clock" where
  "Clock_evict c =
     (if pages c = [] then (None, c) else evict_loop (length (pages c) * 2) c)"

text \<open>The hand never points further than one past the last page.\<close>

definition clock_inv :: "Clock \<Rightarrow> bool" where
  "clock_inv c \<longleftrightarrow> hand c \<le> length (pages c)"

text \<open>\<open>swept h j ps\<close> is the ring \<open>ps\<close> after the hand moved over \<open>j\<close> pages from position \<open>h\<close> on and
  cleared their reference bits.\<close>

definition swept :: "nat \<Rightarrow> nat \<Rightarrow> Page list \<Rightarrow> Page list" where
  "swept h j ps =
     map (\<lambda>i. if \<exists>m<j. (h + m) mod length ps = i then (ps ! i)\<lparr>pg_referenced := False\<rparr> else ps ! i)
       [0..<length ps]"

lemma length_swept [simp]: "length (swept h j ps) = length ps"
  by (simp add: swept_def)

lemma nth_swept:
  "i < length ps \<Longrightarrow> swept h j ps ! i =
     (if \<exists>m<j. (h + m) mod length ps = i then (ps ! i)\<lparr>pg_referenced := False\<rparr> else ps ! i)"
  by (auto simp: swept_def)

lemma swept_0 [simp]: "swept h 0 ps = ps"
  by (simp add: swept_def map_nth)

lemma swept_Suc:
  assumes "ps \<noteq> []" and x: "x = (h + j) mod length ps"
  shows "(swept h j ps)[x := (swept h j ps ! x)\<lparr>pg_referenced := False\<rparr>] = swept h (Suc j) ps"
proof (rule nth_equalityI)
  fix i assume "i < length ((swept h j ps)[x := (swept h j ps ! x)\<lparr>pg_referenced := False\<rparr>])"
  then have i: "i < length ps" by simp
  have "x < length ps" using assms by simp
  with i show "(swept h j ps)[x := (swept h j ps ! x)\<lparr>pg_referenced := False\<rparr>] ! i = swept h (Suc j) ps ! i"
    by (cases "i = x") (auto simp: nth_swept nth_list_update less_Suc_eq x)
qed simp

lemma swept_frames: "map pg_frame (swept h j ps) = map pg_frame ps"
  by (rule nth_equalityI) (simp_all add: nth_swept)

text \<open>How far the hand travels: to the first page without its bit, or once around the ring.\<close>

definition travel :: "nat \<Rightarrow> Page list \<Rightarrow> nat" where
  "travel h ps =
     (case position (\<lambda>p. \<not> pg_referenced p) (rotate h ps) of None \<Rightarrow> length ps | Some k \<Rightarrow> k)"

lemma travel_le: "travel h ps \<le> length ps"
  by (auto simp: travel_def position_Some split: option.splits)

lemma travel_before:
  assumes "j < travel h ps"
  shows "pg_referenced (ps ! ((h + j) mod length ps))"
proof -
  have j: "j < length ps" using assms travel_le [of h ps] by linarith
  have "pg_referenced (rotate h ps ! j)"
  proof (cases "position (\<lambda>p. \<not> pg_referenced p) (rotate h ps)")
    case None
    then have "\<forall>p\<in>set (rotate h ps). pg_referenced p" by (simp add: position_None)
    moreover have "rotate h ps ! j \<in> set (rotate h ps)" using j by (intro nth_mem) simp
    ultimately show ?thesis by blast
  next
    case (Some k)
    with assms show ?thesis by (simp add: travel_def position_Some)
  qed
  with j show ?thesis by (simp add: nth_rotate add.commute)
qed

lemma travel_at:
  assumes "travel h ps < length ps"
  shows "\<not> pg_referenced (ps ! ((h + travel h ps) mod length ps))"
proof -
  from assms obtain k where "position (\<lambda>p. \<not> pg_referenced p) (rotate h ps) = Some k" "travel h ps = k"
    by (auto simp: travel_def split: option.splits)
  then have "\<not> pg_referenced (rotate h ps ! travel h ps)" by (simp add: position_Some)
  with assms show ?thesis by (simp add: nth_rotate add.commute)
qed


lemma ring_distinct: "a < b \<Longrightarrow> b < a + n \<Longrightarrow> (h + a) mod n \<noteq> (h + b) mod (n :: nat)"
proof
  assume "a < b" "b < a + n" "(h + a) mod n = (h + b) mod n"
  then have "n dvd (h + b) - (h + a)"
    by (metis add_le_cancel_left less_imp_le mod_eq_dvd_iff_nat)
  with \<open>a < b\<close> \<open>b < a + n\<close> show False
    by (auto dest: dvd_imp_le)
qed

lemma swept_here:
  assumes "ps \<noteq> []" and "j \<le> travel h ps"
  shows "pg_referenced (swept h j ps ! ((h + j) mod length ps)) \<longleftrightarrow> j < travel h ps"
proof (cases "j < length ps")
  case True
  then have "(h + m) mod length ps \<noteq> (h + j) mod length ps" if "m < j" for m
    using that ring_distinct [of m j "length ps" h] by simp
  then have "swept h j ps ! ((h + j) mod length ps) = ps ! ((h + j) mod length ps)"
    using assms(1) by (auto simp: nth_swept)
  then show ?thesis
    using travel_before [of j h ps] travel_at [of h ps] assms(2) True
    by (cases "j < travel h ps") auto
next
  case False
  then have j: "j = length ps" "travel h ps = length ps" using assms(2) travel_le [of h ps] by simp_all
  then have "(h + 0) mod length ps = (h + j) mod length ps" by simp
  then have "\<not> pg_referenced (swept h j ps ! ((h + j) mod length ps))"
    using assms(1) j(1) by (auto simp: nth_swept intro!: exI [of _ 0])
  with j show ?thesis by simp
qed

lemma hand_normal:
  "x \<le> n \<Longrightarrow> 0 < n \<Longrightarrow> (if n \<le> x then 0 else x) = x mod (n :: nat)"
  by (cases "x = n") simp_all

lemma evict_loop_pass:
  assumes "x = (if hand c \<ge> length (pages c) then 0 else hand c)" and "pg_referenced (pages c ! x)"
  shows "evict_loop (Suc n) c =
    evict_loop n (c\<lparr>pages := (pages c)[x := (pages c ! x)\<lparr>pg_referenced := False\<rparr>], hand := x + 1\<rparr>)"
  using assms by (cases "hand c \<ge> length (pages c)") (simp_all add: evict_loop.simps Let_def)

lemma evict_loop_take:
  assumes "x = (if hand c \<ge> length (pages c) then 0 else hand c)" and "\<not> pg_referenced (pages c ! x)"
  shows "evict_loop (Suc n) c =
    (Some (pg_frame (pages c ! x)), c\<lparr>pages := remove_at x (pages c),
       hand := (if length (remove_at x (pages c)) \<le> x then 0 else x)\<rparr>)"
  using assms by (cases "hand c \<ge> length (pages c)") (simp_all add: evict_loop.simps Let_def)

lemma evict_loop_sweep:
  assumes "pages c \<noteq> []" and "clock_inv c" and "j \<le> travel (hand c) (pages c)" and "j \<le> m"
  shows "\<exists>c'. evict_loop m c = evict_loop (m - j) c' \<and> pages c' = swept (hand c) j (pages c) \<and>
    clock_inv c' \<and> hand c' mod length (pages c) = (hand c + j) mod length (pages c)"
  using assms(3,4)
proof (induction j)
  case 0
  then show ?case using assms by (intro exI [of _ c]) simp
next
  case (Suc j)
  let ?n = "length (pages c)"
  let ?x = "(hand c + j) mod ?n"
  from Suc obtain d where d: "evict_loop m c = evict_loop (m - j) d"
    "pages d = swept (hand c) j (pages c)" "clock_inv d" "hand d mod ?n = ?x" by auto
  obtain m' where m': "m - j = Suc m'" using Suc.prems(2) by (metis Suc_diff_Suc Suc_le_eq)
  have hd: "(if hand d \<ge> length (pages d) then 0 else hand d) = ?x"
    using d assms(1) hand_normal [of "hand d" ?n] by (simp add: clock_inv_def)
  let ?e = "d\<lparr>pages := swept (hand c) (Suc j) (pages c), hand := ?x + 1\<rparr>"
  have ref: "pg_referenced (swept (hand c) j (pages c) ! ?x)"
    using swept_here [OF assms(1), of j "hand c"] Suc.prems(1) by simp
  have "evict_loop (Suc m') d = evict_loop m' ?e"
    using evict_loop_pass [OF hd [symmetric]] ref unfolding d(2) swept_Suc [OF assms(1) refl] by simp
  moreover have "m - Suc j = m'" using m' by simp
  moreover have "clock_inv ?e" using assms(1) by (simp add: clock_inv_def Suc_leI)
  moreover have "hand ?e mod ?n = (hand c + Suc j) mod ?n" by (simp add: mod_Suc_eq)
  ultimately show ?case using d(1) unfolding m' by (intro exI [of _ ?e]) simp
qed

lemma evict_victim:
  assumes "pages c \<noteq> []" and "clock_inv c"
  defines "x \<equiv> (hand c + travel (hand c) (pages c)) mod length (pages c)"
  shows "\<exists>c'. Clock_evict c = (Some (pg_frame (pages c ! x)), c') \<and> clock_inv c' \<and>
    pages c' = remove_at x (swept (hand c) (travel (hand c) (pages c)) (pages c))"
proof -
  let ?n = "length (pages c)" and ?k = "travel (hand c) (pages c)"
  let ?ps = "swept (hand c) ?k (pages c)"
  have x: "x < ?n" using assms(1) by (simp add: x_def)
  have k: "?k \<le> ?n * 2" using travel_le [of "hand c" "pages c"] by simp
  from evict_loop_sweep [OF assms(1,2) le_refl k] obtain d where d:
    "evict_loop (?n * 2) c = evict_loop (?n * 2 - ?k) d" "pages d = ?ps" "clock_inv d"
    "hand d mod ?n = x" by (auto simp: x_def)
  have "?k < ?n * 2" using travel_le [of "hand c" "pages c"] assms(1) by (cases "pages c") simp_all
  then obtain m where m: "?n * 2 - ?k = Suc m" by (metis Suc_diff_Suc)
  have hd: "(if hand d \<ge> length (pages d) then 0 else hand d) = x"
    using d assms(1) hand_normal [of "hand d" ?n] by (simp add: clock_inv_def)
  have ref: "\<not> pg_referenced (?ps ! x)"
    using swept_here [OF assms(1), of ?k "hand c"] by (simp add: x_def)
  have frame: "pg_frame (?ps ! x) = pg_frame (pages c ! x)"
    using x by (simp add: nth_swept)
  define e where "e = d\<lparr>pages := remove_at x ?ps, hand := (if length (remove_at x ?ps) \<le> x then 0 else x)\<rparr>"
  have "evict_loop (Suc m) d = (Some (pg_frame (?ps ! x)), e)"
    using evict_loop_take [OF hd [symmetric]] ref unfolding d(2) e_def by simp
  moreover have "clock_inv e" using x by (simp add: e_def clock_inv_def)
  moreover have "pages e = remove_at x ?ps" by (simp add: e_def)
  ultimately show ?thesis
    using d(1) m frame assms(1) by (intro exI [of _ e]) (simp add: Clock_evict_def)
qed

section \<open>Properties\<close>

text \<open>
  Property C14.  Second chance: \<open>evict\<close> always finds a victim when a page is managed.  The victim
  is the first page without its reference bit, counting around the ring from the hand (the
  page under the hand when every bit is set); exactly that page leaves the ring, the pages the
  hand passed lose their bits, and the hand stays inside the ring.  The fallback after the loop
  is never taken.
\<close>

theorem evict_second_chance:
  assumes "pages c \<noteq> []" and "clock_inv c"
  shows "\<exists>x c'. Clock_evict c = (Some (pg_frame (pages c ! x)), c') \<and> x < length (pages c) \<and> clock_inv c' \<and>
    x = (hand c + travel (hand c) (pages c)) mod length (pages c) \<and>
    pages c' = remove_at x (swept (hand c) (travel (hand c) (pages c)) (pages c)) \<and>
    add_mset (pg_frame (pages c ! x)) (mset (map pg_frame (pages c'))) = mset (map pg_frame (pages c))"
proof -
  let ?x = "(hand c + travel (hand c) (pages c)) mod length (pages c)"
  let ?ps = "swept (hand c) (travel (hand c) (pages c)) (pages c)"
  have x: "?x < length (pages c)" using assms(1) by simp
  from evict_victim [OF assms] obtain c' where c': "Clock_evict c = (Some (pg_frame (pages c ! ?x)), c')"
    "clock_inv c'" "pages c' = remove_at ?x ?ps" by blast
  have "map pg_frame (pages c') = remove_at ?x (map pg_frame (pages c))"
    unfolding c'(3) remove_at_def map_append take_map [symmetric] drop_map [symmetric] swept_frames ..
  then have "add_mset (pg_frame (pages c ! ?x)) (mset (map pg_frame (pages c'))) = mset (map pg_frame (pages c))"
    using mset_remove_at [of ?x "map pg_frame (pages c)"] x by simp
  with c' x show ?thesis by blast
qed

theorem evict_second_chance_witness:
  "\<exists>x c'. Clock_evict (Clock_touch 7 (Clock_insert 9 (Clock_insert 7 Clock_new))) =
     (Some (pg_frame (pages (Clock_touch 7 (Clock_insert 9 (Clock_insert 7 Clock_new))) ! x)), c') \<and> clock_inv c'"
proof -
  let ?c = "Clock_touch 7 (Clock_insert 9 (Clock_insert 7 Clock_new))"
  have "pages ?c \<noteq> []" "clock_inv ?c"
    by (simp_all add: Clock_touch_def Clock_insert_def Clock_new_def clock_inv_def)
  from evict_second_chance [OF this] show ?thesis by blast
qed

text \<open>
  Property C15.  A swap slot is never handed out twice: over any sequence of \<open>alloc\<close> and \<open>free\<close>
  requests the slots in use by the clients are distinct and marked used, and \<open>n\<close> requests on a
  fresh area of \<open>m\<close> slots yield \<open>min n m\<close> slots.
\<close>

theorem swap_slots_never_shared:
  assumes "pool_run swap_take SwapArea_free ops ([], SwapArea_new m) = (rs, a)"
  shows "distinct rs \<and> set rs = slots_held a \<and> sw_used_count a = length rs \<and>
    (ops = replicate n Take \<longrightarrow> length rs = min n m)"
proof -
  have empty: "slots_held (SwapArea_new m) = {}"
    by (auto simp: slots_held_def SwapArea_new_def)
  have *: "swap_inv a" "distinct rs" "set rs \<subseteq> slots_held a" "slots_held a - set rs = {}"
    using swap_pool.run_ledger [OF swap_inv_new _ _ assms] empty by simp_all
  then have "set rs = slots_held a" by blast
  moreover from this * have "sw_used_count a = length rs"
    by (simp add: swap_inv_def distinct_card [symmetric])
  moreover have "length rs = min n m" if "ops = replicate n Take"
    using swap_pool.run_takes [OF swap_inv_new] assms empty that
    by (simp add: SwapArea_new_def)
  ultimately show ?thesis using * by simp
qed

theorem swap_slots_never_shared_witness:
  "let r = pool_run swap_take SwapArea_free [Take, Take, Give 0] ([], SwapArea_new 4)
   in distinct (fst r) \<and> set (fst r) = slots_held (snd r) \<and> sw_used_count (snd r) = length (fst r)"
proof -
  obtain rs a where r: "pool_run swap_take SwapArea_free [Take, Take, Give 0] ([], SwapArea_new 4) = (rs, a)"
    by (rule prod.exhaust)
  from swap_slots_never_shared [OF r] show ?thesis
    unfolding r Let_def fst_conv snd_conv by blast
qed

end
