(* ===== verification/Grants.thy ===== *)
theory Grants
  imports Interfaces
begin

text \<open>
  Userspace drivers: the device grant a driver holds (\<open>crates/eurodrv/src/grant.rs\<close>), the
  interrupt vectors handed to drivers (\<open>vectors.rs\<close>) and the restart policy of a crashed
  driver (\<open>restart.rs\<close>).  Addresses and lengths are 64-bit words, so a window that wraps is
  representable and refused where the code refuses it.
\<close>

section \<open>Windows\<close>

definition PAGE :: u64 where
  "PAGE = 4096"

definition IDENTITY_LIMIT :: u64 where
  "IDENTITY_LIMIT = push_bit 30 512"

definition PHYS_LIMIT :: u64 where
  "PHYS_LIMIT = push_bit 52 1"

definition HIGH_MMIO_VA :: u64 where
  "HIGH_MMIO_VA = push_bit 30 508"

definition MAX_MMIO :: u64 where
  "MAX_MMIO = push_bit 20 16"

definition MAX_DMA_PAGES :: u64 where
  "MAX_DMA_PAGES = 256"

record Window =
  w_base :: u64
  w_len :: u64

definition Window_end :: "Window \<Rightarrow> u64 option" where
  "Window_end w = checked_add (w_base w) (w_len w)"

definition Window_contains :: "Window \<Rightarrow> u64 \<Rightarrow> u64 \<Rightarrow> bool" where
  "Window_contains w addr len =
     (case (Window_end w, checked_add addr len) of
        (Some e, Some ae) \<Rightarrow> len > 0 \<and> addr \<ge> w_base w \<and> ae \<le> e
      | _ \<Rightarrow> False)"

definition Window_overlaps :: "Window \<Rightarrow> Window \<Rightarrow> bool" where
  "Window_overlaps w v =
     (case (Window_end w, Window_end v) of
        (Some a, Some b) \<Rightarrow> w_len w > 0 \<and> w_len v > 0 \<and> w_base w < b \<and> w_base v < a
      | _ \<Rightarrow> True)"

definition Window_pages :: "Window \<Rightarrow> u64" where
  "Window_pages w = w_len w div PAGE"

definition Window_page_addrs :: "Window \<Rightarrow> u64 list" where
  "Window_page_addrs w = map (\<lambda>i. w_base w + of_nat i * PAGE) [0..<unat (Window_pages w)]"

definition Window_page_round :: "u64 \<Rightarrow> u64 \<Rightarrow> Window option" where
  "Window_page_round base len =
     (let start = base AND NOT (PAGE - 1) in
      case checked_add base len of
        None \<Rightarrow> None
      | Some s \<Rightarrow>
          (case checked_add s (PAGE - 1) of
             None \<Rightarrow> None
           | Some t \<Rightarrow> let e = t AND NOT (PAGE - 1) in Some \<lparr>w_base = start, w_len = e - start\<rparr>))"

section \<open>PCI functions and grants\<close>

record Bdf =
  bdf_bus :: u8
  bdf_dev :: u8
  bdf_func :: u8

definition Bdf_sid :: "Bdf \<Rightarrow> u16" where
  "Bdf_sid b = (push_bit 8 (ucast (bdf_bus b)) OR push_bit 3 (ucast (bdf_dev b) AND 31))
     OR (ucast (bdf_func b) AND 7)"

definition Bdf_from_sid :: "u16 \<Rightarrow> Bdf" where
  "Bdf_from_sid sid = \<lparr>bdf_bus = ucast (drop_bit 8 sid), bdf_dev = ucast (drop_bit 3 sid AND 31),
     bdf_func = ucast (sid AND 7)\<rparr>"

datatype GrantError = Unaligned | Empty | TooLarge | AboveIdentity | Wraps | Overlap | Forbidden

record DeviceGrant =
  g_bdf :: Bdf
  g_mmio :: Window
  g_dma :: Window
  g_irq_vector :: "u8 option"

definition check_window :: "Window \<Rightarrow> u64 \<Rightarrow> u64 \<Rightarrow> (unit, GrantError) result" where
  "check_window w mx limit =
     (if w_len w = 0 then Err Empty
      else if w_base w mod PAGE \<noteq> 0 \<or> w_len w mod PAGE \<noteq> 0 then Err Unaligned
      else case Window_end w of
        None \<Rightarrow> Err Wraps
      | Some e \<Rightarrow> if w_len w > mx then Err TooLarge
                  else if e > limit then Err AboveIdentity
                  else Ok ())"

definition DeviceGrant_new ::
  "Bdf \<Rightarrow> Window \<Rightarrow> Window \<Rightarrow> u8 option \<Rightarrow> Window list \<Rightarrow> Window list \<Rightarrow> (DeviceGrant, GrantError) result"
where
  "DeviceGrant_new bdf mmio dma irq_vector mmio_forbidden dma_forbidden =
     (case check_window mmio MAX_MMIO PHYS_LIMIT of
        Err e \<Rightarrow> Err e
      | Ok _ \<Rightarrow>
          (case check_window dma (MAX_DMA_PAGES * PAGE) IDENTITY_LIMIT of
             Err e \<Rightarrow> Err e
           | Ok _ \<Rightarrow>
               if Window_overlaps mmio dma then Err Overlap
               else if list_ex (Window_overlaps mmio) mmio_forbidden \<or> list_ex (Window_overlaps dma) dma_forbidden
               then Err Forbidden
               else Ok \<lparr>g_bdf = bdf, g_mmio = mmio, g_dma = dma, g_irq_vector = irq_vector\<rparr>))"

definition mmio_va :: "DeviceGrant \<Rightarrow> u64" where
  "mmio_va g = (case Window_end (g_mmio g) of
      Some e \<Rightarrow> if e \<le> IDENTITY_LIMIT then w_base (g_mmio g) else HIGH_MMIO_VA
    | None \<Rightarrow> HIGH_MMIO_VA)"

definition may_mmio :: "DeviceGrant \<Rightarrow> u64 \<Rightarrow> u64 \<Rightarrow> bool" where
  "may_mmio g addr len = Window_contains (g_mmio g) addr len"

definition may_dma :: "DeviceGrant \<Rightarrow> u64 \<Rightarrow> u64 \<Rightarrow> bool" where
  "may_dma g iova len = Window_contains (g_dma g) iova len"

definition mem_bar_size :: "u32 \<Rightarrow> u64 option" where
  "mem_bar_size probe =
     (if probe AND 1 \<noteq> 0 then None
      else let mask = probe AND NOT 15 in
        if mask = 0 then None else Some (ucast (NOT mask + 1)))"

section \<open>Interrupt vectors\<close>

definition MAX_VECTORS :: nat where
  "MAX_VECTORS = 16"

datatype VecError = Exhausted | NotInPool | Taken u8 | AlreadyHolds u8 | NotOwner

record VectorPool =
  vp_base :: u8
  vp_len :: u8
  vp_owner :: "u8 option list"

definition VectorPool_new :: "u8 \<Rightarrow> u8 \<Rightarrow> VectorPool" where
  "VectorPool_new base len =
     (let n = (if unat len > MAX_VECTORS then of_nat MAX_VECTORS else len);
          n = (if (ucast base + ucast n :: u16) > 256 then ucast (256 - ucast base :: u16) else n)
      in \<lparr>vp_base = base, vp_len = n, vp_owner = replicate MAX_VECTORS None\<rparr>)"

definition VectorPool_contains :: "VectorPool \<Rightarrow> u8 \<Rightarrow> bool" where
  "VectorPool_contains p vector \<longleftrightarrow> vector \<ge> vp_base p \<and> unat (vector - vp_base p) < unat (vp_len p)"

definition VectorPool_index :: "VectorPool \<Rightarrow> u8 \<Rightarrow> nat option" where
  "VectorPool_index p vector =
     (if VectorPool_contains p vector then Some (unat (vector - vp_base p)) else None)"

definition owner_of :: "VectorPool \<Rightarrow> u8 \<Rightarrow> u8 option" where
  "owner_of p vector = (case VectorPool_index p vector of None \<Rightarrow> None | Some i \<Rightarrow> vp_owner p ! i)"

definition vector_of :: "VectorPool \<Rightarrow> u8 \<Rightarrow> u8 option" where
  "vector_of p owner =
     map_option (\<lambda>i. vp_base p + of_nat i)
       (List.find (\<lambda>i. vp_owner p ! i = Some owner) [0..<unat (vp_len p)])"

definition VectorPool_alloc :: "u8 \<Rightarrow> VectorPool \<Rightarrow> (u8, VecError) result \<times> VectorPool" where
  "VectorPool_alloc owner p =
     (case vector_of p owner of
        Some v \<Rightarrow> (Ok v, p)
      | None \<Rightarrow>
          (case List.find (\<lambda>i. vp_owner p ! i = None) [0..<unat (vp_len p)] of
             None \<Rightarrow> (Err Exhausted, p)
           | Some i \<Rightarrow> (Ok (vp_base p + of_nat i), p\<lparr>vp_owner := (vp_owner p)[i := Some owner]\<rparr>)))"

definition VectorPool_claim :: "u8 \<Rightarrow> u8 \<Rightarrow> VectorPool \<Rightarrow> (u8, VecError) result \<times> VectorPool" where
  "VectorPool_claim vector owner p =
     (case VectorPool_index p vector of
        None \<Rightarrow> (Err NotInPool, p)
      | Some i \<Rightarrow>
          (case vp_owner p ! i of
             Some w \<Rightarrow> if w = owner then (Ok vector, p) else (Err (Taken w), p)
           | None \<Rightarrow>
               (case vector_of p owner of
                  Some v \<Rightarrow> (Err (AlreadyHolds v), p)
                | None \<Rightarrow> (Ok vector, p\<lparr>vp_owner := (vp_owner p)[i := Some owner]\<rparr>))))"

definition VectorPool_release :: "u8 \<Rightarrow> u8 \<Rightarrow> VectorPool \<Rightarrow> (unit, VecError) result \<times> VectorPool" where
  "VectorPool_release vector owner p =
     (case VectorPool_index p vector of
        None \<Rightarrow> (Err NotInPool, p)
      | Some i \<Rightarrow>
          if vp_owner p ! i \<noteq> Some owner then (Err NotOwner, p)
          else (Ok (), p\<lparr>vp_owner := (vp_owner p)[i := None]\<rparr>))"

definition in_use :: "VectorPool \<Rightarrow> nat" where
  "in_use p = length (filter (\<lambda>w. w \<noteq> None) (take (unat (vp_len p)) (vp_owner p)))"

section \<open>Restarting a crashed driver\<close>

record Policy =
  max_restarts :: u32
  window_ticks :: u64
  backoff_ticks :: u64
  max_backoff_ticks :: u64

definition NIC :: Policy where
  "NIC = \<lparr>max_restarts = 5, window_ticks = 6000, backoff_ticks = 2, max_backoff_ticks = 200\<rparr>"

definition DISK :: Policy where
  "DISK = \<lparr>max_restarts = 3, window_ticks = 6000, backoff_ticks = 10, max_backoff_ticks = 500\<rparr>"

datatype Decision = RestartAt u64 | GiveUp

record Tracker =
  tr_deaths :: "u64 list"
  tr_n :: nat
  tr_total :: u64

definition Tracker_new :: Tracker where
  "Tracker_new = \<lparr>tr_deaths = replicate 16 0, tr_n = 0, tr_total = 0\<rparr>"

fun keep_loop :: "u64 \<Rightarrow> u64 list \<Rightarrow> u64 list \<times> nat \<Rightarrow> u64 list \<times> nat" where
  "keep_loop since [] (keep, k) = (keep, k)"
| "keep_loop since (t # ts) (keep, k) =
     (if t \<ge> since \<and> k < length keep - 1 then keep_loop since ts (keep[k := t], k + 1)
      else keep_loop since ts (keep, k))"

definition on_death :: "u64 \<Rightarrow> Policy \<Rightarrow> Tracker \<Rightarrow> Decision \<times> Tracker" where
  "on_death now p t =
     (let since = saturating_sub now (window_ticks p);
          (keep, k) = keep_loop since (take (tr_n t) (tr_deaths t)) (replicate 16 0, 0);
          keep = keep[k := now];
          k = k + 1;
          t = t\<lparr>tr_total := tr_total t + 1, tr_deaths := keep, tr_n := k\<rparr>
      in if (of_nat k :: u32) > max_restarts p then (GiveUp, t)
         else let ex = min (k - 1) 32;
                  delay = (if ex = 0 then 0
                           else min (saturating_mul (backoff_ticks p) (push_bit (ex - 1) 1)) (max_backoff_ticks p))
              in (RestartAt (saturating_add now delay), t))"

section \<open>Windows: what they contain\<close>

text \<open>The bytes a window names, as natural numbers: an address never wraps here.\<close>

definition bytes_of :: "Window \<Rightarrow> nat set" where
  "bytes_of w = {unat (w_base w)..<unat (w_base w) + unat (w_len w)}"

definition aligned :: "Window \<Rightarrow> bool" where
  "aligned w \<longleftrightarrow> unat (w_base w) mod 4096 = 0 \<and> unat (w_len w) mod 4096 = 0"

lemma Window_end_Some:
  "Window_end w = Some e \<longleftrightarrow> unat (w_base w) + unat (w_len w) < 2 ^ 64 \<and> unat e = unat (w_base w) + unat (w_len w)"
  by (simp add: Window_end_def checked_add_Some)

lemma Window_contains_bytes:
  "Window_contains w addr len \<Longrightarrow>
     0 < unat len \<and> {unat addr..<unat addr + unat len} \<subseteq> bytes_of w"
  by (auto simp: Window_contains_def Window_end_Some checked_add_Some bytes_of_def word_le_nat_alt
      word_less_nat_alt split: option.splits)

lemma Window_contains_iff:
  assumes "Window_end w = Some e"
  shows "Window_contains w addr len \<longleftrightarrow>
    0 < unat len \<and> {unat addr..<unat addr + unat len} \<subseteq> bytes_of w"
proof
  assume r: "0 < unat len \<and> {unat addr..<unat addr + unat len} \<subseteq> bytes_of w"
  then have "unat addr \<in> bytes_of w" "unat addr + unat len - 1 \<in> bytes_of w" by auto
  then have *: "unat (w_base w) \<le> unat addr" "unat addr + unat len \<le> unat e"
    using assms r by (auto simp: bytes_of_def Window_end_Some)
  have "unat addr + unat len < 2 ^ 64"
    using * unat_lt [of e] by simp
  then obtain ae where ae: "checked_add addr len = Some ae" "unat ae = unat addr + unat len"
    by (cases "checked_add addr len") (auto simp: checked_add_Some checked_add_None)
  show "Window_contains w addr len"
    using assms ae * r by (simp add: Window_contains_def word_le_nat_alt word_less_nat_alt)
qed (rule Window_contains_bytes)

lemma Window_overlaps_disjoint:
  "\<not> Window_overlaps w v \<Longrightarrow> bytes_of w \<inter> bytes_of v = {}"
  by (auto simp: Window_overlaps_def bytes_of_def Window_end_Some word_le_nat_alt
      word_less_nat_alt split: option.splits)

lemma mod_PAGE: "a mod PAGE = 0 \<longleftrightarrow> unat a mod 4096 = 0"
  by (simp add: PAGE_def word_unat_eq_iff unat_mod)

lemma check_window_Ok:
  "check_window w mx limit = Ok () \<longleftrightarrow>
     0 < unat (w_len w) \<and> aligned w \<and> unat (w_len w) \<le> unat mx
     \<and> unat (w_base w) + unat (w_len w) < 2 ^ 64
     \<and> unat (w_base w) + unat (w_len w) \<le> unat limit"
proof -
  have "w_len w = 0 \<longleftrightarrow> unat (w_len w) = 0" by (simp add: word_unat_eq_iff)
  moreover have "Window_end w = None \<longleftrightarrow> \<not> unat (w_base w) + unat (w_len w) < 2 ^ 64"
    by (simp add: Window_end_def checked_add_None not_less)
  moreover have "Window_end w = Some e \<Longrightarrow> unat e = unat (w_base w) + unat (w_len w)" for e
    by (simp add: Window_end_Some)
  ultimately show ?thesis
    by (cases "Window_end w")
      (auto simp add: check_window_def aligned_def mod_PAGE word_le_nat_alt word_less_nat_alt not_less)
qed

lemma limits_unat:
  "unat IDENTITY_LIMIT = 2 ^ 39" "unat PHYS_LIMIT = 2 ^ 52" "unat MAX_MMIO = 2 ^ 24"
  "unat (MAX_DMA_PAGES * PAGE) = 2 ^ 20" "unat HIGH_MMIO_VA = 508 * 2 ^ 30"
  by (simp_all add: IDENTITY_LIMIT_def PHYS_LIMIT_def MAX_MMIO_def MAX_DMA_PAGES_def PAGE_def
      HIGH_MMIO_VA_def push_bit_eq_mult)

lemma unit_result_cases: "(\<exists>e. r = Err e) \<or> r = Ok ()"
  by (cases r) auto

lemma DeviceGrant_new_Ok:
  "DeviceGrant_new bdf mmio dma irq mf df = Ok g \<longleftrightarrow>
     check_window mmio MAX_MMIO PHYS_LIMIT = Ok ()
     \<and> check_window dma (MAX_DMA_PAGES * PAGE) IDENTITY_LIMIT = Ok ()
     \<and> \<not> Window_overlaps mmio dma \<and> (\<forall>f\<in>set mf. \<not> Window_overlaps mmio f)
     \<and> (\<forall>f\<in>set df. \<not> Window_overlaps dma f)
     \<and> g = \<lparr>g_bdf = bdf, g_mmio = mmio, g_dma = dma, g_irq_vector = irq\<rparr>"
  by (auto simp: DeviceGrant_new_def list_ex_iff split: sum.splits)

lemma mmio_va_below:
  assumes "check_window (g_mmio g) MAX_MMIO PHYS_LIMIT = Ok ()"
  shows "unat (mmio_va g) + unat (w_len (g_mmio g)) \<le> 2 ^ 39"
  using assms by (auto simp: mmio_va_def check_window_Ok limits_unat Window_end_Some word_le_nat_alt
      split: option.splits)

lemma and_not_mask: "unat (a AND NOT (PAGE - 1)) = unat a div 4096 * 4096"
proof -
  have m: "PAGE - 1 = mask 12" by (simp add: PAGE_def mask_eq_exp_minus_1)
  have "a AND NOT (mask 12) = push_bit 12 (drop_bit 12 a)"
    by (rule bit_word_eqI) (auto simp: bit_simps)
  then have "a AND NOT (PAGE - 1) = a div 4096 * 4096"
    unfolding m by (simp add: push_bit_eq_mult drop_bit_eq_div)
  moreover have "unat (a div 4096) * unat (4096 :: u64) < 2 ^ LENGTH(64)"
    using unat_lt [of a] div_times_less_eq_dividend [of "unat a" 4096] by (simp add: unat_div)
  ultimately show ?thesis by (simp only: unat_mult_lt) (simp add: unat_div)
qed

lemma unat_PAGE_1: "unat (PAGE - 1) = 4095"
  by (simp add: PAGE_def)

lemma page_round_least:
  assumes "Window_page_round base len = Some w"
  shows "aligned w" and "{unat base..<unat base + unat len} \<subseteq> bytes_of w"
    and "aligned v \<Longrightarrow> {unat base..<unat base + unat len} \<subseteq> bytes_of v \<Longrightarrow> 0 < unat len \<Longrightarrow>
      bytes_of w \<subseteq> bytes_of v"
proof -
  let ?s = "unat base div 4096 * 4096" and ?e = "(unat base + unat len + 4095) div 4096 * 4096"
  have b: "unat (w_base w) = ?s"
    and e: "unat (w_base w) + unat (w_len w) = ?e"
  proof -
    from assms obtain s t where st: "checked_add base len = Some s" "checked_add s (PAGE - 1) = Some t"
      and w: "w = \<lparr>w_base = base AND NOT (PAGE - 1), w_len = (t AND NOT (PAGE - 1)) - (base AND NOT (PAGE - 1))\<rparr>"
      by (auto simp: Window_page_round_def Let_def split: option.splits)
    from st have s: "unat s = unat base + unat len" and t: "unat t = unat s + 4095"
      by (simp_all add: checked_add_Some unat_PAGE_1)
    show "unat (w_base w) = ?s" by (simp only: w and_not_mask Window.simps)
    have "?s \<le> ?e" by (intro mult_le_mono1 div_le_mono) simp
    then have "(base AND NOT (PAGE - 1)) \<le> (t AND NOT (PAGE - 1))"
      by (simp add: word_le_nat_alt and_not_mask s t)
    then show "unat (w_base w) + unat (w_len w) = ?e"
      using \<open>?s \<le> ?e\<close> by (simp add: w unat_sub and_not_mask s t)
  qed
  have se: "?s \<le> unat base" "unat base + unat len \<le> ?e" "?s \<le> ?e" by linarith+
  show "aligned w"
  proof -
    have "unat (w_len w) = ((unat base + unat len + 4095) div 4096 - unat base div 4096) * 4096"
      using b e by (simp add: diff_mult_distrib)
    then show ?thesis using b by (simp add: aligned_def)
  qed
  show "{unat base..<unat base + unat len} \<subseteq> bytes_of w"
    using b e se by (auto simp: bytes_of_def)
  assume v: "aligned v" "{unat base..<unat base + unat len} \<subseteq> bytes_of v" "0 < unat len"
  then have "unat base \<in> bytes_of v" "unat base + unat len - 1 \<in> bytes_of v" by auto
  then have vb: "unat (w_base v) \<le> unat base" "unat base + unat len \<le> unat (w_base v) + unat (w_len v)"
    by (auto simp: bytes_of_def)
  obtain m n where m: "unat (w_base v) = m * 4096" and n: "unat (w_base v) + unat (w_len v) = n * 4096"
    using v(1) by (metis aligned_def div_mult_mod_eq add_0_right add_mult_distrib)
  have "m \<le> unat base div 4096" using vb(1) m by linarith
  moreover have "(unat base + unat len + 4095) div 4096 \<le> n" using vb(2) n by linarith
  ultimately show "bytes_of w \<subseteq> bytes_of v"
    using b e m n by (auto simp: bytes_of_def)
qed

lemma sid_masks: "(31 :: 'a::len word) = mask 5" "(7 :: 'a::len word) = mask 3"
  by (simp_all add: mask_eq_exp_minus_1)

lemma Bdf_sid_from: "Bdf_sid (Bdf_from_sid sid) = sid"
proof (rule bit_word_eqI)
  fix n assume n: "n < LENGTH(16)"
  show "bit (Bdf_sid (Bdf_from_sid sid)) n = bit sid n"
  proof (cases "n < 8")
    case True
    then have "n - 3 < 5" by linarith
    with True n show ?thesis
      by (auto simp: Bdf_sid_def Bdf_from_sid_def sid_masks bit_simps)
  next
    case False
    with n show ?thesis
      by (auto simp: Bdf_sid_def Bdf_from_sid_def sid_masks bit_simps)
  qed
qed

lemma Bdf_from_sid:
  "unat (bdf_dev b) < 32 \<Longrightarrow> unat (bdf_func b) < 8 \<Longrightarrow> Bdf_from_sid (Bdf_sid b) = b"
proof -
  assume "unat (bdf_dev b) < 32" "unat (bdf_func b) < 8"
  then have m: "bdf_dev b = take_bit 5 (bdf_dev b)" "bdf_func b = take_bit 3 (bdf_func b)"
    by (simp_all add: word_unat_eq_iff unsigned_take_bit_eq take_bit_nat_eq_self)
  have hi: "bit (bdf_dev b) i \<Longrightarrow> i < 5" "bit (bdf_func b) i \<Longrightarrow> i < 3" for i
    using m by (metis bit_take_bit_iff)+
  then show ?thesis
    by (cases b) (auto simp: Bdf_sid_def Bdf_from_sid_def sid_masks bit_simps intro!: bit_word_eqI
        dest: bit_imp_le_length)
qed

lemma Bdf_from_sid_valid: "unat (bdf_dev (Bdf_from_sid sid)) < 32 \<and> unat (bdf_func (Bdf_from_sid sid)) < 8"
proof -
  have "drop_bit 3 sid AND 31 = take_bit 5 (drop_bit 3 sid)" "sid AND 7 = take_bit 3 sid"
    by (simp_all add: take_bit_eq_mask mask_eq_exp_minus_1)
  then show ?thesis
    by (simp add: Bdf_from_sid_def unsigned_ucast_eq unsigned_take_bit_eq take_bit_nat_eq_self
      less_le_trans [OF take_bit_nat_less_exp])
qed

section \<open>Vectors: one owner each\<close>

definition pool_wf :: "VectorPool \<Rightarrow> bool" where
  "pool_wf p \<longleftrightarrow> length (vp_owner p) = MAX_VECTORS \<and> unat (vp_len p) \<le> MAX_VECTORS
     \<and> unat (vp_base p) + unat (vp_len p) \<le> 256
     \<and> (\<forall>i<unat (vp_len p). \<forall>j<unat (vp_len p). \<forall>w. vp_owner p ! i = Some w \<longrightarrow> vp_owner p ! j = Some w \<longrightarrow> i = j)"

lemma VectorPool_new_wf: "pool_wf (VectorPool_new base len)"
proof -
  let ?n = "if unat len > MAX_VECTORS then of_nat MAX_VECTORS else len"
  have n: "unat ?n \<le> 16" by (simp add: MAX_VECTORS_def)
  have b: "unat base < 256" using unat_lt [of base] by simp
  have sum: "unat (ucast base + ucast ?n :: u16) = unat base + unat ?n"
    using n b by (subst unat_add_lt) (simp_all add: unsigned_ucast_eq take_bit_nat_eq_self)
  have dif: "unat (256 - ucast base :: u16) = 256 - unat base"
    using b by (subst unat_sub) (simp_all add: word_le_nat_alt unsigned_ucast_eq take_bit_nat_eq_self)
  show ?thesis
  proof (cases "unat base + unat ?n > 256")
    case True
    then have "256 - unat base \<le> 16" using n by linarith
    then have "unat (ucast (256 - ucast base :: u16) :: u8) = 256 - unat base"
      using dif by (simp add: unsigned_ucast_eq take_bit_nat_eq_self)
    with True sum \<open>256 - unat base \<le> 16\<close> b show ?thesis
      by (simp add: pool_wf_def VectorPool_new_def Let_def MAX_VECTORS_def word_less_nat_alt)
  next
    case False
    with sum n show ?thesis
      by (simp add: pool_wf_def VectorPool_new_def Let_def MAX_VECTORS_def word_less_nat_alt)
  qed
qed

lemma VectorPool_index_Some:
  "VectorPool_index p v = Some i \<longleftrightarrow> i < unat (vp_len p) \<and> unat v = unat (vp_base p) + i"
  by (auto simp: VectorPool_index_def VectorPool_contains_def word_le_nat_alt unat_sub)

lemma unat_vector:
  "pool_wf p \<Longrightarrow> i < unat (vp_len p) \<Longrightarrow> unat (vp_base p + of_nat i) = unat (vp_base p) + i"
  by (subst unat_add_lt) (auto simp: pool_wf_def unat_of_nat_lt)

lemma index_of_vector:
  "pool_wf p \<Longrightarrow> i < unat (vp_len p) \<Longrightarrow> VectorPool_index p (vp_base p + of_nat i) = Some i"
  by (simp add: VectorPool_index_Some unat_vector)

lemma vector_of_Some:
  assumes "pool_wf p"
  shows "vector_of p w = Some v \<longleftrightarrow> owner_of p v = Some w"
proof
  assume "vector_of p w = Some v"
  then show "owner_of p v = Some w"
    using assms by (auto simp: vector_of_def find_upt_Some owner_of_def index_of_vector)
next
  assume o: "owner_of p v = Some w"
  then obtain i where i: "i < unat (vp_len p)" "unat v = unat (vp_base p) + i" "vp_owner p ! i = Some w"
    by (auto simp: owner_of_def VectorPool_index_Some split: option.splits)
  then have "List.find (\<lambda>i. vp_owner p ! i = Some w) [0..<unat (vp_len p)] = Some i"
    using assms by (auto simp: find_upt_Some pool_wf_def dest: less_trans)
  moreover have "v = vp_base p + of_nat i"
    using unat_vector [OF assms i(1)] i(2) by (simp add: word_unat_eq_iff)
  ultimately show "vector_of p w = Some v" by (simp add: vector_of_def)
qed

lemma vector_of_None:
  "pool_wf p \<Longrightarrow> vector_of p w = None \<longleftrightarrow> (\<forall>v. owner_of p v \<noteq> Some w)"
  using vector_of_Some [of p w] by (metis not_None_eq)

lemma owner_of_index: "VectorPool_index p v = Some i \<Longrightarrow> owner_of p v = vp_owner p ! i"
  by (simp add: owner_of_def)

lemma owner_update:
  assumes "pool_wf p" and "VectorPool_index p v = Some i"
  shows "owner_of (p\<lparr>vp_owner := (vp_owner p)[i := x]\<rparr>) = (owner_of p)(v := x)"
proof
  fix u
  have ix: "VectorPool_index (p\<lparr>vp_owner := ys\<rparr>) u = VectorPool_index p u" for ys
    by (simp add: VectorPool_index_def VectorPool_contains_def)
  have i: "i < length (vp_owner p)"
    using assms by (auto simp: VectorPool_index_Some pool_wf_def)
  show "owner_of (p\<lparr>vp_owner := (vp_owner p)[i := x]\<rparr>) u = ((owner_of p)(v := x)) u"
  proof (cases "VectorPool_index p u")
    case None
    then show ?thesis using assms(2) by (auto simp: owner_of_def ix)
  next
    case (Some j)
    have "j = i \<longleftrightarrow> u = v"
      using Some assms(2) by (auto simp: VectorPool_index_Some word_unat_eq_iff)
    then show ?thesis using Some i by (auto simp: owner_of_def ix nth_list_update)
  qed
qed

lemma pool_wf_update:
  assumes "pool_wf p" and "VectorPool_index p v = Some i"
    and "x = None \<or> (\<exists>w. x = Some w \<and> vector_of p w = None)"
  shows "pool_wf (p\<lparr>vp_owner := (vp_owner p)[i := x]\<rparr>)"
proof -
  have "vp_owner p ! j \<noteq> Some w" if "x = Some w" "j < unat (vp_len p)" for j w
    using assms that by (auto simp: vector_of_def find_upt_None)
  moreover have "i < 16" using assms by (auto simp: VectorPool_index_Some pool_wf_def MAX_VECTORS_def)
  ultimately show ?thesis
    using assms(1) unfolding pool_wf_def by (auto simp: nth_list_update MAX_VECTORS_def)
qed

text \<open>What each request does to the owner of every vector.\<close>

lemma VectorPool_alloc_spec:
  assumes "pool_wf p" and "VectorPool_alloc w p = (r, p')"
  shows "pool_wf p' \<and> (case r of
      Ok v \<Rightarrow> (owner_of p v = Some w \<and> p' = p
              \<or> vector_of p w = None \<and> VectorPool_contains p v \<and> owner_of p v = None \<and> owner_of p' = (owner_of p)(v \<mapsto> w))
    | Err e \<Rightarrow> e = Exhausted \<and> p' = p \<and> vector_of p w = None
        \<and> (\<forall>v. VectorPool_contains p v \<longrightarrow> owner_of p v \<noteq> None))"
proof (cases "vector_of p w")
  case (Some v)
  with assms show ?thesis by (auto simp: VectorPool_alloc_def vector_of_Some)
next
  case None
  show ?thesis
  proof (cases "List.find (\<lambda>i. vp_owner p ! i = None) [0..<unat (vp_len p)]")
    case f: None
    then have "owner_of p v \<noteq> None" if "VectorPool_contains p v" for v
      using that by (auto simp: owner_of_def VectorPool_index_def VectorPool_contains_def find_upt_None)
    with f None assms show ?thesis by (auto simp: VectorPool_alloc_def)
  next
    case (Some i)
    then have i: "i < unat (vp_len p)" "vp_owner p ! i = None" by (auto simp: find_upt_Some)
    note ix = index_of_vector [OF assms(1) i(1)]
    from Some None assms(2) have "r = Ok (vp_base p + of_nat i)"
      and p': "p' = p\<lparr>vp_owner := (vp_owner p)[i := Some w]\<rparr>"
      by (auto simp: VectorPool_alloc_def)
    moreover have "pool_wf p'"
      unfolding p' using assms(1) ix None by (intro pool_wf_update) auto
    moreover have "VectorPool_contains p (vp_base p + of_nat i)"
      using ix by (auto simp: VectorPool_index_def split: if_splits)
    ultimately show ?thesis
      using owner_update [OF assms(1) ix] i(2) None by (simp add: owner_of_index [OF ix])
  qed
qed

lemma VectorPool_claim_spec:
  assumes "pool_wf p" and "VectorPool_claim v w p = (r, p')"
  shows "pool_wf p' \<and> (case r of
      Ok u \<Rightarrow> u = v \<and> (owner_of p v = Some w \<and> p' = p
              \<or> vector_of p w = None \<and> owner_of p v = None \<and> owner_of p' = (owner_of p)(v \<mapsto> w))
    | Err e \<Rightarrow> p' = p \<and> (e = NotInPool \<and> \<not> VectorPool_contains p v
        \<or> (\<exists>x. e = Taken x \<and> owner_of p v = Some x \<and> x \<noteq> w)
        \<or> (\<exists>u. e = AlreadyHolds u \<and> owner_of p u = Some w)))"
proof (cases "VectorPool_index p v")
  case None
  with assms show ?thesis by (auto simp: VectorPool_claim_def VectorPool_index_def split: if_splits)
next
  case (Some i)
  note o = owner_of_index [OF Some]
  show ?thesis
  proof (cases "vp_owner p ! i")
    case (Some x)
    with \<open>VectorPool_index p v = Some i\<close> assms o show ?thesis
      by (auto simp: VectorPool_claim_def split: if_splits)
  next
    case free: None
    show ?thesis
    proof (cases "vector_of p w")
      case (Some u)
      with \<open>VectorPool_index p v = Some i\<close> free assms show ?thesis
        by (auto simp: VectorPool_claim_def vector_of_Some)
    next
      case None
      with Some free assms(2) have "r = Ok v" and p': "p' = p\<lparr>vp_owner := (vp_owner p)[i := Some w]\<rparr>"
        by (auto simp: VectorPool_claim_def)
      moreover have "pool_wf p'"
        unfolding p' using assms(1) Some None by (intro pool_wf_update) auto
      ultimately show ?thesis
        using owner_update [OF assms(1) Some] None free o by simp
    qed
  qed
qed

lemma VectorPool_release_spec:
  assumes "pool_wf p" and "VectorPool_release v w p = (r, p')"
  shows "pool_wf p' \<and> (case r of
      Ok _ \<Rightarrow> owner_of p v = Some w \<and> owner_of p' = (owner_of p)(v := None)
    | Err e \<Rightarrow> owner_of p v \<noteq> Some w \<and> p' = p \<and> e = (if VectorPool_contains p v then NotOwner else NotInPool))"
proof (cases "VectorPool_index p v")
  case None
  with assms show ?thesis
    by (auto simp: VectorPool_release_def VectorPool_index_def owner_of_def split: if_splits)
next
  case (Some i)
  then have c: "VectorPool_contains p v" by (auto simp: VectorPool_index_def split: if_splits)
  show ?thesis
  proof (cases "vp_owner p ! i = Some w")
    case True
    with Some assms(2) have "r = Ok ()" and p': "p' = p\<lparr>vp_owner := (vp_owner p)[i := None]\<rparr>"
      by (auto simp: VectorPool_release_def)
    moreover have "pool_wf p'"
      unfolding p' using assms(1) Some by (intro pool_wf_update) auto
    ultimately show ?thesis
      using owner_update [OF assms(1) Some] True owner_of_index [OF Some] by simp
  next
    case False
    with Some assms c show ?thesis by (auto simp: VectorPool_release_def owner_of_index)
  qed
qed

text \<open>A pool in use: any sequence of requests by any owners.\<close>

inductive vp_step :: "VectorPool \<Rightarrow> VectorPool \<Rightarrow> bool" where
  vp_alloc: "VectorPool_alloc w p = (r, p') \<Longrightarrow> vp_step p p'"
| vp_claim: "VectorPool_claim v w p = (r, p') \<Longrightarrow> vp_step p p'"
| vp_release: "VectorPool_release v w p = (u, p') \<Longrightarrow> vp_step p p'"

inductive_cases vp_stepE: "vp_step p p'"

interpretation vector_machine: safe_machine "\<lambda>p. \<exists>base len. p = VectorPool_new base len" vp_step pool_wf
proof
  show "pool_wf p" if "\<exists>base len. p = VectorPool_new base len" for p
    using that VectorPool_new_wf by blast
  show "pool_wf q" if "pool_wf p" "vp_step p q" for p q
    using that(2) VectorPool_alloc_spec [OF that(1)] VectorPool_claim_spec [OF that(1)]
      VectorPool_release_spec [OF that(1)]
    by (elim vp_stepE) blast+
qed

lemma pool_wf_exclusive: "pool_wf p \<Longrightarrow> owner_of p v = Some w \<Longrightarrow> owner_of p u = Some w \<Longrightarrow> v = u"
  using vector_of_Some by (metis option.inject)

section \<open>Restarts: the bounded history is enough\<close>

lemma keep_loop_take:
  assumes "keep_loop since ts (keep, k) = (keep', k')" and "length keep = 16" and "k \<le> 15"
  shows "length keep' = 16 \<and> k' = k + length (take (15 - k) (filter (\<lambda>t. since \<le> t) ts))
    \<and> take k' keep' = take k keep @ take (15 - k) (filter (\<lambda>t. since \<le> t) ts)"
  using assms
proof (induction ts arbitrary: keep k)
  case Nil
  then show ?case by auto
next
  case (Cons t ts)
  show ?case
  proof (cases "since \<le> t \<and> k < 15")
    case True
    then have "keep_loop since ts (keep[k := t], k + 1) = (keep', k')"
      using Cons.prems by simp
    moreover have "take (k + 1) (keep[k := t]) = take k keep @ [t]"
      using Cons.prems True by (simp add: take_Suc_conv_app_nth)
    moreover have "15 - k = Suc (15 - (k + 1))" using True by linarith
    ultimately show ?thesis using Cons.IH [of "keep[k := t]" "k + 1"] Cons.prems True by auto
  next
    case False
    then have kl: "keep_loop since ts (keep, k) = (keep', k')"
      using Cons.prems by auto
    have eq: "take (15 - k) (filter (\<lambda>t. since \<le> t) (t # ts)) = take (15 - k) (filter (\<lambda>t. since \<le> t) ts)"
      using False Cons.prems by (cases "since \<le> t") simp_all
    show ?thesis unfolding eq by (rule Cons.IH [OF kl Cons.prems(2,3)])
  qed
qed

text \<open>The reference policy keeps the whole history: it counts the deaths of the window that ends
  now, gives up above \<open>max_restarts\<close> and otherwise restarts after a delay that doubles with each
  death in the window, computed on natural numbers.\<close>

definition window_since :: "Policy \<Rightarrow> u64 \<Rightarrow> u64" where
  "window_since p now = saturating_sub now (window_ticks p)"

definition in_window :: "Policy \<Rightarrow> u64 \<Rightarrow> u64 \<Rightarrow> bool" where
  "in_window p now t \<longleftrightarrow> unat now \<le> unat t + unat (window_ticks p)"

definition restart_delay :: "Policy \<Rightarrow> nat \<Rightarrow> nat" where
  "restart_delay p k =
     (if k \<le> 1 then 0 else min (unat (backoff_ticks p) * 2 ^ (k - 2)) (unat (max_backoff_ticks p)))"

definition decide :: "Policy \<Rightarrow> u64 list \<Rightarrow> u64 \<Rightarrow> Decision" where
  "decide p past now =
     (let k = length (filter (in_window p now) past) + 1
      in if k > unat (max_restarts p) then GiveUp
         else RestartAt (of_nat (min (unat now + restart_delay p k) (2 ^ 64 - 1))))"

fun supervise :: "Policy \<Rightarrow> u64 list \<Rightarrow> Tracker \<Rightarrow> Decision list" where
  "supervise p [] t = []"
| "supervise p (now # ts) t =
     (case on_death now p t of
        (GiveUp, t') \<Rightarrow> [GiveUp]
      | (RestartAt at, t') \<Rightarrow> RestartAt at # supervise p ts t')"

fun supervise_ref :: "Policy \<Rightarrow> u64 list \<Rightarrow> u64 list \<Rightarrow> Decision list" where
  "supervise_ref p past [] = []"
| "supervise_ref p past (now # ts) =
     (case decide p past now of
        GiveUp \<Rightarrow> [GiveUp]
      | RestartAt at \<Rightarrow> RestartAt at # supervise_ref p (past @ [now]) ts)"

lemma in_window_since: "in_window p now t \<longleftrightarrow> window_since p now \<le> t"
  by (auto simp: in_window_def window_since_def word_le_nat_alt unat_saturating_sub)

lemma window_since_mono: "a \<le> b \<Longrightarrow> window_since p a \<le> window_since p b"
  by (simp add: window_since_def word_le_nat_alt unat_saturating_sub diff_le_mono)

lemma window_since_le: "window_since p now \<le> now"
  by (simp add: window_since_def word_le_nat_alt unat_saturating_sub)

lemma unat_min: "unat (min a b) = min (unat a) (unat b)" for a b :: "'a::len word"
  by (simp add: min_def word_le_nat_alt)

lemma delay_word:
  assumes "j \<le> 14"
  shows "saturating_add now (min (saturating_mul (backoff_ticks p) (2 ^ j)) (max_backoff_ticks p))
    = of_nat (min (unat now + restart_delay p (Suc (Suc j))) (2 ^ 64 - 1))"
proof -
  have "(2 :: nat) ^ j < 2 ^ 64"
    using assms by (intro power_strict_increasing) simp_all
  then have "unat (2 ^ j :: u64) = 2 ^ j"
    using unat_of_nat_lt [of "2 ^ j", where 'a = 64] by simp
  moreover have "unat (max_backoff_ticks p) \<le> 2 ^ 64 - 1"
    using unat_lt [of "max_backoff_ticks p"] by simp
  ultimately have "unat (min (saturating_mul (backoff_ticks p) (2 ^ j)) (max_backoff_ticks p))
    = restart_delay p (Suc (Suc j))"
    by (simp add: unat_min unat_saturating_mul restart_delay_def min.assoc min_absorb2)
  then show ?thesis
    by (simp add: word_unat_eq_iff unat_saturating_add unat_of_nat min_less_iff_disj)
qed

lemma on_death_eq:
  assumes "keep_loop (window_since p now) (take (tr_n t) (tr_deaths t)) (replicate 16 0, 0) = (keep, k)"
    and "k \<le> 15"
  shows "on_death now p t =
    (if unat (max_restarts p) < Suc k then GiveUp
     else RestartAt (of_nat (min (unat now + restart_delay p (Suc k)) (2 ^ 64 - 1))),
     t\<lparr>tr_total := tr_total t + 1, tr_deaths := keep[k := now], tr_n := Suc k\<rparr>)"
proof -
  have u: "unat (of_nat (Suc k) :: u32) = Suc k"
    using assms(2) by (intro unat_of_nat_lt) simp
  have now: "unat now \<le> 2 ^ 64 - 1" using unat_lt [of now] by simp
  show ?thesis
  proof (cases k)
    case 0
    have "saturating_add now 0 = of_nat (min (unat now + restart_delay p 1) (2 ^ 64 - 1))"
      using now unat_lt [of now] by (simp add: saturating_add_def restart_delay_def)
    with 0 assms u show ?thesis
      by (simp add: on_death_def window_since_def Let_def word_less_nat_alt)
  next
    case (Suc j)
    with assms(2) have j: "j \<le> 14" "min (Suc j) 32 = Suc j" by simp_all
    show ?thesis
      using assms u delay_word [OF j(1), of now p] Suc j(2)
      by (simp add: on_death_def window_since_def Let_def word_less_nat_alt del: of_nat_Suc)
  qed
qed

text \<open>What a tracker remembers of a history: the deaths of the window that ended at the last one.\<close>

definition remembers :: "Tracker \<Rightarrow> u64 list \<Rightarrow> u64 \<Rightarrow> bool" where
  "remembers t past since \<longleftrightarrow> length (tr_deaths t) = 16 \<and> tr_n t \<le> 15
     \<and> take (tr_n t) (tr_deaths t) = filter (\<lambda>d. since \<le> d) past"

lemma on_death_decide:
  assumes "remembers t past since" and "since \<le> window_since p now"
    and "on_death now p t = (d, t')" and "unat (max_restarts p) \<le> 15"
  shows "d = decide p past now"
    and "d \<noteq> GiveUp \<Longrightarrow> remembers t' (past @ [now]) (window_since p now)"
proof -
  let ?s = "window_since p now"
  let ?f = "filter (\<lambda>d. ?s \<le> d) past"
  obtain keep k where kl: "keep_loop ?s (take (tr_n t) (tr_deaths t)) (replicate 16 0, 0) = (keep, k)"
    by (cases "keep_loop ?s (take (tr_n t) (tr_deaths t)) (replicate 16 0, 0)")
  have "filter (\<lambda>d. ?s \<le> d) (take (tr_n t) (tr_deaths t)) = ?f"
    using assms(1,2) by (auto simp: remembers_def intro!: filter_cong)
  moreover have "length ?f \<le> tr_n t"
    using assms(1,2) calculation by (metis length_filter_le length_take min.cobounded2 order_trans)
  then have "length ?f \<le> 15" using assms(1) by (simp add: remembers_def)
  ultimately have keep: "length keep = 16" "k = length ?f" "take k keep = ?f"
    using keep_loop_take [OF kl] by auto
  have k: "k \<le> 15" using \<open>length ?f \<le> 15\<close> keep by simp
  have cnt: "length (filter (in_window p now) past) = k"
    using keep(2) by (simp add: in_window_since [abs_def])
  note step = assms(3) [unfolded on_death_eq [OF kl k]]
  then show "d = decide p past now"
    using cnt by (auto simp: decide_def Let_def)
  assume "d \<noteq> GiveUp"
  with step have lt: "\<not> unat (max_restarts p) < Suc k"
    and t': "t' = t\<lparr>tr_total := tr_total t + 1, tr_deaths := keep[k := now], tr_n := Suc k\<rparr>"
    by (auto split: if_splits)
  moreover have "take (Suc k) (keep[k := now]) = ?f @ [now]"
    using keep k by (simp add: take_Suc_conv_app_nth)
  ultimately show "remembers t' (past @ [now]) ?s"
    using assms(4) keep(1) window_since_le [of p now] by (simp add: remembers_def)
qed

lemma supervise_remembers:
  assumes "remembers t past since" and "unat (max_restarts p) \<le> 15" and "sorted ts"
    and "\<forall>d\<in>set ts. since \<le> window_since p d"
  shows "supervise p ts t = supervise_ref p past ts"
  using assms
proof (induction ts arbitrary: t past since)
  case Nil
  then show ?case by simp
next
  case (Cons now ts)
  obtain d t' where od: "on_death now p t = (d, t')" by (cases "on_death now p t")
  note step = on_death_decide [OF Cons.prems(1) _ od Cons.prems(2)]
  have d: "d = decide p past now" using step(1) Cons.prems(4) by simp
  show ?case
  proof (cases d)
    case GiveUp
    then show ?thesis using od d by simp
  next
    case (RestartAt at)
    then have "remembers t' (past @ [now]) (window_since p now)"
      using step(2) Cons.prems(4) by simp
    then have "supervise p ts t' = supervise_ref p (past @ [now]) ts"
      using Cons.prems by (intro Cons.IH) (auto intro: window_since_mono)
    moreover have "decide p past now = RestartAt at" "on_death now p t = (RestartAt at, t')"
      using od d RestartAt by simp_all
    ultimately show ?thesis by simp
  qed
qed

section \<open>Properties\<close>

text \<open>
  Property C2.  A device grant confines its driver.  When \<open>DeviceGrant::new\<close> accepts, every byte
  an access admitted by \<open>may_mmio\<close> touches lies inside the granted BAR window, below the physical
  limit, in no range declared forbidden for MMIO; every byte a DMA admitted by \<open>may_dma\<close>
  touches lies in the identity map, in no range forbidden for DMA and never in the MMIO
  window; both windows are whole pages and at most 16 MiB and 1 MiB, and the addresses at which the
  driver sees its registers stay inside the 512 GiB of its address space.\<close>

theorem grant_confines:
  assumes "DeviceGrant_new bdf mmio dma irq mmio_forbidden dma_forbidden = Ok g"
  shows "(\<forall>a n. may_mmio g a n \<longrightarrow> {unat a..<unat a + unat n} \<subseteq> bytes_of mmio
        \<and> (\<forall>x\<in>{unat a..<unat a + unat n}. x < 2 ^ 52 \<and> (\<forall>f\<in>set mmio_forbidden. x \<notin> bytes_of f)))
    \<and> (\<forall>a n. may_dma g a n \<longrightarrow> {unat a..<unat a + unat n} \<subseteq> bytes_of dma
        \<and> (\<forall>x\<in>{unat a..<unat a + unat n}. x < 2 ^ 39 \<and> x \<notin> bytes_of mmio \<and> (\<forall>f\<in>set dma_forbidden. x \<notin> bytes_of f)))
    \<and> aligned mmio \<and> aligned dma \<and> card (bytes_of mmio) \<le> 16 * 2 ^ 20 \<and> card (bytes_of dma) \<le> 2 ^ 20
    \<and> unat (mmio_va g) + card (bytes_of mmio) \<le> 512 * 2 ^ 30"
proof -
  note ok = assms [unfolded DeviceGrant_new_Ok]
  have m: "aligned mmio" "unat (w_len mmio) \<le> 2 ^ 24" "bytes_of mmio \<subseteq> {..<2 ^ 52}"
    and d: "aligned dma" "unat (w_len dma) \<le> 2 ^ 20" "bytes_of dma \<subseteq> {..<2 ^ 39}"
    using ok by (auto simp: check_window_Ok limits_unat bytes_of_def)
  have sep: "bytes_of mmio \<inter> bytes_of dma = {}"
    "\<forall>f\<in>set mmio_forbidden. bytes_of mmio \<inter> bytes_of f = {}"
    "\<forall>f\<in>set dma_forbidden. bytes_of dma \<inter> bytes_of f = {}"
    using ok by (simp_all add: Window_overlaps_disjoint)
  have "{unat a..<unat a + unat n} \<subseteq> bytes_of mmio" if "may_mmio g a n" for a n
    using Window_contains_bytes [of mmio a n] ok that by (simp add: may_mmio_def)
  moreover have "{unat a..<unat a + unat n} \<subseteq> bytes_of dma" if "may_dma g a n" for a n
    using Window_contains_bytes [of dma a n] ok that by (simp add: may_dma_def)
  moreover have "card (bytes_of mmio) \<le> 16 * 2 ^ 20" "card (bytes_of dma) \<le> 2 ^ 20"
    using m d by (simp_all add: bytes_of_def)
  moreover have "unat (mmio_va g) + card (bytes_of mmio) \<le> 512 * 2 ^ 30"
    using mmio_va_below [of g] ok by (simp add: bytes_of_def)
  ultimately show ?thesis using m d sep by blast
qed

text \<open>A NIC's register window near 768 GiB, one page of DMA memory, RAM forbidden.\<close>

theorem grant_confines_witness:
  "\<exists>g. DeviceGrant_new \<lparr>bdf_bus = 0, bdf_dev = 3, bdf_func = 0\<rparr> \<lparr>w_base = 0xC000000000, w_len = 0x4000\<rparr>
      \<lparr>w_base = 0x100000, w_len = 0x1000\<rparr> None [\<lparr>w_base = 0, w_len = 0x80000000\<rparr>] [\<lparr>w_base = 0xFEE00000, w_len = 0x1000\<rparr>] = Ok g
    \<and> may_dma g 0x100010 64 \<and> (\<forall>x\<in>{unat (0x100010 :: u64)..<unat (0x100010 :: u64) + unat (64 :: u64)}. x < 2 ^ 39)
    \<and> may_mmio g 0xC000000010 4 \<and> unat (mmio_va g) + card (bytes_of \<lparr>w_base = 0xC000000000, w_len = 0x4000\<rparr>) \<le> 512 * 2 ^ 30"
proof -
  let ?m = "\<lparr>w_base = 0xC000000000, w_len = 0x4000\<rparr>" and ?d = "\<lparr>w_base = 0x100000, w_len = 0x1000\<rparr>"
    and ?b = "\<lparr>bdf_bus = 0, bdf_dev = 3, bdf_func = 0\<rparr>"
    and ?mf = "[\<lparr>w_base = 0, w_len = 0x80000000\<rparr>]" and ?df = "[\<lparr>w_base = 0xFEE00000, w_len = 0x1000\<rparr>]"
  let ?g = "\<lparr>g_bdf = ?b, g_mmio = ?m, g_dma = ?d, g_irq_vector = None\<rparr>"
  have new: "DeviceGrant_new ?b ?m ?d None ?mf ?df = Ok ?g"
    unfolding DeviceGrant_new_Ok check_window_Ok limits_unat
    by (simp add: aligned_def Window_overlaps_def Window_end_def checked_add_def)
  have dma: "may_dma ?g 0x100010 64" and mmio: "may_mmio ?g 0xC000000010 4"
    by (simp_all add: may_dma_def may_mmio_def Window_contains_def Window_end_def checked_add_def)
  from grant_confines [OF new] show ?thesis using new dma mmio by blast
qed

text \<open>
  \<open>Window::page_round\<close> returns the smallest page-aligned window that covers the
  requested range: it is aligned, covers every byte, and every other aligned window that covers
  the range contains it.\<close>

lemma page_round_smallest:
  assumes "Window_page_round base len = Some w"
  shows "aligned w \<and> {unat base..<unat base + unat len} \<subseteq> bytes_of w
    \<and> (0 < unat len \<longrightarrow> (\<forall>v. aligned v \<and> {unat base..<unat base + unat len} \<subseteq> bytes_of v \<longrightarrow> bytes_of w \<subseteq> bytes_of v))"
  using page_round_least [OF assms] by blast

text \<open>
  Property C16.  Interrupt vectors are exclusive.  Whatever requests (alloc, claim, release) were made of
  a pool since its creation, an owner holds at most one vector, \<open>vector_of\<close> and
  \<open>owner_of\<close> agree, and a further \<open>alloc\<close> gives its caller the vector it has, or one that had
  no owner and leaves every other vector's owner as it was, or reports exhaustion when every
  vector of the pool has an owner.\<close>

theorem vectors_exclusive:
  assumes "vp_step\<^sup>*\<^sup>* (VectorPool_new base len) p" and "VectorPool_alloc w p = (r, p')"
  shows "(\<forall>v u x. owner_of p v = Some x \<and> owner_of p u = Some x \<longrightarrow> v = u)
    \<and> (\<forall>v x. vector_of p x = Some v \<longleftrightarrow> owner_of p v = Some x)
    \<and> (case r of
         Ok v \<Rightarrow> (owner_of p v = Some w \<or> owner_of p v = None \<and> VectorPool_contains p v)
           \<and> owner_of p' = (owner_of p)(v \<mapsto> w)
       | Err e \<Rightarrow> p' = p \<and> (\<forall>v. VectorPool_contains p v \<longrightarrow> owner_of p v \<noteq> None))"
proof -
  have wf: "pool_wf p" using vector_machine.inv_reachable [OF _ assms(1)] by blast
  have "owner_of p v = Some w \<Longrightarrow> owner_of p = (owner_of p)(v \<mapsto> w)" for v by auto
  then show ?thesis
    using VectorPool_alloc_spec [OF wf assms(2)] pool_wf_exclusive [OF wf] vector_of_Some [OF wf]
    by (auto split: sum.splits)
qed

theorem vectors_exclusive_witness:
  "\<exists>p'. VectorPool_alloc 7 (VectorPool_new 0x4C 4) = (Ok 0x4C, p') \<and> owner_of p' 0x4C = Some 7"
proof -
  obtain p' where a: "VectorPool_alloc 7 (VectorPool_new 0x4C 4) = (Ok 0x4C, p')"
    by (simp add: VectorPool_alloc_def VectorPool_new_def vector_of_def MAX_VECTORS_def Let_def upt_rec)
  from vectors_exclusive [OF rtranclp.rtrancl_refl a] a show ?thesis by auto
qed

text \<open>
  Property C17.  The restart tracker remembers enough.  For deaths reported in order of time, and a
  policy that tolerates at most 15 of them, the decisions of \<open>Tracker::on_death\<close> up to the point
  where it gives up are those of the reference policy that keeps the whole history and computes
  the doubled, capped delay without any bound on its integers: the 16-entry array, the window
  filter and the saturating arithmetic lose nothing.\<close>

theorem restart_policy_reference:
  assumes "sorted ts" and "unat (max_restarts p) \<le> 15"
  shows "supervise p ts Tracker_new = supervise_ref p [] ts"
  using assms by (intro supervise_remembers [where since = 0]) (simp_all add: remembers_def Tracker_new_def)

theorem restart_policy_reference_witness:
  "supervise DISK [100, 105, 110, 115] Tracker_new = [RestartAt 100, RestartAt 115, RestartAt 130, GiveUp]"
proof -
  have "supervise DISK [100, 105, 110, 115] Tracker_new = supervise_ref DISK [] [100, 105, 110, 115]"
    by (rule restart_policy_reference) (simp_all add: DISK_def)
  also have "\<dots> = [RestartAt 100, RestartAt 115, RestartAt 130, GiveUp]"
    by (simp add: decide_def in_window_def restart_delay_def DISK_def Let_def)
  finally show ?thesis .
qed

end
