(* ===== verification/DrvProto.thy ===== *)
theory DrvProto
  imports Interfaces
begin

text \<open>
  What a userspace driver and the kernel say to each other: the messages carried over EuroIPC
  (\<open>crates/eurodrv/src/proto.rs\<close>) and the driver system-call ABI with its information block
  (\<open>abi.rs\<close>).  An output buffer is a byte list that is passed in and returned; a fixed-size array
  (\<open>[u8; 6]\<close>, \<open>[u64; 12]\<close>) is a list whose length is part of the type's invariant.
\<close>

section \<open>Messages\<close>

definition TAG_HELLO :: u8 where "TAG_HELLO = 1"
definition TAG_TX :: u8 where "TAG_TX = 2"
definition TAG_RX :: u8 where "TAG_RX = 3"
definition TAG_IRQ :: u8 where "TAG_IRQ = 4"
definition TAG_CRASH :: u8 where "TAG_CRASH = 5"
definition TAG_DMA_ESCAPE :: u8 where "TAG_DMA_ESCAPE = 6"
definition TAG_REPORT :: u8 where "TAG_REPORT = 7"
definition TAG_BLK_INFO :: u8 where "TAG_BLK_INFO = 8"
definition TAG_BLK_READ :: u8 where "TAG_BLK_READ = 9"
definition TAG_BLK_WRITE :: u8 where "TAG_BLK_WRITE = 10"
definition TAG_BLK_DONE :: u8 where "TAG_BLK_DONE = 11"
definition TAG_CRASH_AFTER_WRITES :: u8 where "TAG_CRASH_AFTER_WRITES = 12"
definition TAG_DMA_PROBE :: u8 where "TAG_DMA_PROBE = 13"

lemmas tag_defs = TAG_HELLO_def TAG_TX_def TAG_RX_def TAG_IRQ_def TAG_CRASH_def TAG_DMA_ESCAPE_def
  TAG_REPORT_def TAG_BLK_INFO_def TAG_BLK_READ_def TAG_BLK_WRITE_def TAG_BLK_DONE_def
  TAG_CRASH_AFTER_WRITES_def TAG_DMA_PROBE_def

definition BLK_CHUNK :: nat where "BLK_CHUNK = 1024"
definition BLK_UNIT :: nat where "BLK_UNIT = 512"
definition MIN_FRAME :: nat where "MIN_FRAME = 14"
definition MAX_FRAME :: nat where "MAX_FRAME = 1518"
definition MAX_MSG :: nat where "MAX_MSG = 1 + MAX_FRAME"

datatype Msg =
    Hello bytes
  | Tx bytes
  | Rx bytes
  | Irq u32
  | Crash
  | DmaEscape u64 u64
  | Report u8 u64 u64
  | BlkInfo u64 u32
  | BlkRead u32 u64 u16
  | BlkWrite u32 u64 bytes
  | BlkDone u32 u16 bytes
  | CrashAfterWrites u32
  | DmaProbe u64

datatype ProtoError = Empty | UnknownTag u8 | BadLength | FrameSize | NoRoom

definition frame_ok :: "bytes \<Rightarrow> bool" where
  "frame_ok f \<longleftrightarrow> MIN_FRAME \<le> length f \<and> length f \<le> MAX_FRAME"

definition blk_write_ok :: "bytes \<Rightarrow> bool" where
  "blk_write_ok d \<longleftrightarrow> d \<noteq> [] \<and> length d \<le> BLK_CHUNK \<and> length d mod BLK_UNIT = 0"

definition u32_at :: "bytes \<Rightarrow> nat \<Rightarrow> u32" where
  "u32_at b at = from_le [b ! at, b ! (at + 1), b ! (at + 2), b ! (at + 3)]"

definition u64_at :: "bytes \<Rightarrow> nat \<Rightarrow> u64" where
  "u64_at b at = from_le (slice at (at + 8) b)"

definition encode_need :: "Msg \<Rightarrow> (nat, ProtoError) result" where
  "encode_need msg = (case msg of
      Hello _ \<Rightarrow> Ok 7
    | Tx f \<Rightarrow> if \<not> frame_ok f then Err FrameSize else Ok (1 + length f)
    | Rx f \<Rightarrow> if \<not> frame_ok f then Err FrameSize else Ok (1 + length f)
    | Irq _ \<Rightarrow> Ok 5
    | Crash \<Rightarrow> Ok 1
    | DmaEscape _ _ \<Rightarrow> Ok 17
    | Report _ _ _ \<Rightarrow> Ok 18
    | BlkInfo _ _ \<Rightarrow> Ok 13
    | BlkRead _ _ _ \<Rightarrow> Ok 15
    | BlkWrite _ _ data \<Rightarrow> if \<not> blk_write_ok data then Err FrameSize else Ok (13 + length data)
    | BlkDone _ _ data \<Rightarrow> if length data > BLK_CHUNK then Err FrameSize else Ok (7 + length data)
    | CrashAfterWrites _ \<Rightarrow> Ok 5
    | DmaProbe _ \<Rightarrow> Ok 9)"

definition encode_body :: "Msg \<Rightarrow> bytes \<Rightarrow> bytes" where
  "encode_body msg out = (case msg of
      Hello mac \<Rightarrow> copy_at 1 mac (out[0 := TAG_HELLO])
    | Tx f \<Rightarrow> copy_at 1 f (out[0 := TAG_TX])
    | Rx f \<Rightarrow> copy_at 1 f (out[0 := TAG_RX])
    | Irq cnt \<Rightarrow> copy_at 1 (to_le 4 cnt) (out[0 := TAG_IRQ])
    | Crash \<Rightarrow> out[0 := TAG_CRASH]
    | DmaEscape rx_target tx_target \<Rightarrow>
        copy_at 9 (to_le 8 tx_target) (copy_at 1 (to_le 8 rx_target) (out[0 := TAG_DMA_ESCAPE]))
    | Report code a b \<Rightarrow>
        copy_at 10 (to_le 8 b) (copy_at 2 (to_le 8 a) (out[0 := TAG_REPORT, 1 := code]))
    | BlkInfo sectors sector_size \<Rightarrow>
        copy_at 9 (to_le 4 sector_size) (copy_at 1 (to_le 8 sectors) (out[0 := TAG_BLK_INFO]))
    | BlkRead rid lba cnt \<Rightarrow>
        copy_at 13 (to_le 2 cnt) (copy_at 5 (to_le 8 lba) (copy_at 1 (to_le 4 rid) (out[0 := TAG_BLK_READ])))
    | BlkWrite rid lba data \<Rightarrow>
        copy_at 13 data (copy_at 5 (to_le 8 lba) (copy_at 1 (to_le 4 rid) (out[0 := TAG_BLK_WRITE])))
    | BlkDone rid status data \<Rightarrow>
        copy_at 7 data (copy_at 5 (to_le 2 status) (copy_at 1 (to_le 4 rid) (out[0 := TAG_BLK_DONE])))
    | CrashAfterWrites n \<Rightarrow> copy_at 1 (to_le 4 n) (out[0 := TAG_CRASH_AFTER_WRITES])
    | DmaProbe target \<Rightarrow> copy_at 1 (to_le 8 target) (out[0 := TAG_DMA_PROBE]))"

definition encode :: "Msg \<Rightarrow> bytes \<Rightarrow> (nat, ProtoError) result \<times> bytes" where
  "encode msg out = (case encode_need msg of
      Err e \<Rightarrow> (Err e, out)
    | Ok need \<Rightarrow> if length out < need then (Err NoRoom, out) else (Ok need, encode_body msg out))"

definition exact :: "bytes \<Rightarrow> nat \<Rightarrow> (Msg, ProtoError) result \<Rightarrow> (Msg, ProtoError) result" where
  "exact body n r = (if length body = n then r else Err BadLength)"

definition decode :: "bytes \<Rightarrow> (Msg, ProtoError) result" where
  "decode b = (case b of
      [] \<Rightarrow> Err Empty
    | tag # body \<Rightarrow>
        if tag = TAG_HELLO then exact body 6 (Ok (Hello body))
        else if tag = TAG_TX \<or> tag = TAG_RX then
          if \<not> frame_ok body then Err FrameSize else Ok (if tag = TAG_TX then Tx body else Rx body)
        else if tag = TAG_IRQ then
          exact body 4 (Ok (Irq (from_le [body ! 0, body ! 1, body ! 2, body ! 3])))
        else if tag = TAG_CRASH then exact body 0 (Ok Crash)
        else if tag = TAG_DMA_ESCAPE then exact body 16 (Ok (DmaEscape (u64_at body 0) (u64_at body 8)))
        else if tag = TAG_REPORT then exact body 17 (Ok (Report (body ! 0) (u64_at body 1) (u64_at body 9)))
        else if tag = TAG_BLK_INFO then exact body 12 (Ok (BlkInfo (u64_at body 0) (u32_at body 8)))
        else if tag = TAG_BLK_READ then
          exact body 14 (Ok (BlkRead (u32_at body 0) (u64_at body 4) (from_le [body ! 12, body ! 13])))
        else if tag = TAG_BLK_WRITE then
          if length body < 12 then Err BadLength
          else let data = drop 12 body in
            if \<not> blk_write_ok data then Err FrameSize
            else Ok (BlkWrite (u32_at body 0) (u64_at body 4) data)
        else if tag = TAG_BLK_DONE then
          if length body < 6 then Err BadLength
          else let data = drop 6 body in
            if length data > BLK_CHUNK then Err FrameSize
            else Ok (BlkDone (u32_at body 0) (from_le [body ! 4, body ! 5]) data)
        else if tag = TAG_CRASH_AFTER_WRITES then exact body 4 (Ok (CrashAfterWrites (u32_at body 0)))
        else if tag = TAG_DMA_PROBE then exact body 8 (Ok (DmaProbe (u64_at body 0)))
        else Err (UnknownTag tag))"

section \<open>The driver ABI\<close>

definition ABI_VERSION :: u64 where "ABI_VERSION = 1"
definition SYS_DRV_INFO :: u64 where "SYS_DRV_INFO = 0x6200"
definition SYS_IPC_RECV :: u64 where "SYS_IPC_RECV = 0x6201"
definition SYS_IPC_SEND :: u64 where "SYS_IPC_SEND = 0x6202"
definition SYS_FIRST :: u64 where "SYS_FIRST = SYS_DRV_INFO"
definition SYS_LAST :: u64 where "SYS_LAST = SYS_IPC_SEND"
definition INFO_WORDS :: nat where "INFO_WORDS = 12"

record DriverInfo =
  di_abi :: u64
  di_vendor :: u64
  di_device :: u64
  di_bdf :: u64
  di_mmio_base :: u64
  di_mmio_len :: u64
  di_dma_base :: u64
  di_dma_len :: u64
  di_own_port :: u64
  di_stack_port :: u64
  di_irq_vector :: u64
  di_flags :: u64

definition to_words :: "DriverInfo \<Rightarrow> u64 list" where
  "to_words i = [di_abi i, di_vendor i, di_device i, di_bdf i, di_mmio_base i, di_mmio_len i,
     di_dma_base i, di_dma_len i, di_own_port i, di_stack_port i, di_irq_vector i, di_flags i]"

definition from_words :: "u64 list \<Rightarrow> DriverInfo" where
  "from_words w = \<lparr>di_abi = w ! 0, di_vendor = w ! 1, di_device = w ! 2, di_bdf = w ! 3,
     di_mmio_base = w ! 4, di_mmio_len = w ! 5, di_dma_base = w ! 6, di_dma_len = w ! 7,
     di_own_port = w ! 8, di_stack_port = w ! 9, di_irq_vector = w ! 10, di_flags = w ! 11\<rparr>"

fun write_words :: "u64 list \<Rightarrow> nat \<Rightarrow> bytes \<Rightarrow> nat \<times> bytes" where
  "write_words [] n out = (n, out)"
| "write_words (w # ws) n out =
     (let b = to_le 8 w;
          tk = min (length b) (length out - n);
          out = copy_at n (take tk b) out;
          n = n + tk
      in if n = length out then (n, out) else write_words ws n out)"

definition write_bytes :: "DriverInfo \<Rightarrow> bytes \<Rightarrow> nat \<times> bytes" where
  "write_bytes i out = write_words (to_words i) 0 out"

definition read_bytes :: "bytes \<Rightarrow> DriverInfo" where
  "read_bytes b =
     from_words (map (\<lambda>i. let s = i * 8 in if s + 8 \<le> length b then from_le (slice s (s + 8) b) else 0) [0..<INFO_WORDS])"

definition is_driver_call :: "u64 \<Rightarrow> bool" where
  "is_driver_call num \<longleftrightarrow> SYS_FIRST \<le> num \<and> num \<le> SYS_LAST"

section \<open>The format\<close>

text \<open>The bytes a message stands for, field after field, and the messages the encoder accepts.\<close>

fun wire :: "Msg \<Rightarrow> bytes" where
  "wire (Hello mac) = TAG_HELLO # mac"
| "wire (Tx f) = TAG_TX # f"
| "wire (Rx f) = TAG_RX # f"
| "wire (Irq cnt) = TAG_IRQ # to_le 4 cnt"
| "wire Crash = [TAG_CRASH]"
| "wire (DmaEscape rx tx) = TAG_DMA_ESCAPE # to_le 8 rx @ to_le 8 tx"
| "wire (Report code a b) = TAG_REPORT # [code] @ to_le 8 a @ to_le 8 b"
| "wire (BlkInfo sectors ssz) = TAG_BLK_INFO # to_le 8 sectors @ to_le 4 ssz"
| "wire (BlkRead rid lba cnt) = TAG_BLK_READ # to_le 4 rid @ to_le 8 lba @ to_le 2 cnt"
| "wire (BlkWrite rid lba data) = TAG_BLK_WRITE # to_le 4 rid @ to_le 8 lba @ data"
| "wire (BlkDone rid status data) = TAG_BLK_DONE # to_le 4 rid @ to_le 2 status @ data"
| "wire (CrashAfterWrites n) = TAG_CRASH_AFTER_WRITES # to_le 4 n"
| "wire (DmaProbe target) = TAG_DMA_PROBE # to_le 8 target"

fun msg_ok :: "Msg \<Rightarrow> bool" where
  "msg_ok (Hello mac) = (length mac = 6)"
| "msg_ok (Tx f) = frame_ok f"
| "msg_ok (Rx f) = frame_ok f"
| "msg_ok (BlkWrite _ _ data) = blk_write_ok data"
| "msg_ok (BlkDone _ _ data) = (length data \<le> BLK_CHUNK)"
| "msg_ok _ = True"

lemma u32_at_slice: "at + 4 \<le> length b \<Longrightarrow> u32_at b at = from_le (slice at (at + 4) b)"
proof -
  assume "at + 4 \<le> length b"
  then have "slice at (at + 4) b = [b ! at, b ! (at + 1), b ! (at + 2), b ! (at + 3)]"
    by (intro nth_equalityI) (auto simp: slice_def less_Suc_eq numeral_eq_Suc)
  then show ?thesis by (simp add: u32_at_def)
qed

lemma pair_slice: "at + 2 \<le> length b \<Longrightarrow> [b ! at, b ! (at + 1)] = slice at (at + 2) b"
  by (intro nth_equalityI) (auto simp: slice_def less_Suc_eq numeral_eq_Suc)

lemma encode_need_wire:
  "(\<forall>mac. m = Hello mac \<longrightarrow> length mac = 6) \<Longrightarrow>
   encode_need m = (if msg_ok m then Ok (length (wire m)) else Err FrameSize)"
  by (cases m) (auto simp: encode_need_def)

lemma set_first: "out \<noteq> [] \<Longrightarrow> out[0 := t] = t # drop 1 out"
  by (cases out) auto

lemma encode_body_wire:
  assumes "length (wire m) \<le> length out"
  shows "encode_body m out = wire m @ drop (length (wire m)) out"
proof -
  have "out \<noteq> []" using assms by (cases m) auto
  then show ?thesis
    using assms by (cases m) (simp_all add: encode_body_def set_first copy_at_def drop_Cons' add.commute)
qed


lemma u32_at_0: "from_le [b ! 0, b ! 1, b ! 2, b ! 3] = u32_at b 0"
  by (simp only: u32_at_def add_0)

lemma head_slice: "0 < n \<Longrightarrow> n = length xs \<Longrightarrow> xs ! 0 # slice (Suc 0) n xs = xs"
  by (cases xs) (simp_all add: slice_def)

lemmas pair_slices = pair_slice [of 4, simplified] pair_slice [of 12, simplified]

lemma decode_wire: "msg_ok m \<Longrightarrow> decode (wire m) = Ok m"
  by (cases m)
    (simp_all add: decode_def exact_def tag_defs u64_at_def u32_at_0 u32_at_slice pair_slices wire_simps
      del: from_le.simps One_nat_def)

lemma u32_bytes: "at + 4 \<le> length b \<Longrightarrow> to_le 4 (u32_at b at) = slice at (at + 4) b"
  by (simp add: u32_at_slice to_from_le length_slice)

lemma u64_bytes: "at + 8 \<le> length b \<Longrightarrow> to_le 8 (u64_at b at) = slice at (at + 8) b"
  by (simp add: u64_at_def to_from_le length_slice)

lemma u16_bytes: "at + 2 \<le> length b \<Longrightarrow> to_le 2 (from_le [b ! at, b ! (at + 1)] :: u16) = slice at (at + 2) b"
  by (simp only: pair_slice) (simp add: to_from_le length_slice)

lemmas field_bytes = u32_bytes [of 0, simplified] u32_bytes [of 8, simplified]
  u64_bytes [of 0, simplified] u64_bytes [of 1, simplified] u64_bytes [of 4, simplified]
  u64_bytes [of 8, simplified] u64_bytes [of 9, simplified]
  u16_bytes [of 4, simplified] u16_bytes [of 12, simplified]


lemma decode_sound:
  assumes "decode b = Ok m"
  shows "msg_ok m \<and> wire m = b"
proof -
  obtain tag body where b: "b = tag # body"
    using assms by (cases b) (auto simp: decode_def)
  note d = assms [unfolded b decode_def list.case exact_def Let_def u32_at_0, symmetric]
  show ?thesis
    using d unfolding b
    by (auto simp: field_bytes slice_join slice_join_drop slice_all head_slice split: if_splits)
qed

text \<open>The encoder run on a buffer of \<open>MAX_MSG\<close> bytes, as both sides call it.\<close>

definition encoded :: "Msg \<Rightarrow> bytes" where
  "encoded m = (case encode m (replicate MAX_MSG 0) of (Ok n, out) \<Rightarrow> take n out | (Err _, _) \<Rightarrow> [])"

definition decoded :: "bytes \<Rightarrow> Msg option" where
  "decoded b = (case decode b of Ok m \<Rightarrow> Some m | Err _ \<Rightarrow> None)"

lemma wire_bound: "msg_ok m \<Longrightarrow> length (wire m) \<le> MAX_MSG"
  by (cases m) (auto simp: MAX_MSG_def MAX_FRAME_def frame_ok_def blk_write_ok_def BLK_CHUNK_def)

lemma encode_ok:
  assumes "msg_ok m" and "length (wire m) \<le> length out"
  shows "encode m out = (Ok (length (wire m)), wire m @ drop (length (wire m)) out)"
proof -
  have "encode_need m = Ok (length (wire m))"
    using assms(1) encode_need_wire [of m] by (cases m) auto
  then show ?thesis using assms(2) by (simp add: encode_def encode_body_wire)
qed

lemma encoded_wire: "msg_ok m \<Longrightarrow> encoded m = wire m"
  using encode_ok [of m "replicate MAX_MSG 0"] wire_bound [of m] by (simp add: encoded_def)

lemma decoded_Some: "decoded b = Some m \<longleftrightarrow> decode b = Ok m"
  by (simp add: decoded_def split: sum.splits)

interpretation driver_msg: strict_wire_format msg_ok encoded decoded
  by unfold_locales (auto simp: encoded_wire decoded_Some decode_wire dest: decode_sound)

section \<open>The information block\<close>

definition info_bytes :: "u64 list \<Rightarrow> bytes" where
  "info_bytes ws = concat (map (to_le 8) ws)"

lemma length_info_bytes [simp]: "length (info_bytes ws) = 8 * length ws"
  by (induction ws) (simp_all add: info_bytes_def)

lemma info_bytes_Cons: "info_bytes (w # ws) = to_le 8 w @ info_bytes ws"
  by (simp add: info_bytes_def)

lemma write_words_spec:
  assumes "n \<le> length out"
  shows "write_words ws n out =
    (min (n + 8 * length ws) (length out),
     take n out @ take (length out - n) (info_bytes ws) @ drop (n + 8 * length ws) out)"
  using assms
proof (induction ws arbitrary: n out)
  case Nil
  then show ?case by (simp add: info_bytes_def)
next
  case (Cons w ws)
  show ?case
  proof (cases "n + 8 < length out")
    case True
    let ?out = "take n out @ to_le 8 w @ drop (n + 8) out"
    have len: "length ?out = length out" using True by simp
    have tk: "min (length (to_le 8 w)) (length out - n) = 8" using True by simp
    have "copy_at n (take 8 (to_le 8 w)) out = ?out" by (simp add: copy_at_def)
    then have "write_words (w # ws) n out = write_words ws (n + 8) ?out"
      unfolding write_words.simps Let_def tk using True len by (simp only: if_False less_not_refl3 less_imp_neq)
    also have "\<dots> = (min (n + 8 + 8 * length ws) (length out),
        take (n + 8) ?out @ take (length out - (n + 8)) (info_bytes ws) @ drop (n + 8 + 8 * length ws) ?out)"
      using Cons.IH [of "n + 8" ?out] len True by simp
    also have "take (n + 8) ?out = take n out @ to_le 8 w"
      using True by simp
    also have "drop (n + 8 + 8 * length ws) ?out = drop (n + 8 * length (w # ws)) out"
      using True by (simp add: algebra_simps)
    also have "(take n out @ to_le 8 w) @ take (length out - (n + 8)) (info_bytes ws) @ drop (n + 8 * length (w # ws)) out
      = take n out @ take (length out - n) (info_bytes (w # ws)) @ drop (n + 8 * length (w # ws)) out"
      using True by (simp add: info_bytes_Cons)
    finally show ?thesis by (simp add: algebra_simps del: write_words.simps)
  next
    case False
    then have "min 8 (length out - n) = length out - n" "n + (length out - n) = length out"
      using Cons.prems by auto
    then show ?thesis
      using False by (simp add: copy_at_def Let_def info_bytes_Cons)
  qed
qed

lemma slice_info_bytes: "i < length ws \<Longrightarrow> slice (i * 8) (i * 8 + 8) (info_bytes ws) = to_le 8 (ws ! i)"
proof (induction ws arbitrary: i)
  case Nil
  then show ?case by simp
next
  case (Cons w ws)
  show ?case
  proof (cases i)
    case 0
    then show ?thesis by (simp add: info_bytes_Cons wire_simps)
  next
    case (Suc j)
    with Cons.IH [of j] Cons.prems show ?thesis by (simp add: info_bytes_Cons slice_append_right add.commute)
  qed
qed

lemma from_to_words: "from_words (to_words i) = i"
  by (simp add: from_words_def to_words_def)

lemma length_to_words [simp]: "length (to_words i) = INFO_WORDS"
  by (simp add: to_words_def INFO_WORDS_def)

lemma write_bytes_spec:
  "write_bytes i out = (min 96 (length out), take (length out) (info_bytes (to_words i)) @ drop 96 out)"
  using write_words_spec [of 0 out "to_words i"] by (simp add: write_bytes_def INFO_WORDS_def min.commute)

lemma read_bytes_prefix:
  "read_bytes (take k (info_bytes (to_words i))) =
     from_words (map (\<lambda>j. if 8 * j + 8 \<le> k then to_words i ! j else 0) [0..<INFO_WORDS])"
proof -
  have "(let s = j * 8 in if s + 8 \<le> length (take k (info_bytes (to_words i)))
      then from_le (slice s (s + 8) (take k (info_bytes (to_words i)))) else 0)
    = (if 8 * j + 8 \<le> k then to_words i ! j else 0)" if "j < INFO_WORDS" for j
    using that by (simp add: Let_def mult.commute [of 8 j] slice_take slice_info_bytes from_to_le)
  then show ?thesis unfolding read_bytes_def
    by (intro arg_cong [where f = from_words] map_cong) simp_all
qed

section \<open>Properties\<close>

text \<open>
  Property C18.  The driver protocol is strict.  \<open>decode\<close> accepts a byte string exactly when it is
  what \<open>encode\<close> writes for a message within the protocol's bounds, and then returns that message: every
  message survives the wire, no other bytes (wrong length, unknown tag, oversized frame) decode,
  and no two byte strings mean the same message.\<close>

theorem driver_protocol_strict:
  "decode b = Ok m \<longleftrightarrow> msg_ok m \<and> b = encoded m"
  using driver_msg.dec_iff by (simp add: decoded_Some)

text \<open>
  \<open>encode\<close> on any buffer.  A message outside the protocol's bounds is refused with
  \<open>FrameSize\<close> and a buffer that is too short with \<open>NoRoom\<close>, both without touching the buffer; otherwise the
  returned length is at most \<open>MAX_MSG\<close>, exactly that many leading bytes change and they decode to
  the message.  (A MAC address has 6 bytes by its type.)\<close>

lemma encode_any_buffer:
  assumes "\<forall>mac. m = Hello mac \<longrightarrow> length mac = 6" and "encode m out = (r, out')"
  shows "case r of
      Err e \<Rightarrow> out' = out \<and> (e = FrameSize \<and> \<not> msg_ok m \<or> e = NoRoom \<and> msg_ok m \<and> length out < length (encoded m))
    | Ok n \<Rightarrow> msg_ok m \<and> n \<le> MAX_MSG \<and> length out' = length out \<and> drop n out' = drop n out \<and> decode (take n out') = Ok m"
proof (cases "msg_ok m")
  case False
  with assms show ?thesis by (auto simp: encode_def encode_need_wire)
next
  case True
  show ?thesis
  proof (cases "length (wire m) \<le> length out")
    case room: True
    from encode_ok [OF True room] assms(2) True room show ?thesis
      by (auto simp: decode_wire wire_bound)
  next
    case False
    with True assms show ?thesis by (auto simp: encode_def encode_need_wire encoded_wire)
  qed
qed

text \<open>
  The information block round-trips.  \<open>write_bytes\<close> writes exactly the first \<open>min 96 len\<close>
  bytes of the caller's buffer, whatever its size, and \<open>read_bytes\<close> of what was written gives back
  every word that fitted completely and zero for the others; with 96 bytes it gives back the block.\<close>

lemma driver_info_round_trip:
  assumes "write_bytes i out = (n, out')"
  shows "n = min 96 (length out) \<and> length out' = length out \<and> drop n out' = drop n out
    \<and> read_bytes (take n out') = from_words (map (\<lambda>j. if 8 * j + 8 \<le> n then to_words i ! j else 0) [0..<INFO_WORDS])
    \<and> (96 \<le> length out \<longrightarrow> read_bytes (take n out') = i)"
proof -
  from assms have n: "n = min 96 (length out)"
    and o: "out' = take n (info_bytes (to_words i)) @ drop n out"
    by (auto simp: write_bytes_spec INFO_WORDS_def min_def)
  then have tk: "take n out' = take n (info_bytes (to_words i))"
    by (simp add: INFO_WORDS_def)
  have "map (\<lambda>j. if 8 * j + 8 \<le> 96 then to_words i ! j else 0) [0..<INFO_WORDS] = map (\<lambda>j. to_words i ! j) [0..<INFO_WORDS]"
    by (rule map_cong) (auto simp: INFO_WORDS_def)
  also have "\<dots> = to_words i" using map_nth [of "to_words i"] by simp
  finally show ?thesis
    using n o tk read_bytes_prefix [of n i] by (auto simp: INFO_WORDS_def from_to_words min_def)
qed

end
