(* ===== verification/Firewall.thy ===== *)
theory Firewall
  imports Interfaces
begin

text \<open>
  The packet filter (\<open>crates/eurofw/src/lib.rs\<close>): five-tuple rules, the first match decides, otherwise
  the default policy.  The rule builders are functions on the rule record, the counters are 64-bit
  words that wrap as in a release build.
\<close>

datatype Action = Accept | Drop

datatype Proto = Any | Icmp | Tcp | Udp

definition Proto_from_ip :: "u8 \<Rightarrow> Proto" where
  "Proto_from_ip n = (if n = 1 then Icmp else if n = 6 then Tcp else if n = 17 then Udp else Any)"

datatype Direction = In | Out | Both

record Packet =
  p_direction :: Direction
  p_proto :: Proto
  p_src :: u32
  p_dst :: u32
  p_src_port :: u16
  p_dst_port :: u16

record Rule =
  r_action :: Action
  r_direction :: Direction
  r_proto :: Proto
  r_src :: "(u32 \<times> u8) option"
  r_dst :: "(u32 \<times> u8) option"
  r_src_port :: "u16 option"
  r_dst_port :: "u16 option"

definition Rule_new :: "Action \<Rightarrow> Rule" where
  "Rule_new action = \<lparr>r_action = action, r_direction = Both, r_proto = Any, r_src = None, r_dst = None,
     r_src_port = None, r_dst_port = None\<rparr>"

definition Rule_dir :: "Direction \<Rightarrow> Rule \<Rightarrow> Rule" where
  "Rule_dir d r = r\<lparr>r_direction := d\<rparr>"

definition Rule_proto :: "Proto \<Rightarrow> Rule \<Rightarrow> Rule" where
  "Rule_proto p r = r\<lparr>r_proto := p\<rparr>"

definition src_cidr :: "u32 \<Rightarrow> u8 \<Rightarrow> Rule \<Rightarrow> Rule" where
  "src_cidr net prefix r = r\<lparr>r_src := Some (net, prefix)\<rparr>"

definition dst_cidr :: "u32 \<Rightarrow> u8 \<Rightarrow> Rule \<Rightarrow> Rule" where
  "dst_cidr net prefix r = r\<lparr>r_dst := Some (net, prefix)\<rparr>"

definition Rule_dst_port :: "u16 \<Rightarrow> Rule \<Rightarrow> Rule" where
  "Rule_dst_port p r = r\<lparr>r_dst_port := Some p\<rparr>"

definition Rule_src_port :: "u16 \<Rightarrow> Rule \<Rightarrow> Rule" where
  "Rule_src_port p r = r\<lparr>r_src_port := Some p\<rparr>"

definition dir_matches :: "Rule \<Rightarrow> Direction \<Rightarrow> bool" where
  "dir_matches r d \<longleftrightarrow> r_direction r = Both \<or> r_direction r = d"

definition cidr_match :: "u32 \<Rightarrow> u8 \<Rightarrow> u32 \<Rightarrow> bool" where
  "cidr_match net prefix ip =
     (if prefix = 0 then True
      else let m = (if prefix \<ge> 32 then - 1 else NOT (drop_bit (unat prefix) (- 1)))
        in ip AND m = net AND m)"

definition Rule_matches :: "Rule \<Rightarrow> Packet \<Rightarrow> bool" where
  "Rule_matches r p \<longleftrightarrow>
     dir_matches r (p_direction p)
     \<and> (r_proto r = Any \<or> r_proto r = p_proto p)
     \<and> (case r_src r of Some (n, pre) \<Rightarrow> cidr_match n pre (p_src p) | None \<Rightarrow> True)
     \<and> (case r_dst r of Some (n, pre) \<Rightarrow> cidr_match n pre (p_dst p) | None \<Rightarrow> True)
     \<and> (case r_src_port r of Some x \<Rightarrow> x = p_src_port p | None \<Rightarrow> True)
     \<and> (case r_dst_port r of Some x \<Rightarrow> x = p_dst_port p | None \<Rightarrow> True)"

record Firewall =
  fw_rules :: "Rule list"
  fw_default :: Action
  fw_accepted :: u64
  fw_dropped :: u64

definition Firewall_new :: "Action \<Rightarrow> Firewall" where
  "Firewall_new dflt = \<lparr>fw_rules = [], fw_default = dflt, fw_accepted = 0, fw_dropped = 0\<rparr>"

definition Firewall_push :: "Rule \<Rightarrow> Firewall \<Rightarrow> Firewall" where
  "Firewall_push rule fw = fw\<lparr>fw_rules := fw_rules fw @ [rule]\<rparr>"

definition set_default :: "Action \<Rightarrow> Firewall \<Rightarrow> Firewall" where
  "set_default a fw = fw\<lparr>fw_default := a\<rparr>"

definition rule_count :: "Firewall \<Rightarrow> nat" where
  "rule_count fw = length (fw_rules fw)"

definition Firewall_clear :: "Firewall \<Rightarrow> Firewall" where
  "Firewall_clear fw = fw\<lparr>fw_rules := []\<rparr>"

definition verdict :: "Packet \<Rightarrow> Firewall \<Rightarrow> Action \<times> Firewall" where
  "verdict p fw =
     (let a = (case List.find (\<lambda>r. Rule_matches r p) (fw_rules fw) of Some r \<Rightarrow> r_action r | None \<Rightarrow> fw_default fw)
      in (a, case a of Accept \<Rightarrow> fw\<lparr>fw_accepted := fw_accepted fw + 1\<rparr>
                     | Drop \<Rightarrow> fw\<lparr>fw_dropped := fw_dropped fw + 1\<rparr>))"

definition peek :: "Packet \<Rightarrow> Firewall \<Rightarrow> Action" where
  "peek p fw = (case List.find (\<lambda>r. Rule_matches r p) (fw_rules fw) of Some r \<Rightarrow> r_action r | None \<Rightarrow> fw_default fw)"

section \<open>Address blocks\<close>

lemma cidr_mask_bit:
  "i < 32 \<Longrightarrow> 0 < n \<Longrightarrow> n < 32 \<Longrightarrow> bit (NOT (drop_bit n (- 1)) :: u32) i \<longleftrightarrow> 32 - n \<le> i"
  by (auto simp: bit_simps)

lemma u32_eq_bits: "a = b \<longleftrightarrow> (\<forall>i<32. bit a i = bit b i)" for a b :: u32
  by (auto intro: bit_word_eqI)

lemma cidr_match_bits:
  "cidr_match net prefix ip \<longleftrightarrow> (\<forall>i<32. 32 - unat prefix \<le> i \<longrightarrow> bit ip i = bit net i)"
proof -
  have z: "prefix = 0 \<longleftrightarrow> unat prefix = 0" by (simp add: word_unat_eq_iff)
  consider "unat prefix = 0" | "unat prefix \<ge> 32" | "0 < unat prefix" "unat prefix < 32" by linarith
  then show ?thesis
  proof cases
    case 1
    then show ?thesis using z by (simp add: cidr_match_def)
  next
    case 2
    then have "prefix \<noteq> 0" "prefix \<ge> 32" by (auto simp: word_le_nat_alt)
    then show ?thesis using 2 by (simp add: cidr_match_def u32_eq_bits)
  next
    case 3
    then have p: "prefix \<noteq> 0" "\<not> prefix \<ge> 32" by (auto simp: word_le_nat_alt)
    let ?m = "NOT (drop_bit (unat prefix) (- 1)) :: u32"
    have "ip AND ?m = net AND ?m \<longleftrightarrow> (\<forall>i<32. bit (ip AND ?m) i = bit (net AND ?m) i)"
      by (rule u32_eq_bits)
    also have "\<dots> \<longleftrightarrow> (\<forall>i<32. 32 - unat prefix \<le> i \<longrightarrow> bit ip i = bit net i)"
      unfolding bit_and_iff using cidr_mask_bit [OF _ 3] by blast
    finally show ?thesis using p by (simp add: cidr_match_def)
  qed
qed

section \<open>Verdicts\<close>

lemma verdict_peek: "fst (verdict p fw) = peek p fw"
  by (simp add: verdict_def peek_def Let_def)

lemma verdict_rules:
  "fw_rules (snd (verdict p fw)) = fw_rules fw \<and> fw_default (snd (verdict p fw)) = fw_default fw"
  by (simp add: verdict_def Let_def split: Action.splits)

text \<open>A firewall at work: the packets it sees, one after the other.\<close>

fun filter_packets :: "Packet list \<Rightarrow> Firewall \<Rightarrow> Action list \<times> Firewall" where
  "filter_packets [] fw = ([], fw)"
| "filter_packets (p # ps) fw =
     (let (a, fw) = verdict p fw; (as, fw) = filter_packets ps fw in (a # as, fw))"

lemma peek_verdict: "peek q (snd (verdict p fw)) = peek q fw"
  by (simp add: peek_def verdict_rules [THEN conjunct1] verdict_rules [THEN conjunct2] split: option.splits)

lemma filter_packets_spec:
  assumes "filter_packets ps fw = (as, fw')"
  shows "as = map (\<lambda>p. peek p fw) ps
    \<and> fw' = fw\<lparr>fw_accepted := fw_accepted fw + of_nat (length (filter (\<lambda>a. a = Accept) as)),
               fw_dropped := fw_dropped fw + of_nat (length (filter (\<lambda>a. a = Drop) as))\<rparr>"
  using assms
proof (induction ps arbitrary: fw as)
  case Nil
  then show ?case by simp
next
  case (Cons p ps)
  obtain a fw1 where v: "verdict p fw = (a, fw1)" by (cases "verdict p fw")
  obtain bs fw2 where f: "filter_packets ps fw1 = (bs, fw2)" by (cases "filter_packets ps fw1")
  have as: "as = a # bs" and f': "filter_packets ps fw1 = (bs, fw')"
    using Cons.prems v f by simp_all
  have a: "a = peek p fw" using verdict_peek [of p fw] v by simp
  have "fw1 = (case a of Accept \<Rightarrow> fw\<lparr>fw_accepted := fw_accepted fw + 1\<rparr>
      | Drop \<Rightarrow> fw\<lparr>fw_dropped := fw_dropped fw + 1\<rparr>)"
    using v by (auto simp: verdict_def Let_def)
  moreover have "bs = map (\<lambda>p. peek p fw) ps"
    using Cons.IH [OF f'] peek_verdict [of _ p fw] v by simp
  ultimately show ?case
    using Cons.IH [OF f'] as a by (cases a) (simp_all add: add.assoc)
qed

section \<open>Properties\<close>

text \<open>
  \<open>cidr_match\<close> decides membership of an address block: an address matches
  \<open>net/prefix\<close> exactly when its \<open>prefix\<close> most significant bits are those of the network, for every prefix
  (0 matches everything, 32 and above only the address itself).\<close>

lemma cidr_match_is_prefix:
  "cidr_match net prefix ip \<longleftrightarrow> (\<forall>i<32. 32 - unat prefix \<le> i \<longrightarrow> bit ip i = bit net i)"
  by (rule cidr_match_bits)

text \<open>
  Property C28.  The first matching rule decides, for every packet of a stream: with \<open>i\<close> the index of the
  first rule that matches, the verdict is that rule's action, and without one the default policy; the
  verdicts given to earlier packets never influence later ones, the rules and the policy stay as they
  are, and the two counters grow by the number of packets accepted and dropped.\<close>

theorem first_match_decides:
  assumes "filter_packets ps fw = (as, fw')" and "k < length ps"
  shows "(case position (\<lambda>r. Rule_matches r (ps ! k)) (fw_rules fw) of
        Some i \<Rightarrow> as ! k = r_action (fw_rules fw ! i)
      | None \<Rightarrow> as ! k = fw_default fw)
    \<and> fw' = fw\<lparr>fw_accepted := fw_accepted fw + of_nat (length (filter (\<lambda>a. a = Accept) as)),
               fw_dropped := fw_dropped fw + of_nat (length (filter (\<lambda>a. a = Drop) as))\<rparr>"
  using filter_packets_spec [OF assms(1)] assms(2)
  by (auto simp: peek_def find_position split: option.splits)

theorem first_match_decides_witness:
  "let fw = Firewall_push (Rule_new Accept) (Firewall_push (Rule_dst_port 22 (Rule_new Drop)) (Firewall_new Drop));
       p = \<lparr>p_direction = In, p_proto = Tcp, p_src = 1, p_dst = 2, p_src_port = 999, p_dst_port = 22\<rparr>
   in fst (filter_packets [p, p\<lparr>p_dst_port := 80\<rparr>] fw) = [Drop, Accept]"
proof -
  let ?fw = "Firewall_push (Rule_new Accept) (Firewall_push (Rule_dst_port 22 (Rule_new Drop)) (Firewall_new Drop))"
  let ?p = "\<lparr>p_direction = In, p_proto = Tcp, p_src = 1, p_dst = 2, p_src_port = 999, p_dst_port = 22\<rparr>"
  let ?ps = "[?p, ?p\<lparr>p_dst_port := 80\<rparr>]"
  obtain as fw' where f: "filter_packets ?ps ?fw = (as, fw')"
    by (cases "filter_packets ?ps ?fw")
  have len: "length as = 2" using filter_packets_spec [OF f] by simp
  have "as ! 0 = Drop" "as ! 1 = Accept"
    using first_match_decides [OF f, of 0] first_match_decides [OF f, of 1]
    by (simp_all add: Firewall_push_def Rule_new_def Rule_dst_port_def Firewall_new_def Rule_matches_def dir_matches_def)
  then have "as = [Drop, Accept]"
    using len by (cases as; cases "tl as") auto
  then show ?thesis using f by (simp add: Let_def)
qed

end
