(* ===== verification/Update.thy ===== *)
theory Update
  imports Interfaces
begin

text \<open>
  Atomic system updates with two root slots (\<open>crates/euroupdate/src/lib.rs\<close>): the slot state machine
  the boot loader and the kernel drive, and the 32-byte configuration block with its checksum.
\<close>

section \<open>Slots\<close>

datatype Slot = A | B

definition Slot_other :: "Slot \<Rightarrow> Slot" where
  "Slot_other s = (case s of A \<Rightarrow> B | B \<Rightarrow> A)"

definition Slot_to_u8 :: "Slot \<Rightarrow> u8" where
  "Slot_to_u8 s = (case s of A \<Rightarrow> 0 | B \<Rightarrow> 1)"

definition Slot_from_u8 :: "u8 \<Rightarrow> Slot" where
  "Slot_from_u8 v = (if v = 1 then B else A)"

datatype SlotState = SEmpty | Trying | Good | Failed

definition SlotState_to_u8 :: "SlotState \<Rightarrow> u8" where
  "SlotState_to_u8 s = (case s of SEmpty \<Rightarrow> 0 | Trying \<Rightarrow> 1 | Good \<Rightarrow> 2 | Failed \<Rightarrow> 3)"

definition SlotState_from_u8 :: "u8 \<Rightarrow> SlotState" where
  "SlotState_from_u8 v = (if v = 1 then Trying else if v = 2 then Good else if v = 3 then Failed else SEmpty)"

definition DEFAULT_TRIES :: u8 where "DEFAULT_TRIES = 3"
definition MAGIC :: u32 where "MAGIC = 0x45555044"
definition CONFIG_SIZE :: nat where "CONFIG_SIZE = 32"

record SlotConfig =
  sc_active :: Slot
  sc_next_boot :: Slot
  sc_tries :: u8
  sc_state_a :: SlotState
  sc_state_b :: SlotState
  sc_generation :: u32

definition SlotConfig_initial :: SlotConfig where
  "SlotConfig_initial = \<lparr>sc_active = A, sc_next_boot = A, sc_tries = 0, sc_state_a = Good,
     sc_state_b = SEmpty, sc_generation = 1\<rparr>"

definition slot_state :: "SlotConfig \<Rightarrow> Slot \<Rightarrow> SlotState" where
  "slot_state c s = (case s of A \<Rightarrow> sc_state_a c | B \<Rightarrow> sc_state_b c)"

definition set_state :: "Slot \<Rightarrow> SlotState \<Rightarrow> SlotConfig \<Rightarrow> SlotConfig" where
  "set_state s st c = (case s of A \<Rightarrow> c\<lparr>sc_state_a := st\<rparr> | B \<Rightarrow> c\<lparr>sc_state_b := st\<rparr>)"

definition inactive :: "SlotConfig \<Rightarrow> Slot" where
  "inactive c = Slot_other (sc_active c)"

definition stage_update :: "SlotConfig \<Rightarrow> SlotConfig" where
  "stage_update c =
     (let target = inactive c;
          c = set_state target Trying c
      in c\<lparr>sc_next_boot := target, sc_tries := DEFAULT_TRIES, sc_generation := sc_generation c + 1\<rparr>)"

definition find_good :: "SlotConfig \<Rightarrow> Slot" where
  "find_good c =
     (let cand = Slot_other (sc_next_boot c)
      in if slot_state c cand = Good then cand
         else if slot_state c (sc_next_boot c) = Good then sc_next_boot c
         else A)"

definition on_boot :: "SlotConfig \<Rightarrow> Slot \<times> SlotConfig" where
  "on_boot c =
     (if sc_tries c > 0 then
        (sc_next_boot c, c\<lparr>sc_tries := sc_tries c - 1, sc_active := sc_next_boot c\<rparr>)
      else if slot_state c (sc_next_boot c) = Trying then
        let c = set_state (sc_next_boot c) Failed c;
            good = find_good c
        in (good, c\<lparr>sc_next_boot := good, sc_active := good\<rparr>)
      else (sc_next_boot c, c\<lparr>sc_active := sc_next_boot c\<rparr>))"

definition mark_good :: "SlotConfig \<Rightarrow> SlotConfig" where
  "mark_good c = (let c = set_state (sc_active c) Good c in c\<lparr>sc_tries := 0, sc_next_boot := sc_active c\<rparr>)"

definition rollback :: "SlotConfig \<Rightarrow> bool \<times> SlotConfig" where
  "rollback c =
     (let other = Slot_other (sc_active c)
      in if slot_state c other = Good then (True, c\<lparr>sc_next_boot := other, sc_tries := 0\<rparr>) else (False, c))"

fun checksum_loop :: "bytes \<Rightarrow> u32 \<Rightarrow> u32 \<Rightarrow> u32 \<times> u32" where
  "checksum_loop [] s1 s2 = (s1, s2)"
| "checksum_loop (b # bs) s1 s2 =
     (let s1 = (s1 + ucast b) mod 65535; s2 = (s2 + s1) mod 65535 in checksum_loop bs s1 s2)"

definition checksum :: "bytes \<Rightarrow> u32" where
  "checksum data = (let (s1, s2) = checksum_loop data 0xFFFF 0xFFFF in push_bit 16 s2 OR s1)"

definition serialize :: "SlotConfig \<Rightarrow> bytes" where
  "serialize c =
     (let b = replicate CONFIG_SIZE 0;
          b = copy_at 0 (to_le 4 MAGIC) b;
          b = b[4 := 1, 5 := Slot_to_u8 (sc_active c), 6 := Slot_to_u8 (sc_next_boot c), 7 := sc_tries c,
                8 := SlotState_to_u8 (sc_state_a c), 9 := SlotState_to_u8 (sc_state_b c)];
          b = copy_at 12 (to_le 4 (sc_generation c)) b;
          ck = checksum (take (CONFIG_SIZE - 4) b)
      in copy_at (CONFIG_SIZE - 4) (to_le 4 ck) b)"

definition deserialize :: "bytes \<Rightarrow> SlotConfig option" where
  "deserialize b =
     (if length b < CONFIG_SIZE then None
      else if (from_le (slice 0 4 b) :: u32) \<noteq> MAGIC then None
      else let stored = from_le (slice (CONFIG_SIZE - 4) CONFIG_SIZE b)
        in if checksum (take (CONFIG_SIZE - 4) b) \<noteq> stored then None
           else Some \<lparr>sc_active = Slot_from_u8 (b ! 5), sc_next_boot = Slot_from_u8 (b ! 6), sc_tries = b ! 7,
             sc_state_a = SlotState_from_u8 (b ! 8), sc_state_b = SlotState_from_u8 (b ! 9),
             sc_generation = from_le (slice 12 16 b)\<rparr>)"

section \<open>The slot machine\<close>

lemma Slot_other_simps [simp]:
  "Slot_other A = B" "Slot_other B = A" "Slot_other (Slot_other s) = s" "Slot_other s \<noteq> s" "s \<noteq> Slot_other s"
  by (cases s; simp add: Slot_other_def)+

lemma slot_state_set [simp]:
  "slot_state (set_state s st c) t = (if s = t then st else slot_state c t)"
  "sc_active (set_state s st c) = sc_active c" "sc_next_boot (set_state s st c) = sc_next_boot c"
  "sc_tries (set_state s st c) = sc_tries c"
  by (cases s; cases t; simp add: slot_state_def set_state_def)+

lemma slot_state_upd [simp]:
  "slot_state (c\<lparr>sc_active := a\<rparr>) s = slot_state c s" "slot_state (c\<lparr>sc_next_boot := a\<rparr>) s = slot_state c s"
  "slot_state (c\<lparr>sc_tries := t\<rparr>) s = slot_state c s" "slot_state (c\<lparr>sc_generation := g\<rparr>) s = slot_state c s"
  by (simp_all add: slot_state_def split: Slot.splits)

lemmas slot_ops = stage_update_def on_boot_def mark_good_def rollback_def find_good_def inactive_def Let_def

text \<open>The machine as the system uses it, provided an update is only staged from a confirmed slot.
  \<open>bootable\<close> is the invariant: the next boot is a good slot, or a slot on trial next to a good one.\<close>

inductive slot_step :: "SlotConfig \<Rightarrow> SlotConfig \<Rightarrow> bool" where
  stage: "slot_state c (sc_active c) = Good \<Longrightarrow> slot_step c (stage_update c)"
| boot: "slot_step c (snd (on_boot c))"
| confirm: "slot_step c (mark_good c)"
| roll: "slot_step c (snd (rollback c))"

definition bootable :: "SlotConfig \<Rightarrow> bool" where
  "bootable c \<longleftrightarrow> slot_state c (sc_next_boot c) = Good
     \<or> slot_state c (sc_next_boot c) = Trying \<and> slot_state c (Slot_other (sc_next_boot c)) = Good"

lemma bootable_step: "bootable c \<Longrightarrow> slot_step c d \<Longrightarrow> bootable d"
  by (erule slot_step.cases) (auto simp: bootable_def slot_ops)

interpretation slot_machine: safe_machine "\<lambda>c. c = SlotConfig_initial" slot_step bootable
proof
  show "bootable c" if "c = SlotConfig_initial" for c
    using that by (simp add: bootable_def SlotConfig_initial_def slot_state_def)
qed (rule bootable_step)

fun boots :: "nat \<Rightarrow> SlotConfig \<Rightarrow> Slot list \<times> SlotConfig" where
  "boots 0 c = ([], c)"
| "boots (Suc n) c = (let (s, c) = on_boot c; (ss, c) = boots n c in (s # ss, c))"

lemma boots_Suc:
  "fst (boots (Suc n) c) = fst (on_boot c) # fst (boots n (snd (on_boot c)))"
  "snd (boots (Suc n) c) = snd (boots n (snd (on_boot c)))"
  by (simp_all split: prod.splits)

declare boots.simps(2) [simp del]

text \<open>A stable configuration boots its slot for ever.\<close>

lemma boots_stable:
  assumes "sc_tries c = 0" and "slot_state c (sc_next_boot c) \<noteq> Trying"
  shows "fst (boots n c) = replicate n (sc_next_boot c)"
  using assms
proof (induction n arbitrary: c)
  case (Suc n)
  then have "on_boot c = (sc_next_boot c, c\<lparr>sc_active := sc_next_boot c\<rparr>)"
    by (simp add: on_boot_def)
  then show ?case using Suc.IH [of "c\<lparr>sc_active := sc_next_boot c\<rparr>"] Suc.prems
    by (simp add: boots_Suc)
qed simp

text \<open>An untried slot gets \<open>tries\<close> boots, then the slot \<open>find_good\<close> names takes over for ever.\<close>

lemma boots_trial:
  assumes "sc_tries c = of_nat k" and "k < 256" and "slot_state c (sc_next_boot c) = Trying"
    and "g = find_good (set_state (sc_next_boot c) Failed c)"
    and "slot_state (set_state (sc_next_boot c) Failed c) g \<noteq> Trying"
  shows "fst (boots (k + m) c) = replicate k (sc_next_boot c) @ replicate m g"
  using assms
proof (induction k arbitrary: c)
  case 0
  show ?case
  proof (cases m)
    case (Suc n)
    let ?d = "(set_state (sc_next_boot c) Failed c)\<lparr>sc_next_boot := g, sc_active := g\<rparr>"
    have "on_boot c = (g, ?d)"
      using 0 by (simp add: on_boot_def Let_def)
    moreover have "fst (boots n ?d) = replicate n g"
      using boots_stable [of ?d n] 0 by simp
    ultimately show ?thesis using Suc by (simp add: boots_Suc)
  qed simp
next
  case (Suc k)
  let ?d = "c\<lparr>sc_tries := sc_tries c - 1, sc_active := sc_next_boot c\<rparr>"
  have "unat (sc_tries c) = Suc k"
    using Suc.prems(1,2) by (simp add: unat_of_nat_lt del: of_nat_Suc)
  then have "sc_tries c > 0" by (simp add: word_less_nat_alt)
  then have b: "on_boot c = (sc_next_boot c, ?d)" by (simp add: on_boot_def)
  have "find_good (set_state (sc_next_boot c) Failed ?d) = find_good (set_state (sc_next_boot c) Failed c)"
    by (simp add: find_good_def Let_def)
  moreover have "slot_state (set_state (sc_next_boot c) Failed ?d) s = slot_state (set_state (sc_next_boot c) Failed c) s" for s
    by simp
  ultimately have "fst (boots (k + m) ?d) = replicate k (sc_next_boot ?d) @ replicate m g"
    using Suc.prems by (intro Suc.IH) simp_all
  then show ?case using b by (simp add: boots_Suc)
qed

section \<open>The configuration block\<close>

lemma slot_u8 [simp]: "Slot_from_u8 (Slot_to_u8 s) = s"
  by (cases s) (simp_all add: Slot_from_u8_def Slot_to_u8_def)

lemma slot_state_u8 [simp]: "SlotState_from_u8 (SlotState_to_u8 s) = s"
  by (cases s) (simp_all add: SlotState_from_u8_def SlotState_to_u8_def)

lemma length_serialize: "length (serialize c) = 32"
  by (simp add: serialize_def Let_def CONFIG_SIZE_def)

text \<open>The block without its checksum.\<close>

definition config_body :: "SlotConfig \<Rightarrow> bytes" where
  "config_body c = to_le 4 MAGIC @ [1, Slot_to_u8 (sc_active c), Slot_to_u8 (sc_next_boot c), sc_tries c,
     SlotState_to_u8 (sc_state_a c), SlotState_to_u8 (sc_state_b c), 0, 0] @ to_le 4 (sc_generation c) @ replicate 12 0"

lemma length_config_body [simp]: "length (config_body c) = 28"
  by (simp add: config_body_def)

lemma serialize_body: "serialize c = config_body c @ to_le 4 (checksum (config_body c))"
proof -
  have "copy_at 12 (to_le 4 (sc_generation c))
      ((copy_at 0 (to_le 4 MAGIC) (replicate CONFIG_SIZE 0))[4 := 1, 5 := Slot_to_u8 (sc_active c),
        6 := Slot_to_u8 (sc_next_boot c), 7 := sc_tries c, 8 := SlotState_to_u8 (sc_state_a c), 9 := SlotState_to_u8 (sc_state_b c)])
    = config_body c @ replicate 4 0"
    by (simp add: copy_at_def CONFIG_SIZE_def config_body_def to_le_def upt_rec numeral_eq_Suc)
  note body = this
  show ?thesis
    unfolding serialize_def Let_def body by (simp add: copy_at_def CONFIG_SIZE_def)
qed

lemma deserialize_serialize: "deserialize (serialize c) = Some c"
proof -
  let ?b = "config_body c"
  have s: "slice 28 32 (serialize c) = to_le 4 (checksum ?b)" "take 28 (serialize c) = ?b"
    by (simp_all add: serialize_body slice_def)
  have f: "slice 0 4 (serialize c) = to_le 4 MAGIC" "slice 12 16 (serialize c) = to_le 4 (sc_generation c)"
    by (simp_all add: serialize_body config_body_def slice_def)
  have n: "serialize c ! 5 = Slot_to_u8 (sc_active c)" "serialize c ! 6 = Slot_to_u8 (sc_next_boot c)"
    "serialize c ! 7 = sc_tries c" "serialize c ! 8 = SlotState_to_u8 (sc_state_a c)"
    "serialize c ! 9 = SlotState_to_u8 (sc_state_b c)"
    by (simp_all add: serialize_body config_body_def nth_append)
  show ?thesis
    using s f n by (simp add: deserialize_def CONFIG_SIZE_def length_serialize from_to_le Let_def)
qed

interpretation config_block: wire_format "\<lambda>_. True" serialize deserialize
  by unfold_locales (rule deserialize_serialize)

text \<open>The low half of the checksum is the sum of the bytes modulo 65535, so a change of one byte shows.\<close>

definition byte_sum :: "bytes \<Rightarrow> nat" where
  "byte_sum bs = sum_list (map unat bs)"

lemma checksum_loop_sum:
  assumes "unat s1 \<le> 65535" and "unat s2 \<le> 65535" and "checksum_loop bs s1 s2 = (t1, t2)"
  shows "unat t1 mod 65535 = (unat s1 + byte_sum bs) mod 65535 \<and> (bs \<noteq> [] \<longrightarrow> unat t1 < 65535)"
  using assms
proof (induction bs arbitrary: s1 s2)
  case Nil
  then show ?case by (simp add: byte_sum_def)
next
  case (Cons b bs)
  let ?a = "(s1 + ucast b) mod 65535" and ?c = "(s2 + (s1 + ucast b) mod 65535) mod 65535"
  have b: "unat (ucast b :: u32) = unat b" "unat b < 256"
    using unat_lt [of b] by (simp_all add: unsigned_ucast_eq take_bit_nat_eq_self)
  have a: "unat ?a = (unat s1 + unat b) mod 65535"
    using Cons.prems(1) b by (simp add: unat_mod unat_add_lt)
  have "unat ?c < 65535" by (simp add: unat_mod)
  moreover have "checksum_loop bs ?a ?c = (t1, t2)" using Cons.prems(3) by (simp add: Let_def)
  moreover have "unat ?a < 65535" using a by simp
  ultimately have "unat t1 mod 65535 = (unat ?a + byte_sum bs) mod 65535 \<and> (bs \<noteq> [] \<longrightarrow> unat t1 < 65535)"
    using Cons.IH [of ?a ?c] by simp
  moreover have "bs = [] \<Longrightarrow> t1 = ?a" using Cons.prems(3) by (simp add: Let_def)
  ultimately show ?case
    using a \<open>unat ?a < 65535\<close> by (auto simp: byte_sum_def mod_simps add.assoc)
qed

lemma checksum_low:
  assumes "bs \<noteq> []"
  shows "unat (take_bit 16 (checksum bs)) = byte_sum bs mod 65535"
proof -
  obtain t1 t2 where t: "checksum_loop bs 0xFFFF 0xFFFF = (t1, t2)"
    by (cases "checksum_loop bs 0xFFFF 0xFFFF")
  have s: "unat t1 mod 65535 = (65535 + byte_sum bs) mod 65535" "unat t1 < 65535"
    using checksum_loop_sum [OF _ _ t] assms by simp_all
  have "take_bit 16 (checksum bs) = take_bit 16 t1"
    by (rule bit_word_eqI) (auto simp: checksum_def t bit_simps)
  also have "\<dots> = t1"
    using s(2) by (simp add: word_unat_eq_iff unsigned_take_bit_eq take_bit_nat_eq_self)
  finally show ?thesis using s by simp
qed

lemma byte_sum_update:
  assumes "i < length bs" and "v \<noteq> bs ! i"
  shows "byte_sum (bs[i := v]) mod 65535 \<noteq> byte_sum bs mod 65535"
proof -
  have "byte_sum (bs[i := v]) + unat (bs ! i) = byte_sum bs + unat v"
    using assms(1) member_le_sum_list [of "unat (bs ! i)" "map unat bs"]
    by (simp add: byte_sum_def map_update sum_list_update)
  moreover have "unat v \<noteq> unat (bs ! i)" using assms(2) by (simp add: word_unat_eq_iff)
  moreover have "unat v < 256" "unat (bs ! i) < 256"
    using unat_lt [of v] unat_lt [of "bs ! i"] by simp_all
  ultimately have "int (byte_sum (bs[i := v])) - int (byte_sum bs) = int (unat v) - int (unat (bs ! i))"
    and "int (unat v) - int (unat (bs ! i)) \<noteq> 0" and "\<bar>int (unat v) - int (unat (bs ! i))\<bar> < 65535"
    by linarith+
  then have "\<not> 65535 dvd int (byte_sum (bs[i := v])) - int (byte_sum bs)"
    using dvd_imp_le_int [of "int (unat v) - int (unat (bs ! i))" 65535] by auto
  then show ?thesis
    by (metis mod_eq_dvd_iff of_nat_mod of_nat_numeral)
qed

lemma checksum_update: "i < length bs \<Longrightarrow> v \<noteq> bs ! i \<Longrightarrow> checksum (bs[i := v]) \<noteq> checksum bs"
proof -
  assume *: "i < length bs" "v \<noteq> bs ! i"
  then have "bs[i := v] \<noteq> []" "bs \<noteq> []" by auto
  then show ?thesis using byte_sum_update [OF *] checksum_low by metis
qed

lemma corrupt_byte_refused:
  assumes "i < 32" and "v \<noteq> serialize c ! i"
  shows "deserialize ((serialize c)[i := v]) = None"
proof (cases "i < 28")
  case True
  have b: "(serialize c)[i := v] = (config_body c)[i := v] @ to_le 4 (checksum (config_body c))"
    using True by (simp add: serialize_body list_update_append)
  have "v \<noteq> config_body c ! i" using assms True by (simp add: serialize_body nth_append)
  then have "checksum ((config_body c)[i := v]) \<noteq> checksum (config_body c)"
    using True by (intro checksum_update) simp_all
  moreover have "slice 28 32 ((serialize c)[i := v]) = to_le 4 (checksum (config_body c))"
    "take 28 ((serialize c)[i := v]) = (config_body c)[i := v]"
    unfolding b by (simp_all add: slice_def)
  ultimately show ?thesis
    by (simp add: deserialize_def CONFIG_SIZE_def Let_def from_to_le)
next
  case False
  then have b: "(serialize c)[i := v] = config_body c @ (to_le 4 (checksum (config_body c)))[i - 28 := v]"
    by (simp add: serialize_body list_update_append)
  let ?t = "(to_le 4 (checksum (config_body c)))[i - 28 := v]"
  have "?t \<noteq> to_le 4 (checksum (config_body c))"
  proof
    assume e: "?t = to_le 4 (checksum (config_body c))"
    have "?t ! (i - 28) = v" using assms(1) False by simp
    then show False using e assms False by (simp add: serialize_body nth_append)
  qed
  then have "from_le ?t \<noteq> checksum (config_body c)"
    using to_from_le [of ?t 4, where 'a = 32] by auto
  moreover have "slice 28 32 ((serialize c)[i := v]) = ?t" "take 28 ((serialize c)[i := v]) = config_body c"
    unfolding b by (simp_all add: slice_def)
  ultimately show ?thesis
    by (auto simp: deserialize_def CONFIG_SIZE_def Let_def)
qed

section \<open>Properties\<close>

text \<open>
  Property C8.  A failed update rolls back by itself.  When an update is staged from a confirmed slot and the
  new system is never marked good, the boot loader tries the new slot exactly three times and
  boots the previous slot at every boot after that.\<close>

theorem failed_update_rolls_back:
  assumes "slot_state c (sc_active c) = Good"
  shows "fst (boots (3 + m) (stage_update c)) = replicate 3 (inactive c) @ replicate m (sc_active c)"
proof -
  define d where "d = stage_update c"
  have d: "sc_tries d = of_nat 3" "sc_next_boot d = inactive c" "slot_state d (inactive c) = Trying"
    "slot_state d (sc_active c) = Good"
    using assms by (simp_all add: d_def stage_update_def DEFAULT_TRIES_def inactive_def Let_def)
  then have g: "sc_active c = find_good (set_state (sc_next_boot d) Failed d)"
    by (simp add: find_good_def inactive_def Let_def)
  have "fst (boots (3 + m) d) = replicate 3 (sc_next_boot d) @ replicate m (sc_active c)"
    using d by (intro boots_trial [OF _ _ _ g]) (simp_all add: inactive_def)
  then show ?thesis using d by (simp add: d_def)
qed

theorem failed_update_rolls_back_witness:
  "fst (boots (3 + 2) (stage_update SlotConfig_initial)) = [B, B, B, A, A]"
  using failed_update_rolls_back [of SlotConfig_initial 2]
  by (simp add: SlotConfig_initial_def slot_state_def inactive_def numeral_eq_Suc)

text \<open>
  Property C25.  The machine stays bootable.  From the fresh installation, through any sequence of boots,
  confirmations, manual rollbacks and updates staged from a confirmed slot, the loader never picks an
  empty or failed slot: it boots a good one, or one on trial while the other slot is good.\<close>

theorem slots_stay_bootable:
  assumes "slot_step\<^sup>*\<^sup>* SlotConfig_initial c" and "on_boot c = (s, d)"
  shows "slot_state d s = Good \<or> slot_state d s = Trying \<and> slot_state d (Slot_other s) = Good"
proof -
  have "bootable c" using slot_machine.inv_reachable [OF _ assms(1)] by blast
  then show ?thesis using assms(2) by (auto simp: bootable_def slot_ops split: if_splits)
qed

theorem slots_stay_bootable_witness:
  "\<exists>d. on_boot (stage_update SlotConfig_initial) = (B, d)
     \<and> (slot_state d B = Good \<or> slot_state d B = Trying \<and> slot_state d (Slot_other B) = Good)"
proof -
  have st: "slot_step\<^sup>*\<^sup>* SlotConfig_initial (stage_update SlotConfig_initial)"
    by (intro r_into_rtranclp slot_step.stage) (simp add: SlotConfig_initial_def slot_state_def)
  obtain d where d: "on_boot (stage_update SlotConfig_initial) = (B, d)"
    by (simp add: on_boot_def stage_update_def SlotConfig_initial_def set_state_def inactive_def DEFAULT_TRIES_def Let_def)
  from slots_stay_bootable [OF st d] d show ?thesis by blast
qed

text \<open>
  Property C26.  An update staged during a trial can leave no bootable slot.  \<open>stage_update\<close> does not check that the
  running slot is confirmed: staged again while the new system is still on trial, it overwrites
  the last good slot, no slot is good, and when the attempts are used up the loader
  boots slot A for ever although its state is \<open>Failed\<close>.\<close>

theorem update_during_trial_bricks:
  "let c = stage_update (snd (on_boot (stage_update SlotConfig_initial)))
   in (\<forall>s. slot_state c s \<noteq> Good) \<and> fst (boots (3 + m) c) = replicate (3 + m) A
     \<and> slot_state (snd (boots 4 c)) A = Failed \<and> slot_state (snd (boots 4 c)) B \<noteq> Good"
proof -
  let ?c = "stage_update (snd (on_boot (stage_update SlotConfig_initial)))"
  have c: "?c = \<lparr>sc_active = B, sc_next_boot = A, sc_tries = 3, sc_state_a = Trying, sc_state_b = Trying, sc_generation = 3\<rparr>"
    by (simp add: stage_update_def SlotConfig_initial_def set_state_def inactive_def DEFAULT_TRIES_def on_boot_def Let_def)
  have four: "(4 :: nat) = Suc (Suc (Suc (Suc 0)))" by simp
  have g: "A = find_good (set_state (sc_next_boot ?c) Failed ?c)"
    unfolding c by (simp add: find_good_def slot_state_def set_state_def)
  have "fst (boots (3 + m) ?c) = replicate 3 (sc_next_boot ?c) @ replicate m A"
    by (rule boots_trial [OF _ _ _ g]) (simp_all add: c slot_state_def set_state_def)
  then have "fst (boots (3 + m) ?c) = replicate 3 A @ replicate m A" by (simp add: c)
  moreover have "snd (boots 4 ?c) = \<lparr>sc_active = A, sc_next_boot = A, sc_tries = 0, sc_state_a = Failed, sc_state_b = Trying, sc_generation = 3\<rparr>"
    unfolding c four boots_Suc boots.simps(1) by (simp add: on_boot_def slot_state_def set_state_def find_good_def Let_def)
  moreover have "slot_state ?c s \<noteq> Good" for s
    unfolding c by (cases s) (simp_all add: slot_state_def)
  ultimately show ?thesis by (simp add: Let_def slot_state_def replicate_add [symmetric])
qed

text \<open>
  Property C27.  The slot configuration survives the disk, and a damaged one is noticed: reading back what was
  written gives the configuration, and after changing any single byte of the 32 to any other value, the
  checksum included, the block is refused.\<close>

theorem config_block_safe:
  "deserialize (serialize c) = Some c
   \<and> (\<forall>i v. i < 32 \<and> v \<noteq> serialize c ! i \<longrightarrow> deserialize ((serialize c)[i := v]) = None)"
  using config_block.dec_enc corrupt_byte_refused by blast

theorem config_block_safe_witness:
  "deserialize ((serialize SlotConfig_initial)[7 := 9]) = None"
proof -
  have "serialize SlotConfig_initial ! 7 = 0"
    by (simp add: serialize_body config_body_def nth_append SlotConfig_initial_def)
  then have "(9 :: u8) \<noteq> serialize SlotConfig_initial ! 7" by simp
  then show ?thesis
    using config_block_safe [of SlotConfig_initial, THEN conjunct2, rule_format, of 7 9] by simp
qed

end
