(* ===== verification/LockOrder.thy ===== *)
theory LockOrder
  imports Interfaces
begin

text \<open>
  Lock-order monitoring (\<open>crates/eurolock/src/lib.rs\<close>): the ranking of the kernel's lock classes, the
  per-CPU tracker of held classes that reports an inversion, and the sharded contention statistics.
  The panic of \<open>expect\<close> in \<open>acquire\<close> is the result \<open>None\<close>; the CPU's shard, which the kernel hooks
  of \<open>sync.rs\<close> supply, is an argument.
\<close>

section \<open>Lock classes\<close>

datatype LockClass = Sched | RunQueue | Process | FsMountTable | Fs | BlockCache | Vault | Net
  | NetSocket | UnixTable | UnixConn | IpcTable | IpcChannel | Agent | Firewall | Audit | Serial
  | Heap | TestOuter | TestInner

definition ALL_CLASSES :: "LockClass list" where
  "ALL_CLASSES = [Sched, RunQueue, Process, FsMountTable, Fs, BlockCache, Vault, Net, NetSocket,
     UnixTable, UnixConn, IpcTable, IpcChannel, Agent, Firewall, Audit, Serial, Heap, TestOuter, TestInner]"

fun rank :: "LockClass \<Rightarrow> u16" where
  "rank Sched = 10"
| "rank RunQueue = 15"
| "rank Process = 20"
| "rank FsMountTable = 28"
| "rank Fs = 30"
| "rank BlockCache = 35"
| "rank Vault = 40"
| "rank Net = 50"
| "rank NetSocket = 52"
| "rank UnixTable = 54"
| "rank UnixConn = 56"
| "rank IpcTable = 57"
| "rank IpcChannel = 58"
| "rank Agent = 60"
| "rank Firewall = 70"
| "rank Audit = 80"
| "rank Serial = 90"
| "rank Heap = 95"
| "rank TestOuter = 200"
| "rank TestInner = 201"

fun class_name :: "LockClass \<Rightarrow> string" where
  "class_name Sched = ''Sched''"
| "class_name RunQueue = ''RunQueue''"
| "class_name Process = ''Process''"
| "class_name FsMountTable = ''FsMountTable''"
| "class_name Fs = ''Fs''"
| "class_name BlockCache = ''BlockCache''"
| "class_name Vault = ''Vault''"
| "class_name Net = ''Net''"
| "class_name NetSocket = ''NetSocket''"
| "class_name UnixTable = ''UnixTable''"
| "class_name UnixConn = ''UnixConn''"
| "class_name IpcTable = ''IpcTable''"
| "class_name IpcChannel = ''IpcChannel''"
| "class_name Agent = ''Agent''"
| "class_name Firewall = ''Firewall''"
| "class_name Audit = ''Audit''"
| "class_name Serial = ''Serial''"
| "class_name Heap = ''Heap''"
| "class_name TestOuter = ''TestOuter''"
| "class_name TestInner = ''TestInner''"

fun class_index :: "LockClass \<Rightarrow> nat" where
  "class_index Sched = 0"
| "class_index RunQueue = 1"
| "class_index Process = 2"
| "class_index FsMountTable = 3"
| "class_index Fs = 4"
| "class_index BlockCache = 5"
| "class_index Vault = 6"
| "class_index Net = 7"
| "class_index NetSocket = 8"
| "class_index UnixTable = 9"
| "class_index UnixConn = 10"
| "class_index IpcTable = 11"
| "class_index IpcChannel = 12"
| "class_index Agent = 13"
| "class_index Firewall = 14"
| "class_index Audit = 15"
| "class_index Serial = 16"
| "class_index Heap = 17"
| "class_index TestOuter = 18"
| "class_index TestInner = 19"

section \<open>The tracker\<close>

record Inversion =
  holding :: LockClass
  acquiring :: LockClass

definition MAX_DEPTH :: nat where "MAX_DEPTH = 16"

record OrderTracker =
  ot_held :: "LockClass option list"
  ot_depth :: nat

definition OrderTracker_new :: OrderTracker where
  "OrderTracker_new = \<lparr>ot_held = replicate MAX_DEPTH None, ot_depth = 0\<rparr>"

text \<open>The check loop of \<open>acquire\<close>, over the held entries in order.\<close>

fun acquire_check :: "LockClass \<Rightarrow> LockClass option list \<Rightarrow> (unit, Inversion) result option" where
  "acquire_check c [] = Some (Ok ())"
| "acquire_check c (None # hs) = None"
| "acquire_check c (Some h # hs) =
     (if rank h \<ge> rank c then Some (Err \<lparr>holding = h, acquiring = c\<rparr>) else acquire_check c hs)"

definition push_unchecked :: "LockClass \<Rightarrow> OrderTracker \<Rightarrow> OrderTracker" where
  "push_unchecked c t =
     (if ot_depth t < MAX_DEPTH
      then t\<lparr>ot_held := (ot_held t)[ot_depth t := Some c], ot_depth := ot_depth t + 1\<rparr> else t)"

definition acquire :: "LockClass \<Rightarrow> OrderTracker \<Rightarrow> ((unit, Inversion) result \<times> OrderTracker) option" where
  "acquire c t =
     (case acquire_check c (take (ot_depth t) (ot_held t)) of
        None \<Rightarrow> None
      | Some (Err e) \<Rightarrow> Some (Err e, t)
      | Some (Ok _) \<Rightarrow>
          Some (Ok (), if ot_depth t < MAX_DEPTH
                       then t\<lparr>ot_held := (ot_held t)[ot_depth t := Some c], ot_depth := ot_depth t + 1\<rparr> else t))"

definition release_shift :: "nat \<Rightarrow> nat \<Rightarrow> LockClass option list \<Rightarrow> LockClass option list" where
  "release_shift i depth held = foldl (\<lambda>h j. h[j := h ! (j + 1)]) held [i..<depth - 1]"

definition release :: "LockClass \<Rightarrow> OrderTracker \<Rightarrow> OrderTracker" where
  "release c t =
     (case List.find (\<lambda>i. ot_held t ! i = Some c) (rev [0..<ot_depth t]) of
        None \<Rightarrow> t
      | Some i \<Rightarrow>
          let held = release_shift i (ot_depth t) (ot_held t);
              depth = ot_depth t - 1
          in t\<lparr>ot_held := held[depth := None], ot_depth := depth\<rparr>)"

function ranks_inner :: "LockClass list \<Rightarrow> nat \<Rightarrow> nat \<Rightarrow> bool" where
  "ranks_inner cs i j =
     (if j < length cs then if rank (cs ! i) = rank (cs ! j) then False else ranks_inner cs i (j + 1)
      else True)"
  by pat_completeness auto
termination by (relation "measure (\<lambda>(cs, i, j). length cs - j)") auto

function ranks_outer :: "LockClass list \<Rightarrow> nat \<Rightarrow> bool" where
  "ranks_outer cs i =
     (if i < length cs then if \<not> ranks_inner cs i (i + 1) then False else ranks_outer cs (i + 1) else True)"
  by pat_completeness auto
termination by (relation "measure (\<lambda>(cs, i). length cs - i)") auto

definition ranks_are_total_order :: "LockClass list \<Rightarrow> bool" where
  "ranks_are_total_order cs = ranks_outer cs 0"

declare ranks_inner.simps [simp del] ranks_outer.simps [simp del]

section \<open>Contention statistics\<close>

definition SHARDS :: nat where "SHARDS = 8"

record Shard =
  sh_acquires :: u64
  sh_contended :: u64
  sh_spins :: u64
  sh_max_spins :: u64
  sh_try_failed :: u64
  sh_hold_total :: u64
  sh_hold_max :: u64

definition Shard_new :: Shard where
  "Shard_new = \<lparr>sh_acquires = 0, sh_contended = 0, sh_spins = 0, sh_max_spins = 0, sh_try_failed = 0,
     sh_hold_total = 0, sh_hold_max = 0\<rparr>"

record LockStats =
  ls_shards :: "Shard list"

record StatsSnapshot =
  ss_acquires :: u64
  ss_contended :: u64
  ss_spins :: u64
  ss_max_spins :: u64
  ss_try_failed :: u64
  ss_hold_total :: u64
  ss_hold_max :: u64

definition StatsSnapshot_default :: StatsSnapshot where
  "StatsSnapshot_default = \<lparr>ss_acquires = 0, ss_contended = 0, ss_spins = 0, ss_max_spins = 0,
     ss_try_failed = 0, ss_hold_total = 0, ss_hold_max = 0\<rparr>"

definition contention_ppm :: "StatsSnapshot \<Rightarrow> u64" where
  "contention_ppm s =
     (if ss_acquires s = 0 then 0 else saturating_mul (ss_contended s) 1000000 div ss_acquires s)"

definition since :: "StatsSnapshot \<Rightarrow> StatsSnapshot \<Rightarrow> StatsSnapshot" where
  "since s earlier =
     \<lparr>ss_acquires = saturating_sub (ss_acquires s) (ss_acquires earlier),
      ss_contended = saturating_sub (ss_contended s) (ss_contended earlier),
      ss_spins = saturating_sub (ss_spins s) (ss_spins earlier),
      ss_max_spins = ss_max_spins s,
      ss_try_failed = saturating_sub (ss_try_failed s) (ss_try_failed earlier),
      ss_hold_total = saturating_sub (ss_hold_total s) (ss_hold_total earlier),
      ss_hold_max = ss_hold_max s\<rparr>"

definition StatsSnapshot_add :: "StatsSnapshot \<Rightarrow> StatsSnapshot \<Rightarrow> StatsSnapshot" where
  "StatsSnapshot_add s w =
     s\<lparr>ss_acquires := ss_acquires s + ss_acquires w,
       ss_contended := ss_contended s + ss_contended w,
       ss_spins := ss_spins s + ss_spins w,
       ss_max_spins := max (ss_max_spins s) (ss_max_spins w),
       ss_try_failed := ss_try_failed s + ss_try_failed w,
       ss_hold_total := ss_hold_total s + ss_hold_total w,
       ss_hold_max := max (ss_hold_max s) (ss_hold_max w)\<rparr>"

definition LockStats_new :: LockStats where
  "LockStats_new = \<lparr>ls_shards = replicate SHARDS Shard_new\<rparr>"

definition on_shard :: "nat \<Rightarrow> (Shard \<Rightarrow> Shard) \<Rightarrow> LockStats \<Rightarrow> LockStats" where
  "on_shard cpu f st =
     st\<lparr>ls_shards := (ls_shards st)[cpu mod SHARDS := f (ls_shards st ! (cpu mod SHARDS))]\<rparr>"

definition record_acquire :: "nat \<Rightarrow> u64 \<Rightarrow> LockStats \<Rightarrow> LockStats" where
  "record_acquire cpu spins = on_shard cpu (\<lambda>s.
     let s = s\<lparr>sh_acquires := sh_acquires s + 1\<rparr>
     in if spins > 0
        then s\<lparr>sh_contended := sh_contended s + 1, sh_spins := sh_spins s + spins,
               sh_max_spins := max (sh_max_spins s) spins\<rparr>
        else s)"

definition record_hold :: "nat \<Rightarrow> u64 \<Rightarrow> LockStats \<Rightarrow> LockStats" where
  "record_hold cpu t = on_shard cpu (\<lambda>s.
     s\<lparr>sh_hold_total := sh_hold_total s + t, sh_hold_max := max (sh_hold_max s) t\<rparr>)"

definition record_try_failed :: "nat \<Rightarrow> LockStats \<Rightarrow> LockStats" where
  "record_try_failed cpu = on_shard cpu (\<lambda>s.
     s\<lparr>sh_contended := sh_contended s + 1, sh_try_failed := sh_try_failed s + 1\<rparr>)"

definition load_shard :: "Shard \<Rightarrow> StatsSnapshot" where
  "load_shard s =
     \<lparr>ss_acquires = sh_acquires s, ss_contended = sh_contended s, ss_spins = sh_spins s,
      ss_max_spins = sh_max_spins s, ss_try_failed = sh_try_failed s,
      ss_hold_total = sh_hold_total s, ss_hold_max = sh_hold_max s\<rparr>"

definition snapshot :: "LockStats \<Rightarrow> StatsSnapshot" where
  "snapshot st = foldl (\<lambda>out s. StatsSnapshot_add out (load_shard s)) StatsSnapshot_default (ls_shards st)"

definition LockStats_reset :: "LockStats \<Rightarrow> LockStats" where
  "LockStats_reset st = st\<lparr>ls_shards := map (\<lambda>s. s\<lparr>sh_acquires := 0, sh_contended := 0, sh_spins := 0,
     sh_max_spins := 0, sh_try_failed := 0, sh_hold_total := 0, sh_hold_max := 0\<rparr>) (ls_shards st)\<rparr>"

section \<open>The ranking\<close>

lemma ranks_inner_iff:
  "ranks_inner cs i j \<longleftrightarrow> (\<forall>k. j \<le> k \<and> k < length cs \<longrightarrow> rank (cs ! i) \<noteq> rank (cs ! k))"
proof (induction cs i j rule: ranks_inner.induct)
  case (1 cs i j)
  show ?case
  proof (cases "j < length cs \<and> rank (cs ! i) \<noteq> rank (cs ! j)")
    case True
    have "(\<forall>k. j \<le> k \<and> k < length cs \<longrightarrow> rank (cs ! i) \<noteq> rank (cs ! k))
      \<longleftrightarrow> (\<forall>k. j + 1 \<le> k \<and> k < length cs \<longrightarrow> rank (cs ! i) \<noteq> rank (cs ! k))"
      using True by (metis Suc_eq_plus1 Suc_leD le_neq_implies_less Suc_leI)
    then show ?thesis using True 1 by (subst ranks_inner.simps) simp
  next
    case False
    then show ?thesis by (subst ranks_inner.simps) auto
  qed
qed

lemma ranks_outer_iff:
  "ranks_outer cs i \<longleftrightarrow> (\<forall>a b. i \<le> a \<and> a < b \<and> b < length cs \<longrightarrow> rank (cs ! a) \<noteq> rank (cs ! b))"
proof (induction cs i rule: ranks_outer.induct)
  case (1 cs i)
  show ?case
  proof (cases "i < length cs \<and> ranks_inner cs i (i + 1)")
    case True
    have "(\<forall>a b. i \<le> a \<and> a < b \<and> b < length cs \<longrightarrow> rank (cs ! a) \<noteq> rank (cs ! b))
      \<longleftrightarrow> (\<forall>a b. i + 1 \<le> a \<and> a < b \<and> b < length cs \<longrightarrow> rank (cs ! a) \<noteq> rank (cs ! b))"
      using True unfolding ranks_inner_iff by (metis Suc_eq_plus1 Suc_leD le_neq_implies_less Suc_leI)
    then show ?thesis using True 1 by (subst ranks_outer.simps) simp
  next
    case False
    then show ?thesis
      by (subst ranks_outer.simps) (auto simp: ranks_inner_iff; meson Suc_le_lessD order_refl)
  qed
qed

lemma ranks_total: "ranks_are_total_order cs \<longleftrightarrow> distinct (map rank cs)"
  by (auto simp: ranks_are_total_order_def ranks_outer_iff distinct_conv_nth) (metis nat_neq_iff)

lemma class_index_nth: "class_index c < length ALL_CLASSES \<and> ALL_CLASSES ! class_index c = c"
  by (cases c) (simp_all add: ALL_CLASSES_def)

section \<open>The tracker is a stack\<close>

definition tracker_wf :: "OrderTracker \<Rightarrow> bool" where
  "tracker_wf t \<longleftrightarrow> length (ot_held t) = MAX_DEPTH \<and> ot_depth t \<le> MAX_DEPTH
     \<and> (\<forall>i<ot_depth t. ot_held t ! i \<noteq> None)"

definition held_stack :: "OrderTracker \<Rightarrow> LockClass list" where
  "held_stack t = map the (take (ot_depth t) (ot_held t))"

text \<open>The specification works on a list of classes, the innermost lock last.\<close>

definition stack_acquire :: "LockClass \<Rightarrow> LockClass list \<Rightarrow> (unit, Inversion) result \<times> LockClass list" where
  "stack_acquire c hs = (case List.find (\<lambda>h. rank c \<le> rank h) hs of
      Some h \<Rightarrow> (Err \<lparr>holding = h, acquiring = c\<rparr>, hs)
    | None \<Rightarrow> (Ok (), if length hs < MAX_DEPTH then hs @ [c] else hs))"

definition stack_release :: "LockClass \<Rightarrow> LockClass list \<Rightarrow> LockClass list" where
  "stack_release c hs = rev (remove1 c (rev hs))"

lemma length_held_stack: "tracker_wf t \<Longrightarrow> length (held_stack t) = ot_depth t"
  by (simp add: held_stack_def tracker_wf_def)

lemma take_held: "tracker_wf t \<Longrightarrow> take (ot_depth t) (ot_held t) = map Some (held_stack t)"
  by (rule nth_equalityI) (auto simp: held_stack_def tracker_wf_def)

lemma acquire_check_map:
  "acquire_check c (map Some hs) = Some (case List.find (\<lambda>h. rank c \<le> rank h) hs of
      Some h \<Rightarrow> Err \<lparr>holding = h, acquiring = c\<rparr> | None \<Rightarrow> Ok ())"
  by (induction hs) auto

lemma tracker_wf_new: "tracker_wf OrderTracker_new" "held_stack OrderTracker_new = []"
  by (simp_all add: tracker_wf_def OrderTracker_new_def held_stack_def)

lemma push_unchecked_stack:
  assumes "tracker_wf t"
  shows "tracker_wf (push_unchecked c t)"
    and "held_stack (push_unchecked c t) = (if ot_depth t < MAX_DEPTH then held_stack t @ [c] else held_stack t)"
  using assms by (auto simp: tracker_wf_def push_unchecked_def held_stack_def nth_list_update less_Suc_eq
      take_Suc_conv_app_nth)

lemma acquire_push:
  "acquire c t = (case acquire_check c (take (ot_depth t) (ot_held t)) of
      None \<Rightarrow> None | Some (Err e) \<Rightarrow> Some (Err e, t) | Some (Ok _) \<Rightarrow> Some (Ok (), push_unchecked c t))"
  by (simp only: acquire_def push_unchecked_def)

lemma acquire_stack:
  assumes "tracker_wf t"
  obtains r t' where "acquire c t = Some (r, t')" and "tracker_wf t'"
    and "(r, held_stack t') = stack_acquire c (held_stack t)"
proof (cases "List.find (\<lambda>h. rank c \<le> rank h) (held_stack t)")
  case None
  then have "acquire c t = Some (Ok (), push_unchecked c t)"
    using assms by (simp add: acquire_push take_held acquire_check_map)
  moreover have "(Ok (), held_stack (push_unchecked c t)) = stack_acquire c (held_stack t)"
    using None assms by (simp add: stack_acquire_def push_unchecked_stack length_held_stack)
  ultimately show ?thesis using that push_unchecked_stack(1) [OF assms] by blast
next
  case (Some h)
  then have "acquire c t = Some (Err \<lparr>holding = h, acquiring = c\<rparr>, t)"
    using assms by (simp add: acquire_push take_held acquire_check_map)
  then show ?thesis using that assms Some by (simp add: stack_acquire_def)
qed

lemma find_rev_upt_Some:
  "List.find P (rev [0..<n]) = Some i \<longleftrightarrow> i < n \<and> P i \<and> (\<forall>j. i < j \<and> j < n \<longrightarrow> \<not> P j)"
proof (induction n)
  case 0
  then show ?case by simp
next
  case (Suc n)
  then show ?case by (auto simp: less_Suc_eq)
qed

lemma find_rev_upt_None: "List.find P (rev [0..<n]) = None \<longleftrightarrow> (\<forall>j<n. \<not> P j)"
  by (auto simp: find_None_iff)

lemma length_release_shift [simp]: "length (release_shift i d h) = length h"
proof -
  have "length (foldl (\<lambda>h j. h[j := h ! (j + 1)]) h js) = length h" for js and h :: "LockClass option list"
    by (induction js arbitrary: h) simp_all
  then show ?thesis by (simp add: release_shift_def)
qed

lemma nth_release_shift:
  assumes "i < d" and "d \<le> length h" and "k < length h"
  shows "release_shift i d h ! k = (if i \<le> k \<and> k < d - 1 then h ! (k + 1) else h ! k)"
proof -
  have "m < length h \<Longrightarrow> i \<le> m \<Longrightarrow> k < length h \<Longrightarrow>
    foldl (\<lambda>h j. h[j := h ! (j + 1)]) h [i..<m] ! k = (if i \<le> k \<and> k < m then h ! (k + 1) else h ! k)
    \<and> length (foldl (\<lambda>h j. h[j := h ! (j + 1)]) h [i..<m]) = length h" for m k
  proof (induction m arbitrary: k)
    case 0
    then show ?case by simp
  next
    case (Suc m)
    show ?case
    proof (cases "i = Suc m")
      case True
      then show ?thesis by auto
    next
      case False
      then have "i \<le> m" using Suc.prems by simp
      then show ?thesis
        using Suc.IH [of k] Suc.IH [of "m + 1"] Suc.prems by (auto simp: nth_list_update)
    qed
  qed
  from this [of "d - 1" k] assms show ?thesis by (simp add: release_shift_def)
qed

lemma release_stack:
  assumes "tracker_wf t"
  shows "tracker_wf (release c t)" and "held_stack (release c t) = stack_release c (held_stack t)"
proof -
  let ?n = "ot_depth t" and ?h = "ot_held t" and ?hs = "held_stack t"
  have len: "length ?h = 16" "?n \<le> 16" "length ?hs = ?n"
    using assms length_held_stack by (simp_all add: tracker_wf_def MAX_DEPTH_def)
  have hs: "?h ! i = Some (?hs ! i)" if "i < ?n" for i
    using assms that by (simp add: tracker_wf_def held_stack_def)
  have "tracker_wf (release c t) \<and> held_stack (release c t) = stack_release c ?hs"
  proof (cases "List.find (\<lambda>i. ?h ! i = Some c) (rev [0..<?n])")
    case None
    then have "c \<notin> set ?hs" using hs len(3) by (auto simp: find_rev_upt_None in_set_conv_nth)
    then show ?thesis
      using None assms by (simp add: release_def stack_release_def remove1_idem)
  next
    case (Some i)
    then have i: "i < ?n" "?hs ! i = c" "\<And>j. i < j \<Longrightarrow> j < ?n \<Longrightarrow> ?hs ! j \<noteq> c"
      using hs by (auto simp: find_rev_upt_Some)
    let ?h' = "(release_shift i ?n ?h)[?n - 1 := None]"
    have r: "release c t = t\<lparr>ot_held := ?h', ot_depth := ?n - 1\<rparr>"
      using Some by (simp add: release_def Let_def)
    have h': "?h' ! k = Some (if k < i then ?hs ! k else ?hs ! (k + 1))" if "k < ?n - 1" for k
      using that i(1) len hs by (simp add: nth_release_shift)
    have "tracker_wf (release c t)"
      using h' len by (simp add: r tracker_wf_def MAX_DEPTH_def)
    moreover have "held_stack (release c t) = take i ?hs @ drop (Suc i) ?hs"
    proof (rule nth_equalityI)
      show "length (held_stack (release c t)) = length (take i ?hs @ drop (Suc i) ?hs)"
        using len i(1) by (simp add: held_stack_def r)
      fix k assume "k < length (held_stack (release c t))"
      then have "k < ?n - 1" using len by (simp add: held_stack_def r)
      then show "held_stack (release c t) ! k = (take i ?hs @ drop (Suc i) ?hs) ! k"
        using h' [of k] len i(1) by (auto simp: held_stack_def r nth_append)
    qed
    moreover have "stack_release c ?hs = take i ?hs @ drop (Suc i) ?hs"
    proof -
      have "?hs = take i ?hs @ c # drop (Suc i) ?hs"
        using i len(3) by (metis id_take_nth_drop)
      moreover have "c \<notin> set (drop (Suc i) ?hs)"
        using i(3) len(3) by (auto simp: in_set_conv_nth)
      ultimately have "rev ?hs = rev (drop (Suc i) ?hs) @ c # rev (take i ?hs)" "c \<notin> set (rev (drop (Suc i) ?hs))"
        by (metis append.assoc append_Cons append_Nil rev.simps(2) rev_append, simp)
      then have "remove1 c (rev ?hs) = rev (drop (Suc i) ?hs) @ rev (take i ?hs)"
        by (metis remove1.simps(2) remove1_append)
      then show ?thesis by (simp add: stack_release_def)
    qed
    ultimately show ?thesis by simp
  qed
  then show "tracker_wf (release c t)" and "held_stack (release c t) = stack_release c ?hs" by simp_all
qed

inductive lock_step :: "OrderTracker \<Rightarrow> OrderTracker \<Rightarrow> bool" where
  lk_acquire: "acquire c t = Some (r, t') \<Longrightarrow> lock_step t t'"
| lk_unchecked: "lock_step t (push_unchecked c t)"
| lk_release: "lock_step t (release c t)"

inductive_cases lock_stepE: "lock_step t t'"

interpretation tracker_machine: safe_machine "\<lambda>t. t = OrderTracker_new" lock_step tracker_wf
proof
  show "tracker_wf t" if "t = OrderTracker_new" for t using that tracker_wf_new by simp
  show "tracker_wf t'" if "tracker_wf t" "lock_step t t'" for t t'
    using that(2)
  proof (rule lock_stepE)
    fix c r assume "acquire c t = Some (r, t')"
    then show ?thesis using acquire_stack [OF that(1), of c] by (metis option.inject prod.inject)
  qed (use that(1) push_unchecked_stack release_stack in auto)
qed

section \<open>No circular wait\<close>

text \<open>CPU \<open>a\<close> waits for \<open>b\<close> when the class it wants is among those \<open>b\<close>'s tracker records as held.\<close>

definition waits_for :: "('cpu \<Rightarrow> OrderTracker) \<Rightarrow> ('cpu \<Rightarrow> LockClass option) \<Rightarrow> 'cpu \<Rightarrow> 'cpu \<Rightarrow> bool" where
  "waits_for trk wants a b \<longleftrightarrow> (\<exists>k. wants a = Some k \<and> k \<in> set (held_stack (trk b)))"

lemma acquire_Ok_above:
  assumes "tracker_wf t" and "acquire c t = Some (Ok (), t')" and "h \<in> set (held_stack t)"
  shows "rank h < rank c"
proof -
  obtain r u where "acquire c t = Some (r, u)" "(r, held_stack u) = stack_acquire c (held_stack t)"
    using acquire_stack [OF assms(1)] by blast
  then have "List.find (\<lambda>h. rank c \<le> rank h) (held_stack t) = None"
    using assms(2) by (auto simp: stack_acquire_def split: option.splits)
  then show ?thesis using assms(3) by (auto simp: find_None_iff not_le)
qed

lemma waits_rank:
  assumes "\<forall>a. tracker_wf (trk a)" and "\<forall>a k. wants a = Some k \<longrightarrow> (\<exists>t'. acquire k (trk a) = Some (Ok (), t'))"
    and "(waits_for trk wants)\<^sup>+\<^sup>+ a b" and "wants a = Some j" and "wants b = Some k"
  shows "rank j < rank k"
  using assms(3,5)
proof (induction arbitrary: k rule: tranclp_induct)
  case (base b)
  then have "j \<in> set (held_stack (trk b))" using assms(4) by (simp add: waits_for_def)
  then show ?case using base(2) assms(1,2) acquire_Ok_above by blast
next
  case (step b c)
  from step(2) obtain m where m: "wants b = Some m" "m \<in> set (held_stack (trk c))"
    by (auto simp: waits_for_def)
  then have "rank m < rank k" using step.prems assms(1,2) acquire_Ok_above by blast
  then show ?case using step.IH [OF m(1)] by simp
qed

section \<open>The shards add up\<close>

text \<open>What the lock code reports, and what the counters should say of it.\<close>

datatype stat_event = Acquired nat u64 | Held nat u64 | TryFailed nat

fun record_event :: "stat_event \<Rightarrow> LockStats \<Rightarrow> LockStats" where
  "record_event (Acquired cpu spins) = record_acquire cpu spins"
| "record_event (Held cpu t) = record_hold cpu t"
| "record_event (TryFailed cpu) = record_try_failed cpu"

fun count_event :: "stat_event \<Rightarrow> StatsSnapshot \<Rightarrow> StatsSnapshot" where
  "count_event (Acquired cpu spins) s = s\<lparr>ss_acquires := ss_acquires s + 1,
     ss_contended := ss_contended s + (if spins > 0 then 1 else 0), ss_spins := ss_spins s + spins,
     ss_max_spins := max (ss_max_spins s) spins\<rparr>"
| "count_event (Held cpu t) s = s\<lparr>ss_hold_total := ss_hold_total s + t, ss_hold_max := max (ss_hold_max s) t\<rparr>"
| "count_event (TryFailed cpu) s = s\<lparr>ss_contended := ss_contended s + 1, ss_try_failed := ss_try_failed s + 1\<rparr>"

lemma snapshot_fields:
  "ss_acquires (snapshot st) = sum_list (map sh_acquires (ls_shards st))"
  "ss_contended (snapshot st) = sum_list (map sh_contended (ls_shards st))"
  "ss_spins (snapshot st) = sum_list (map sh_spins (ls_shards st))"
  "ss_try_failed (snapshot st) = sum_list (map sh_try_failed (ls_shards st))"
  "ss_hold_total (snapshot st) = sum_list (map sh_hold_total (ls_shards st))"
  "ss_max_spins (snapshot st) = foldl max 0 (map sh_max_spins (ls_shards st))"
  "ss_hold_max (snapshot st) = foldl max 0 (map sh_hold_max (ls_shards st))"
proof -
  have fields: "ss_acquires (foldl (\<lambda>out s. StatsSnapshot_add out (load_shard s)) z xs) = ss_acquires z + sum_list (map sh_acquires xs)
    \<and> ss_contended (foldl (\<lambda>out s. StatsSnapshot_add out (load_shard s)) z xs) = ss_contended z + sum_list (map sh_contended xs)
    \<and> ss_spins (foldl (\<lambda>out s. StatsSnapshot_add out (load_shard s)) z xs) = ss_spins z + sum_list (map sh_spins xs)
    \<and> ss_try_failed (foldl (\<lambda>out s. StatsSnapshot_add out (load_shard s)) z xs) = ss_try_failed z + sum_list (map sh_try_failed xs)
    \<and> ss_hold_total (foldl (\<lambda>out s. StatsSnapshot_add out (load_shard s)) z xs) = ss_hold_total z + sum_list (map sh_hold_total xs)
    \<and> ss_max_spins (foldl (\<lambda>out s. StatsSnapshot_add out (load_shard s)) z xs) = foldl max (ss_max_spins z) (map sh_max_spins xs)
    \<and> ss_hold_max (foldl (\<lambda>out s. StatsSnapshot_add out (load_shard s)) z xs) = foldl max (ss_hold_max z) (map sh_hold_max xs)"
    for xs z
    by (induction xs arbitrary: z) (simp_all add: StatsSnapshot_add_def load_shard_def add.assoc)
  show "ss_acquires (snapshot st) = sum_list (map sh_acquires (ls_shards st))"
    "ss_contended (snapshot st) = sum_list (map sh_contended (ls_shards st))"
    "ss_spins (snapshot st) = sum_list (map sh_spins (ls_shards st))"
    "ss_try_failed (snapshot st) = sum_list (map sh_try_failed (ls_shards st))"
    "ss_hold_total (snapshot st) = sum_list (map sh_hold_total (ls_shards st))"
    "ss_max_spins (snapshot st) = foldl max 0 (map sh_max_spins (ls_shards st))"
    "ss_hold_max (snapshot st) = foldl max 0 (map sh_hold_max (ls_shards st))"
    by (simp_all add: fields snapshot_def StatsSnapshot_default_def)
qed

lemma sum_list_at: "i < length xs \<Longrightarrow> sum_list (xs[i := xs ! i + d]) = sum_list xs + d" for xs :: "'a::comm_monoid_add list"
  by (induction xs arbitrary: i) (auto simp: ac_simps split: nat.splits)

lemma foldl_max: "foldl max (max a b) xs = max a (foldl max b xs)" for xs :: "u64 list"
  by (induction xs arbitrary: b) (simp_all add: max.assoc)

lemma foldl_max_at:
  "i < length xs \<Longrightarrow> foldl max z (xs[i := max (xs ! i) v]) = max (foldl max z xs) v" for xs :: "u64 list"
proof (induction xs arbitrary: i z)
  case Nil
  then show ?case by simp
next
  case (Cons x xs)
  show ?case
  proof (cases i)
    case 0
    then show ?thesis using foldl_max [of v "max z x" xs] by (simp add: max.commute max.left_commute max.assoc)
  next
    case (Suc j)
    then show ?thesis using Cons by simp
  qed
qed

lemma snapshot_on_shard:
  assumes "length (ls_shards st) = SHARDS"
    and "\<And>s. sh_acquires (f s) = sh_acquires s + a" and "\<And>s. sh_contended (f s) = sh_contended s + c"
    and "\<And>s. sh_spins (f s) = sh_spins s + p" and "\<And>s. sh_max_spins (f s) = max (sh_max_spins s) m"
    and "\<And>s. sh_try_failed (f s) = sh_try_failed s + y" and "\<And>s. sh_hold_total (f s) = sh_hold_total s + h"
    and "\<And>s. sh_hold_max (f s) = max (sh_hold_max s) x"
  shows "snapshot (on_shard cpu f st) =
    \<lparr>ss_acquires = ss_acquires (snapshot st) + a, ss_contended = ss_contended (snapshot st) + c,
     ss_spins = ss_spins (snapshot st) + p, ss_max_spins = max (ss_max_spins (snapshot st)) m,
     ss_try_failed = ss_try_failed (snapshot st) + y, ss_hold_total = ss_hold_total (snapshot st) + h,
     ss_hold_max = max (ss_hold_max (snapshot st)) x\<rparr>"
proof -
  let ?xs = "ls_shards st" and ?i = "cpu mod SHARDS"
  have i: "?i < length ?xs" using assms(1) by (simp add: SHARDS_def)
  have add: "sum_list (map g (?xs[?i := f (?xs ! ?i)])) = sum_list (map g ?xs) + d"
    if "\<And>s. g (f s) = g s + d" for g :: "Shard \<Rightarrow> u64" and d
    using sum_list_at [of ?i "map g ?xs" d] i by (simp add: map_update that)
  have mx: "foldl max 0 (map g (?xs[?i := f (?xs ! ?i)])) = max (foldl max 0 (map g ?xs)) d"
    if "\<And>s. g (f s) = max (g s) d" for g :: "Shard \<Rightarrow> u64" and d
    using foldl_max_at [of ?i "map g ?xs" 0 d] i by (simp add: map_update that)
  show ?thesis
    by (rule StatsSnapshot.equality)
      (simp_all add: snapshot_fields on_shard_def add [of sh_acquires, OF assms(2)]
        add [of sh_contended, OF assms(3)] add [of sh_spins, OF assms(4)] mx [of sh_max_spins, OF assms(5)]
        add [of sh_try_failed, OF assms(6)] add [of sh_hold_total, OF assms(7)] mx [of sh_hold_max, OF assms(8)])
qed

lemma max_0_u64: "max x 0 = x" for x :: u64
  by (simp add: max_def)

lemma snapshot_event:
  assumes "length (ls_shards st) = SHARDS"
  shows "snapshot (record_event e st) = count_event e (snapshot st)"
proof (cases e)
  case (Acquired cpu spins)
  have "spins = 0 \<or> 0 < spins" by (simp add: word_neq_0_conv [symmetric])
  then show ?thesis
    unfolding Acquired record_event.simps record_acquire_def
    by (subst snapshot_on_shard [OF assms, where a = 1 and c = "if spins > 0 then 1 else 0" and p = spins
          and m = spins and y = 0 and h = 0 and x = 0])
      (auto simp: Let_def max_0_u64 intro!: StatsSnapshot.equality)
next
  case (Held cpu t)
  show ?thesis
    unfolding Held record_event.simps record_hold_def
    by (subst snapshot_on_shard [OF assms, where a = 0 and c = 0 and p = 0 and m = 0 and y = 0 and h = t and x = t])
      (auto simp: max_0_u64 intro!: StatsSnapshot.equality)
next
  case (TryFailed cpu)
  show ?thesis
    unfolding TryFailed record_event.simps record_try_failed_def
    by (subst snapshot_on_shard [OF assms, where a = 0 and c = 1 and p = 0 and m = 0 and y = 1 and h = 0 and x = 0])
      (auto simp: max_0_u64 intro!: StatsSnapshot.equality)
qed

lemma length_record_event: "length (ls_shards (record_event e st)) = length (ls_shards st)"
  by (cases e) (simp_all add: record_acquire_def record_hold_def record_try_failed_def on_shard_def)

lemma snapshot_events:
  "length (ls_shards st) = SHARDS \<Longrightarrow> snapshot (fold record_event es st) = fold count_event es (snapshot st)"
  by (induction es arbitrary: st) (simp_all add: snapshot_event length_record_event)

lemma snapshot_new: "snapshot LockStats_new = StatsSnapshot_default"
  by (simp add: snapshot_def LockStats_new_def SHARDS_def numeral_eq_Suc StatsSnapshot_add_def load_shard_def
      Shard_new_def StatsSnapshot_default_def)

text \<open>A tracker with one lock, for the examples.\<close>

lemma held_one: "held_stack (push_unchecked c OrderTracker_new) = [c]"
proof -
  have "ot_depth OrderTracker_new = 0" by (simp add: OrderTracker_new_def)
  then show ?thesis
    using push_unchecked_stack(2) [OF tracker_wf_new(1), of c] by (simp add: tracker_wf_new(2) MAX_DEPTH_def)
qed

lemma acquire_second:
  assumes "rank c < rank k"
  shows "\<exists>t'. acquire k (push_unchecked c OrderTracker_new) = Some (Ok (), t')"
  using assms push_unchecked_stack(1) [OF tracker_wf_new(1), of c]
  by (simp add: acquire_push take_held acquire_check_map held_one not_le)

section \<open>Properties\<close>

text \<open>
  Property C23.  The tracker implements a stack of lock classes.  Whatever was acquired, recorded unchecked and
  released since it was created, \<open>acquire\<close> never reaches its \<open>expect\<close> panic; it reports the outermost
  held class of an equal or higher rank and leaves the stack alone, or pushes the class (up to the
  tracked depth of 16); \<open>release\<close> removes the innermost entry of its class and nothing else.\<close>

theorem tracker_refines_stack:
  assumes "lock_step\<^sup>*\<^sup>* OrderTracker_new t"
  shows "(\<exists>r t'. acquire c t = Some (r, t') \<and> (r, held_stack t') = stack_acquire c (held_stack t))
    \<and> held_stack (release c t) = stack_release c (held_stack t)"
proof -
  have "tracker_wf t" using tracker_machine.inv_reachable [OF _ assms] by blast
  then show ?thesis using acquire_stack [of t c] release_stack(2) [of t c] by metis
qed

theorem tracker_refines_stack_witness:
  "\<exists>t r t'. lock_step\<^sup>*\<^sup>* OrderTracker_new t \<and> held_stack t = [Fs] \<and> acquire Sched t = Some (r, t')
     \<and> r = Err \<lparr>holding = Fs, acquiring = Sched\<rparr> \<and> held_stack (release Fs t) = []"
proof -
  let ?t = "push_unchecked Fs OrderTracker_new"
  have st: "lock_step\<^sup>*\<^sup>* OrderTracker_new ?t"
    by (intro r_into_rtranclp lk_unchecked)
  have h: "held_stack ?t = [Fs]" by (rule held_one)
  show ?thesis
    using tracker_refines_stack [OF st, of Sched] tracker_refines_stack [OF st, of Fs] h st
    by (auto simp: stack_acquire_def stack_release_def word_le_nat_alt)
qed

text \<open>
  Property C22.  Checked acquisition excludes circular waiting.  On any number of CPUs, if every
  CPU that waits for a lock class had its \<open>acquire\<close> accepted, then following from CPU to CPU who
  waits for a class that another one's tracker holds never leads back to the start: no deadlock among tracked
  locks.\<close>

theorem no_circular_wait:
  assumes "\<forall>a. lock_step\<^sup>*\<^sup>* OrderTracker_new (trk a)"
    and "\<forall>a k. wants a = Some k \<longrightarrow> (\<exists>t'. acquire k (trk a) = Some (Ok (), t'))"
  shows "\<not> (waits_for trk wants)\<^sup>+\<^sup>+ a a"
proof
  assume c: "(waits_for trk wants)\<^sup>+\<^sup>+ a a"
  then obtain b where "waits_for trk wants a b" by (meson tranclpD)
  then obtain k where "wants a = Some k" by (auto simp: waits_for_def)
  moreover have "\<forall>a. tracker_wf (trk a)"
    using assms(1) tracker_machine.inv_reachable by blast
  ultimately show False using waits_rank [OF _ assms(2) c] by blast
qed

text \<open>Two CPUs: one holds the scheduler lock and wants a filesystem, the other holds the filesystem and
  wants the heap.\<close>

theorem no_circular_wait_witness:
  "\<not> (waits_for (\<lambda>cpu. if cpu then push_unchecked Sched OrderTracker_new else push_unchecked Fs OrderTracker_new)
       (\<lambda>cpu. if cpu then Some Fs else Some Heap))\<^sup>+\<^sup>+ True True"
proof (rule no_circular_wait)
  show "\<forall>a. lock_step\<^sup>*\<^sup>* OrderTracker_new (if a then push_unchecked Sched OrderTracker_new else push_unchecked Fs OrderTracker_new)"
    by (auto intro: lk_unchecked)
  show "\<forall>a k. (if a then Some Fs else Some Heap) = Some k \<longrightarrow>
     (\<exists>t'. acquire k (if a then push_unchecked Sched OrderTracker_new else push_unchecked Fs OrderTracker_new) = Some (Ok (), t'))"
    using acquire_second [of Sched Fs] acquire_second [of Fs Heap] by auto
qed

text \<open>
  Property C24.  The ranking is a strict total order.  \<open>ranks_are_total_order\<close> says exactly that no two listed
  classes share a rank; it holds for the kernel's classes, whose list is complete, in
  increasing rank, and indexed by \<open>index\<close>.\<close>

theorem lock_ranking:
  "(ranks_are_total_order cs \<longleftrightarrow> distinct (map rank cs))
   \<and> ranks_are_total_order ALL_CLASSES
   \<and> (\<forall>c. c \<in> set ALL_CLASSES \<and> ALL_CLASSES ! class_index c = c)
   \<and> sorted_wrt (\<lambda>a b. rank a < rank b) ALL_CLASSES"
proof -
  have s: "sorted_wrt (\<lambda>a b. rank a < rank b) ALL_CLASSES"
    by (simp add: ALL_CLASSES_def)
  have "distinct (map rank ALL_CLASSES)"
    by (simp add: ALL_CLASSES_def)
  moreover have "c \<in> set ALL_CLASSES" for c
    using class_index_nth by (metis nth_mem)
  ultimately show ?thesis using s class_index_nth by (auto simp: ranks_total)
qed

text \<open>
  Sharding the counters loses nothing.  After any sequence of acquisitions, hold times and failed
  tries, reported from any CPUs, the snapshot that adds up the eight shards is what one set of counters
  would show.\<close>

lemma shards_add_up:
  "snapshot (fold record_event es LockStats_new) = fold count_event es StatsSnapshot_default"
proof -
  have "length (ls_shards LockStats_new) = SHARDS" by (simp add: LockStats_new_def)
  then show ?thesis by (simp add: snapshot_events snapshot_new)
qed

end
