(* ===== verification/Bpf.thy ===== *)
theory Bpf
  imports Interfaces
begin

text \<open>
  The seccomp filter machine (\<open>crates/eurosandbox/src/bpf.rs\<close>): classic BPF programs over the 64-byte
  \<open>seccomp_data\<close> block, the validation a program goes through before it is installed, its execution, and
  the choice of the most restrictive action when several filters are installed.  The system-call number
  (\<open>i32\<close> in the source, read only as \<open>u32\<close>) is a 32-bit word; the program counter is a natural number, since it
  stays below \<open>4096 + 2 ^ 32\<close>.
\<close>

section \<open>Programs and data\<close>

record Insn =
  i_code :: u16
  i_jt :: u8
  i_jf :: u8
  i_k :: u32

definition Insn_from_bytes :: "bytes \<Rightarrow> Insn option" where
  "Insn_from_bytes b =
     (if length b < 8 then None
      else Some \<lparr>i_code = from_le [b ! 0, b ! 1], i_jt = b ! 2, i_jf = b ! 3,
        i_k = from_le [b ! 4, b ! 5, b ! 6, b ! 7]\<rparr>)"

record SeccompData =
  sd_nr :: u32
  sd_arch :: u32
  sd_ip :: u64
  sd_args :: "u64 list"

definition word_half :: "u64 \<Rightarrow> bool \<Rightarrow> u32" where
  "word_half v high = (if high then ucast (drop_bit 32 v) else ucast v)"

definition SeccompData_word :: "SeccompData \<Rightarrow> u32 \<Rightarrow> u32 option" where
  "SeccompData_word d off =
     (if off mod 4 \<noteq> 0 \<or> off \<ge> 64 then None
      else Some (if off = 0 then sd_nr d
        else if off = 4 then sd_arch d
        else if off = 8 then word_half (sd_ip d) False
        else if off = 12 then word_half (sd_ip d) True
        else let i = unat ((off - 16) div 8) in word_half (sd_args d ! i) ((off - 16) mod 8 = 4)))"

definition RET_KILL_PROCESS :: u32 where "RET_KILL_PROCESS = 0x80000000"
definition RET_KILL_THREAD :: u32 where "RET_KILL_THREAD = 0"
definition RET_TRAP :: u32 where "RET_TRAP = 0x00030000"
definition RET_ERRNO :: u32 where "RET_ERRNO = 0x00050000"
definition RET_USER_NOTIF :: u32 where "RET_USER_NOTIF = 0x7fc00000"
definition RET_TRACE :: u32 where "RET_TRACE = 0x7ff00000"
definition RET_LOG :: u32 where "RET_LOG = 0x7ffc0000"
definition RET_ALLOW :: u32 where "RET_ALLOW = 0x7fff0000"
definition RET_ACTION_FULL :: u32 where "RET_ACTION_FULL = 0xffff0000"
definition RET_DATA :: u32 where "RET_DATA = 0x0000ffff"

definition MAX_INSNS :: nat where "MAX_INSNS = 4096"

datatype LoadError = Empty | TooLong | BadInstruction nat | JumpOutOfRange nat | LoadOutOfRange nat | NoReturnAtEnd

record Filter =
  f_insns :: "Insn list"

definition BPF_LD :: u16 where "BPF_LD = 0x0"
definition BPF_LDX :: u16 where "BPF_LDX = 0x1"
definition BPF_ST :: u16 where "BPF_ST = 0x2"
definition BPF_STX :: u16 where "BPF_STX = 0x3"
definition BPF_ALU :: u16 where "BPF_ALU = 0x4"
definition BPF_JMP :: u16 where "BPF_JMP = 0x5"
definition BPF_RET :: u16 where "BPF_RET = 0x6"
definition BPF_MISC :: u16 where "BPF_MISC = 0x7"
definition BPF_W :: u16 where "BPF_W = 0x0"
definition BPF_IMM :: u16 where "BPF_IMM = 0x0"
definition BPF_ABS :: u16 where "BPF_ABS = 0x20"
definition BPF_IND :: u16 where "BPF_IND = 0x40"
definition BPF_MEM :: u16 where "BPF_MEM = 0x60"
definition BPF_LEN :: u16 where "BPF_LEN = 0x80"
definition BPF_K :: u16 where "BPF_K = 0x0"
definition BPF_X :: u16 where "BPF_X = 0x8"
definition BPF_A :: u16 where "BPF_A = 0x10"
definition BPF_ADD :: u16 where "BPF_ADD = 0x0"
definition BPF_SUB :: u16 where "BPF_SUB = 0x10"
definition BPF_MUL :: u16 where "BPF_MUL = 0x20"
definition BPF_DIV :: u16 where "BPF_DIV = 0x30"
definition BPF_OR :: u16 where "BPF_OR = 0x40"
definition BPF_AND :: u16 where "BPF_AND = 0x50"
definition BPF_LSH :: u16 where "BPF_LSH = 0x60"
definition BPF_RSH :: u16 where "BPF_RSH = 0x70"
definition BPF_NEG :: u16 where "BPF_NEG = 0x80"
definition BPF_MOD :: u16 where "BPF_MOD = 0x90"
definition BPF_XOR :: u16 where "BPF_XOR = 0xa0"
definition BPF_JA :: u16 where "BPF_JA = 0x0"
definition BPF_JEQ :: u16 where "BPF_JEQ = 0x10"
definition BPF_JGT :: u16 where "BPF_JGT = 0x20"
definition BPF_JGE :: u16 where "BPF_JGE = 0x30"
definition BPF_JSET :: u16 where "BPF_JSET = 0x40"
definition BPF_TAX :: u16 where "BPF_TAX = 0x0"
definition BPF_TXA :: u16 where "BPF_TXA = 0x80"

lemmas bpf_codes = BPF_LD_def BPF_LDX_def BPF_ST_def BPF_STX_def BPF_ALU_def BPF_JMP_def
  BPF_RET_def BPF_MISC_def BPF_W_def BPF_IMM_def BPF_ABS_def BPF_IND_def BPF_MEM_def BPF_LEN_def
  BPF_K_def BPF_X_def BPF_A_def BPF_ADD_def BPF_SUB_def BPF_MUL_def BPF_DIV_def BPF_OR_def
  BPF_AND_def BPF_LSH_def BPF_RSH_def BPF_NEG_def BPF_MOD_def BPF_XOR_def BPF_JA_def BPF_JEQ_def
  BPF_JGT_def BPF_JGE_def BPF_JSET_def BPF_TAX_def BPF_TXA_def

lemmas ret_codes = RET_KILL_PROCESS_def RET_KILL_THREAD_def RET_TRAP_def RET_ERRNO_def
  RET_USER_NOTIF_def RET_TRACE_def RET_LOG_def RET_ALLOW_def RET_ACTION_FULL_def RET_DATA_def

section \<open>Loading\<close>

definition load_check :: "nat \<Rightarrow> nat \<Rightarrow> Insn \<Rightarrow> LoadError option" where
  "load_check n i ins =
     (let cls = i_code ins AND 7 in
      if cls = BPF_LD \<or> cls = BPF_LDX then
        let mode = i_code ins AND 0xe0; sz = i_code ins AND 0x18 in
        if mode = BPF_IMM \<or> mode = BPF_LEN then None
        else if mode = BPF_ABS then
          if sz \<noteq> BPF_W \<or> i_k ins mod 4 \<noteq> 0 \<or> i_k ins \<ge> 64 then Some (LoadOutOfRange i) else None
        else if mode = BPF_MEM then
          if i_k ins \<ge> 16 then Some (LoadOutOfRange i) else None
        else if mode = BPF_IND then Some (BadInstruction i)
        else Some (BadInstruction i)
      else if cls = BPF_ST \<or> cls = BPF_STX then
        if i_k ins \<ge> 16 then Some (LoadOutOfRange i) else None
      else if cls = BPF_ALU then
        let op = i_code ins AND 0xf0 in
        if op \<notin> set [BPF_ADD, BPF_SUB, BPF_MUL, BPF_DIV, BPF_OR, BPF_AND, BPF_LSH, BPF_RSH, BPF_NEG, BPF_MOD, BPF_XOR]
        then Some (BadInstruction i)
        else if (op = BPF_DIV \<or> op = BPF_MOD) \<and> i_code ins AND BPF_X = 0 \<and> i_k ins = 0 then Some (BadInstruction i)
        else None
      else if cls = BPF_JMP then
        let op = i_code ins AND 0xf0 in
        if op = BPF_JA then
          if unat (i_k ins) \<ge> n - i - 1 + 1 \<and> i + 1 + unat (i_k ins) \<ge> n then Some (JumpOutOfRange i) else None
        else if op = BPF_JEQ \<or> op = BPF_JGT \<or> op = BPF_JGE \<or> op = BPF_JSET then
          if i + 1 + unat (i_jt ins) \<ge> n \<or> i + 1 + unat (i_jf ins) \<ge> n then Some (JumpOutOfRange i) else None
        else Some (BadInstruction i)
      else if cls = BPF_RET then
        if i_code ins AND 0x18 \<noteq> BPF_K \<and> i_code ins AND 0x18 \<noteq> BPF_A then Some (BadInstruction i) else None
      else if cls = BPF_MISC then
        if i_code ins AND 0xf8 \<noteq> BPF_TAX \<and> i_code ins AND 0xf8 \<noteq> BPF_TXA then Some (BadInstruction i) else None
      else Some (BadInstruction i))"

fun load_loop :: "nat \<Rightarrow> nat \<Rightarrow> Insn list \<Rightarrow> LoadError option" where
  "load_loop n i [] = None"
| "load_loop n i (ins # rest) =
     (case load_check n i ins of Some e \<Rightarrow> Some e | None \<Rightarrow> load_loop n (i + 1) rest)"

definition Filter_load :: "Insn list \<Rightarrow> (Filter, LoadError) result" where
  "Filter_load insns =
     (let n = length insns in
      if n = 0 then Err Empty
      else if n > MAX_INSNS then Err TooLong
      else case load_loop n 0 insns of
        Some e \<Rightarrow> Err e
      | None \<Rightarrow>
          let last = insns ! (n - 1) in
          if i_code last AND 7 \<noteq> BPF_RET \<and> i_code last AND 7 \<noteq> BPF_JMP then Err NoReturnAtEnd
          else if i_code last AND 7 = BPF_JMP then Err NoReturnAtEnd
          else Ok \<lparr>f_insns = insns\<rparr>)"

fun chunks_exact :: "bytes \<Rightarrow> bytes list" where
  "chunks_exact (a # b # c # d # e # f # g # h # rest) = [a, b, c, d, e, f, g, h] # chunks_exact rest"
| "chunks_exact _ = []"

definition Filter_from_bytes :: "bytes \<Rightarrow> (Filter, LoadError) result" where
  "Filter_from_bytes b = Filter_load (List.map_filter Insn_from_bytes (chunks_exact b))"

section \<open>Running\<close>

record Machine =
  m_a :: u32
  m_x :: u32
  m_mem :: "u32 list"
  m_pc :: nat

text \<open>The right operand of \<open>checked_shl\<close> and \<open>checked_shr\<close> must be below the width.\<close>

definition checked_shl_or_0 :: "u32 \<Rightarrow> u32 \<Rightarrow> u32" where
  "checked_shl_or_0 a s = (if s < 32 then push_bit (unat s) a else 0)"

definition checked_shr_or_0 :: "u32 \<Rightarrow> u32 \<Rightarrow> u32" where
  "checked_shr_or_0 a s = (if s < 32 then drop_bit (unat s) a else 0)"

definition alu :: "u16 \<Rightarrow> u32 \<Rightarrow> u32 \<Rightarrow> u32 option" where
  "alu op a src =
     (if op = BPF_ADD then Some (a + src)
      else if op = BPF_SUB then Some (a - src)
      else if op = BPF_MUL then Some (a * src)
      else if op = BPF_DIV then if src = 0 then None else Some (a div src)
      else if op = BPF_MOD then if src = 0 then None else Some (a mod src)
      else if op = BPF_OR then Some (a OR src)
      else if op = BPF_AND then Some (a AND src)
      else if op = BPF_XOR then Some (a XOR src)
      else if op = BPF_LSH then Some (checked_shl_or_0 a src)
      else if op = BPF_RSH then Some (checked_shr_or_0 a src)
      else if op = BPF_NEG then Some (- a)
      else None)"

definition jump_taken :: "u16 \<Rightarrow> u32 \<Rightarrow> u32 \<Rightarrow> bool option" where
  "jump_taken op a src =
     (if op = BPF_JEQ then Some (a = src)
      else if op = BPF_JGT then Some (a > src)
      else if op = BPF_JGE then Some (a \<ge> src)
      else if op = BPF_JSET then Some (a AND src \<noteq> 0)
      else None)"

text \<open>One turn of the loop of \<open>run\<close>, the program counter already advanced: the value the function returns
  (left) or the next state (right).\<close>

definition exec_insn :: "SeccompData \<Rightarrow> Insn \<Rightarrow> Machine \<Rightarrow> u32 + Machine" where
  "exec_insn data ins m =
     (let cls = i_code ins AND 7; slot = unat (i_k ins) AND 15 in
      if cls = BPF_LD then
        let mode = i_code ins AND 0xe0 in
        if mode = BPF_IMM then Inr (m\<lparr>m_a := i_k ins\<rparr>)
        else if mode = BPF_ABS then
          (case SeccompData_word data (i_k ins) of Some w \<Rightarrow> Inr (m\<lparr>m_a := w\<rparr>) | None \<Rightarrow> Inl RET_KILL_PROCESS)
        else if mode = BPF_MEM then Inr (m\<lparr>m_a := m_mem m ! slot\<rparr>)
        else if mode = BPF_LEN then Inr (m\<lparr>m_a := 64\<rparr>)
        else Inl RET_KILL_PROCESS
      else if cls = BPF_LDX then
        let mode = i_code ins AND 0xe0 in
        if mode = BPF_IMM then Inr (m\<lparr>m_x := i_k ins\<rparr>)
        else if mode = BPF_MEM then Inr (m\<lparr>m_x := m_mem m ! slot\<rparr>)
        else if mode = BPF_LEN then Inr (m\<lparr>m_x := 64\<rparr>)
        else Inl RET_KILL_PROCESS
      else if cls = BPF_ST then Inr (m\<lparr>m_mem := (m_mem m)[slot := m_a m]\<rparr>)
      else if cls = BPF_STX then Inr (m\<lparr>m_mem := (m_mem m)[slot := m_x m]\<rparr>)
      else if cls = BPF_ALU then
        let src = (if i_code ins AND BPF_X \<noteq> 0 then m_x m else i_k ins) in
        (case alu (i_code ins AND 0xf0) (m_a m) src of Some v \<Rightarrow> Inr (m\<lparr>m_a := v\<rparr>) | None \<Rightarrow> Inl RET_KILL_PROCESS)
      else if cls = BPF_JMP then
        let src = (if i_code ins AND BPF_X \<noteq> 0 then m_x m else i_k ins); op = i_code ins AND 0xf0 in
        if op = BPF_JA then Inr (m\<lparr>m_pc := m_pc m + unat (i_k ins)\<rparr>)
        else (case jump_taken op (m_a m) src of
            Some taken \<Rightarrow> Inr (m\<lparr>m_pc := m_pc m + (if taken then unat (i_jt ins) else unat (i_jf ins))\<rparr>)
          | None \<Rightarrow> Inl RET_KILL_PROCESS)
      else if cls = BPF_RET then Inl (if i_code ins AND 0x18 = BPF_A then m_a m else i_k ins)
      else if cls = BPF_MISC then
        let op = i_code ins AND 0xf8 in
        if op = BPF_TAX then Inr (m\<lparr>m_x := m_a m\<rparr>)
        else if op = BPF_TXA then Inr (m\<lparr>m_a := m_x m\<rparr>)
        else Inl RET_KILL_PROCESS
      else Inl RET_KILL_PROCESS)"

lemma exec_insn_forward: "exec_insn data ins m = Inr m' \<Longrightarrow> m_pc m \<le> m_pc m'"
  unfolding exec_insn_def Let_def by (auto split: if_splits option.splits)

function run_from :: "Insn list \<Rightarrow> SeccompData \<Rightarrow> Machine \<Rightarrow> u32" where
  "run_from insns data m =
     (if m_pc m < length insns then
        (case exec_insn data (insns ! m_pc m) (m\<lparr>m_pc := m_pc m + 1\<rparr>) of
           Inl r \<Rightarrow> r
         | Inr m' \<Rightarrow> run_from insns data m')
      else RET_KILL_PROCESS)"
  by pat_completeness auto
termination
  by (relation "measure (\<lambda>(insns, data, m). length insns - m_pc m)") (auto dest!: exec_insn_forward)

declare run_from.simps [simp del]

definition machine_init :: Machine where
  "machine_init = \<lparr>m_a = 0, m_x = 0, m_mem = replicate 16 0, m_pc = 0\<rparr>"

definition Filter_run :: "Filter \<Rightarrow> SeccompData \<Rightarrow> u32" where
  "Filter_run f data = run_from (f_insns f) data machine_init"

section \<open>Several filters\<close>





section \<open>What a loaded program can do\<close>

text \<open>The step relation of \<open>run\<close>, and the program counters a run visits.\<close>

inductive bpf_step :: "Insn list \<Rightarrow> SeccompData \<Rightarrow> Machine \<Rightarrow> Machine \<Rightarrow> bool"
  for insns :: "Insn list" and data :: SeccompData where
  bpf_stepI: "m_pc m < length insns \<Longrightarrow> exec_insn data (insns ! m_pc m) (m\<lparr>m_pc := m_pc m + 1\<rparr>) = Inr m'
    \<Longrightarrow> bpf_step insns data m m'"

function run_pcs :: "Insn list \<Rightarrow> SeccompData \<Rightarrow> Machine \<Rightarrow> nat list" where
  "run_pcs insns data m =
     (if m_pc m < length insns then
        m_pc m # (case exec_insn data (insns ! m_pc m) (m\<lparr>m_pc := m_pc m + 1\<rparr>) of
           Inl r \<Rightarrow> []
         | Inr m' \<Rightarrow> run_pcs insns data m')
      else [])"
  by pat_completeness auto
termination
  by (relation "measure (\<lambda>(insns, data, m). length insns - m_pc m)") (auto dest!: exec_insn_forward)

declare run_pcs.simps [simp del]

lemma run_pcs_forward:
  "sorted_wrt (<) (run_pcs insns data m) \<and> set (run_pcs insns data m) \<subseteq> {m_pc m..<length insns}"
proof (induction insns data m rule: run_pcs.induct)
  case (1 insns data m)
  show ?case
  proof (cases "m_pc m < length insns")
    case False
    then show ?thesis by (subst (1 2) run_pcs.simps) simp
  next
    case True
    show ?thesis
    proof (cases "exec_insn data (insns ! m_pc m) (m\<lparr>m_pc := m_pc m + 1\<rparr>)")
      case (Inl r)
      then show ?thesis using True by (subst (1 2) run_pcs.simps) simp
    next
      case (Inr m')
      then have "m_pc m + 1 \<le> m_pc m'" using exec_insn_forward by fastforce
      moreover have "run_pcs insns data m = m_pc m # run_pcs insns data m'"
        using True Inr by (subst run_pcs.simps) simp
      ultimately show ?thesis using 1 [OF True Inr] True by auto
    qed
  qed
qed

lemma load_loop_None: "load_loop n i insns = None \<Longrightarrow> j < length insns \<Longrightarrow> load_check n (i + j) (insns ! j) = None"
proof (induction insns arbitrary: i j)
  case Nil
  then show ?case by simp
next
  case (Cons ins insns)
  then have c: "load_check n i ins = None" "load_loop n (i + 1) insns = None"
    by (auto split: option.splits)
  show ?case
  proof (cases j)
    case 0
    then show ?thesis using c by simp
  next
    case (Suc k)
    then show ?thesis using Cons.IH [OF c(2), of k] Cons.prems(2) by simp
  qed
qed

lemma Filter_load_Ok:
  assumes "Filter_load insns = Ok f"
  shows "f_insns f = insns" and "insns \<noteq> []" and "length insns \<le> 4096"
    and "\<And>i. i < length insns \<Longrightarrow> load_check (length insns) i (insns ! i) = None"
    and "i_code (insns ! (length insns - 1)) AND 7 = BPF_RET"
  using assms load_loop_None [of "length insns" 0 insns]
  by (auto simp: Filter_load_def MAX_INSNS_def Let_def split: if_splits option.splits)











section \<open>The strictest filter decides\<close>




section \<open>The data block\<close>

definition data_bytes :: "SeccompData \<Rightarrow> bytes" where
  "data_bytes d = to_le 4 (sd_nr d) @ to_le 4 (sd_arch d) @ to_le 8 (sd_ip d) @ concat (map (to_le 8) (sd_args d))"

definition data_words :: "SeccompData \<Rightarrow> u32 list" where
  "data_words d = [sd_nr d, sd_arch d, word_half (sd_ip d) False, word_half (sd_ip d) True]
     @ concat (map (\<lambda>v. [word_half v False, word_half v True]) (sd_args d))"

lemma to_le_halves: "to_le 8 v = to_le 4 (word_half v False) @ to_le 4 (word_half v True)"
proof -
  have lo: "ucast (drop_bit n v) = (ucast (drop_bit n (word_half v False)) :: u8)" if "n \<le> 24" for n
    using that by (intro bit_word_eqI) (auto simp: word_half_def bit_simps)
  have hi: "ucast (drop_bit (32 + n) v) = (ucast (drop_bit n (word_half v True)) :: u8)" if "n \<le> 24" for n
    using that by (intro bit_word_eqI) (auto simp: word_half_def bit_simps ac_simps)
  show ?thesis
    using lo [of 0] lo [of 8] lo [of 16] lo [of 24] hi [of 0] hi [of 8] hi [of 16] hi [of 24]
    by (simp add: to_le_def upt_rec)
qed

lemma data_bytes_words: "data_bytes d = concat (map (to_le 4) (data_words d))"
proof -
  have "concat (map (to_le 8) vs) = concat (map (to_le 4) (concat (map (\<lambda>v. [word_half v False, word_half v True]) vs)))" for vs
    by (induction vs) (simp_all add: to_le_halves)
  then show ?thesis by (simp add: data_bytes_def data_words_def to_le_halves)
qed

lemma slice_words: "j < length ws \<Longrightarrow> slice (4 * j) (4 * j + 4) (concat (map (to_le 4) ws)) = to_le 4 (ws ! j)"
  for ws :: "u32 list"
proof (induction ws arbitrary: j)
  case Nil
  then show ?case by simp
next
  case (Cons w ws)
  show ?case
  proof (cases j)
    case 0
    then show ?thesis by (simp add: wire_simps)
  next
    case (Suc k)
    with Cons.IH [of k] Cons.prems show ?thesis by (simp add: slice_append_right add.commute)
  qed
qed

lemma word_nth:
  assumes "length (sd_args d) = 6" and "j < 16"
  shows "SeccompData_word d (of_nat (4 * j)) = Some (data_words d ! j)"
proof -
  obtain a b c e f g where args: "sd_args d = [a, b, c, e, f, g]"
    using assms(1) by (auto simp: length_Suc_conv numeral_eq_Suc)
  have "j \<in> {0, 1, 2, 3, 4, 5, 6, 7, 8, 9, 10, 11, 12, 13, 14, 15}"
    using assms(2) unfolding insert_iff empty_iff by presburger
  then show ?thesis
    by (elim insertE emptyE; simp add: SeccompData_word_def data_words_def args Let_def)
qed

lemma seccomp_word:
  assumes "length (sd_args d) = 6"
  shows "SeccompData_word d off =
    (if unat off mod 4 = 0 \<and> unat off < 64 then Some (from_le (slice (unat off) (unat off + 4) (data_bytes d))) else None)"
proof -
  have c: "off mod 4 = 0 \<longleftrightarrow> unat off mod 4 = 0" "off \<ge> 64 \<longleftrightarrow> \<not> unat off < 64"
    by (simp_all add: word_unat_eq_iff unat_mod word_le_nat_alt not_less)
  show ?thesis
  proof (cases "unat off mod 4 = 0 \<and> unat off < 64")
    case False
    then show ?thesis using c by (auto simp: SeccompData_word_def)
  next
    case True
    define j where "j = unat off div 4"
    have j: "unat off = 4 * j" "j < 16"
      using True mult_div_mod_eq [of 4 "unat off"] by (simp_all add: j_def less_mult_imp_div_less)
    then have "off = of_nat (4 * j)"
      using unat_of_nat_lt [of "4 * j", where 'a = 32] by (simp add: word_unat_eq_iff)
    moreover have "length (data_words d) = 16"
    proof -
      have "length (concat (map (\<lambda>v. [word_half v False, word_half v True]) vs)) = 2 * length vs" for vs
        by (induction vs) simp_all
      then show ?thesis using assms by (simp add: data_words_def)
    qed
    ultimately show ?thesis
      using True j word_nth [OF assms j(2)] slice_words [of j "data_words d"]
      by (simp add: data_bytes_words from_to_le)
  qed
qed

section \<open>Examples\<close>

text \<open>The jump check of \<open>load\<close> accepts an unconditional jump to just behind the last instruction, although
  \<open>run\<close> says it cannot fall off the end; the run then kills the process.\<close>

lemma jump_past_end_accepted:
  "\<exists>f. Filter_load [\<lparr>i_code = 5, i_jt = 0, i_jf = 0, i_k = 1\<rparr>, \<lparr>i_code = 6, i_jt = 0, i_jf = 0, i_k = RET_ALLOW\<rparr>] = Ok f
     \<and> Filter_run f data = RET_KILL_PROCESS"
  by (simp add: Filter_load_def load_check_def Filter_run_def machine_init_def run_from.simps exec_insn_def
      bpf_codes ret_codes MAX_INSNS_def Let_def)


section \<open>Properties\<close>

text \<open>
  Property C19.  A filter always ends, after each of its instructions ran at most once.  The program counters a
  run visits increase strictly and stay inside the program, so a loaded filter executes at most 4096
  instructions whatever the data.\<close>

theorem filter_runs_forward:
  assumes "Filter_load insns = Ok f"
  shows "sorted_wrt (<) (run_pcs (f_insns f) data machine_init)
    \<and> set (run_pcs (f_insns f) data machine_init) \<subseteq> {..<length insns}
    \<and> length (run_pcs (f_insns f) data machine_init) \<le> 4096"
proof -
  let ?pcs = "run_pcs insns data machine_init"
  have s: "sorted_wrt (<) ?pcs" "set ?pcs \<subseteq> {..<length insns}"
    using run_pcs_forward [of insns data machine_init] by (auto simp: machine_init_def)
  then have "distinct ?pcs" by (simp add: strict_sorted_iff)
  then have "length ?pcs \<le> length insns"
    using s(2) by (metis card_lessThan card_mono distinct_card finite_lessThan)
  then show ?thesis using s Filter_load_Ok(1,3) [OF assms] by simp
qed

theorem filter_runs_forward_witness:
  "\<exists>f. Filter_load [\<lparr>i_code = 0x20, i_jt = 0, i_jf = 0, i_k = 0\<rparr>, \<lparr>i_code = 0x16, i_jt = 0, i_jf = 0, i_k = 0\<rparr>] = Ok f
     \<and> length (run_pcs (f_insns f) \<lparr>sd_nr = 1, sd_arch = 2, sd_ip = 3, sd_args = [0, 0, 0, 0, 0, 0]\<rparr> machine_init) \<le> 4096"
proof -
  let ?p = "[\<lparr>i_code = 0x20, i_jt = 0, i_jf = 0, i_k = 0\<rparr>, \<lparr>i_code = 0x16, i_jt = 0, i_jf = 0, i_k = 0\<rparr>]"
  have l: "Filter_load ?p = Ok \<lparr>f_insns = ?p\<rparr>"
    by (simp add: Filter_load_def load_check_def bpf_codes MAX_INSNS_def Let_def)
  from filter_runs_forward [OF l, of "\<lparr>sd_nr = 1, sd_arch = 2, sd_ip = 3, sd_args = [0, 0, 0, 0, 0, 0]\<rparr>"] l show ?thesis by blast
qed





text \<open>
  A filter sees the data block of the C layout.  The word at a byte offset exists exactly for
  the 16 aligned offsets below 64 and is the little-endian reading of the four bytes
  there of \<open>nr\<close>, \<open>arch\<close>, the instruction pointer and the six arguments laid out one after the other.\<close>

lemma filter_data_layout:
  assumes "length (sd_args d) = 6"
  shows "SeccompData_word d off =
    (if unat off mod 4 = 0 \<and> unat off < 64 then Some (from_le (slice (unat off) (unat off + 4) (data_bytes d))) else None)"
  by (rule seccomp_word [OF assms])

end
