(* ===== verification/Profiles.thy ===== *)
theory Profiles
  imports Interfaces
begin

text \<open>
  System-call profiles (\<open>crates/eurosandbox/src/syscalls.rs\<close>): which calls a sandboxed process may make
  and which paths a renderer may name.  System-call numbers and arguments are 64-bit words, paths
  are byte strings.
\<close>

datatype Profile = Full | Renderer | Strict | Utility | Euro | Driver

definition Profile_from_u8 :: "u8 \<Rightarrow> Profile" where
  "Profile_from_u8 v =
     (if v = 1 then Renderer else if v = 2 then Strict else if v = 3 then Utility
      else if v = 4 then Euro else if v = 5 then Driver else Full)"

fun Profile_as_u8 :: "Profile \<Rightarrow> u8" where
  "Profile_as_u8 Full = 0"
| "Profile_as_u8 Renderer = 1"
| "Profile_as_u8 Strict = 2"
| "Profile_as_u8 Utility = 3"
| "Profile_as_u8 Euro = 4"
| "Profile_as_u8 Driver = 5"

fun Profile_name :: "Profile \<Rightarrow> string" where
  "Profile_name Full = ''full''"
| "Profile_name Renderer = ''renderer''"
| "Profile_name Strict = ''strict''"
| "Profile_name Utility = ''utility''"
| "Profile_name Euro = ''euro''"
| "Profile_name Driver = ''driver''"
















section \<open>What the profiles refuse\<close>

lemma Profile_u8: "Profile_from_u8 (Profile_as_u8 p) = p"
  by (cases p) (simp_all add: Profile_from_u8_def)







section \<open>Properties\<close>







end
