(* ===== verification/Text.thy ===== *)
theory Text
  imports Prelude
begin

text \<open>
  The text operations of the standard library that the sources use.  A Rust string is the list of its
  UTF-8 bytes, a byte being a \<open>char\<close>: splitting, trimming, joining, decimal numbers and the validity
  check of \<open>str::from_utf8\<close>.
\<close>

section \<open>Operations\<close>

text \<open>\<open>str::split\<close> with a character: one piece more than there are separators.\<close>

fun str_split :: "char \<Rightarrow> string \<Rightarrow> string list" where
  "str_split c [] = [[]]"
| "str_split c (x # xs) =
     (if x = c then [] # str_split c xs
      else case str_split c xs of [] \<Rightarrow> [[x]] | p # ps \<Rightarrow> (x # p) # ps)"

fun str_join :: "char \<Rightarrow> string list \<Rightarrow> string" where
  "str_join c [] = []"
| "str_join c [p] = p"
| "str_join c (p # q # ps) = p @ c # str_join c (q # ps)"

fun split_once :: "char \<Rightarrow> string \<Rightarrow> (string \<times> string) option" where
  "split_once c [] = None"
| "split_once c (x # xs) = (if x = c then Some ([], xs) else map_option (apfst (Cons x)) (split_once c xs))"

definition rsplit_once :: "char \<Rightarrow> string \<Rightarrow> (string \<times> string) option" where
  "rsplit_once c s = map_option (\<lambda>(a, b). (rev b, rev a)) (split_once c (rev s))"

definition trim_end :: "char \<Rightarrow> string \<Rightarrow> string" where
  "trim_end c s = rev (dropWhile (\<lambda>x. x = c) (rev s))"

text \<open>\<open>str::lines\<close>: a line ends at a line feed, and a carriage return before it is dropped; there is
  no empty line after the last line feed.\<close>

definition LF :: char where "LF = CHR 0x0A"
definition CR :: char where "CR = CHR 0x0D"

definition strip_cr :: "string \<Rightarrow> string" where
  "strip_cr s = (if s \<noteq> [] \<and> last s = CR then butlast s else s)"

definition str_lines :: "string \<Rightarrow> string list" where
  "str_lines s = (let ps = str_split LF s
     in map strip_cr (butlast ps) @ (if last ps = [] then [] else [last ps]))"

definition digit :: "nat \<Rightarrow> char" where "digit d = char_of (48 + d)"

fun decimal :: "nat \<Rightarrow> string" where
  "decimal n = (if n < 10 then [digit n] else decimal (n div 10) @ [digit (n mod 10)])"

declare decimal.simps [simp del]

text \<open>\<open>str::parse\<close> for an unsigned type: an optional plus sign, then at least one digit; a value that
  does not fit is an error.\<close>

definition digits_value :: "string \<Rightarrow> nat option" where
  "digits_value s = (if s \<noteq> [] \<and> list_all (\<lambda>c. 48 \<le> (of_char c :: nat) \<and> (of_char c :: nat) \<le> 57) s
     then Some (foldl (\<lambda>n c. 10 * n + (of_char c - 48)) 0 s) else None)"

definition parse_uint :: "string \<Rightarrow> 'a::len word option" where
  "parse_uint s =
     (case digits_value (if s \<noteq> [] \<and> hd s = CHR ''+'' then tl s else s) of
        None \<Rightarrow> None
      | Some n \<Rightarrow> if n < 2 ^ LENGTH('a) then Some (of_nat n) else None)"

definition is_cont :: "u8 \<Rightarrow> bool" where "is_cont b \<longleftrightarrow> 0x80 \<le> b \<and> b \<le> 0xBF"

text \<open>The first continuation byte after a lead byte of three or four bytes is restricted further, which
  excludes overlong forms, surrogates and code points past the last.\<close>

definition second3 :: "u8 \<Rightarrow> u8 \<Rightarrow> bool" where
  "second3 b c \<longleftrightarrow> is_cont c \<and> (b = 0xE0 \<longrightarrow> 0xA0 \<le> c) \<and> (b = 0xED \<longrightarrow> c \<le> 0x9F)"

definition second4 :: "u8 \<Rightarrow> u8 \<Rightarrow> bool" where
  "second4 b c \<longleftrightarrow> is_cont c \<and> (b = 0xF0 \<longrightarrow> 0x90 \<le> c) \<and> (b = 0xF4 \<longrightarrow> c \<le> 0x8F)"

fun utf8_valid :: "bytes \<Rightarrow> bool" where
  "utf8_valid [] \<longleftrightarrow> True"
| "utf8_valid (b # bs) \<longleftrightarrow>
     (if b \<le> 0x7F then utf8_valid bs
      else if 0xC2 \<le> b \<and> b \<le> 0xDF then (case bs of c # r \<Rightarrow> is_cont c \<and> utf8_valid r | _ \<Rightarrow> False)
      else if 0xE0 \<le> b \<and> b \<le> 0xEF then
        (case bs of c # d # r \<Rightarrow> second3 b c \<and> is_cont d \<and> utf8_valid r | _ \<Rightarrow> False)
      else if 0xF0 \<le> b \<and> b \<le> 0xF4 then
        (case bs of c # d # e # r \<Rightarrow> second4 b c \<and> is_cont d \<and> is_cont e \<and> utf8_valid r | _ \<Rightarrow> False)
      else False)"

declare utf8_valid.simps(2) [simp del]

definition as_bytes :: "string \<Rightarrow> bytes" where "as_bytes s = map (\<lambda>c. of_nat (of_char c)) s"

definition from_utf8 :: "bytes \<Rightarrow> string option" where
  "from_utf8 bs = (if utf8_valid bs then Some (map (\<lambda>b. char_of (unat b)) bs) else None)"

section \<open>Splitting and joining\<close>

lemma str_split_not_Nil [simp]: "str_split c s \<noteq> []"
  by (induction s) (auto split: list.splits)

lemma str_split_no_sep: "p \<in> set (str_split c s) \<Longrightarrow> c \<notin> set p"
proof (induction s arbitrary: p)
  case Nil
  then show ?case by simp
next
  case (Cons x s)
  then show ?case by (auto split: if_splits list.splits)
qed

lemma str_split_plain: "c \<notin> set p \<Longrightarrow> str_split c p = [p]"
  by (induction p) auto

lemma str_split_append: "c \<notin> set p \<Longrightarrow> str_split c (p @ c # s) = p # str_split c s"
  by (induction p) auto

lemma str_split_join:
  "ps \<noteq> [] \<Longrightarrow> (\<And>p. p \<in> set ps \<Longrightarrow> c \<notin> set p) \<Longrightarrow> str_split c (str_join c ps) = ps"
  by (induction c ps rule: str_join.induct) (simp_all add: str_split_plain str_split_append)

lemma split_once_append: "c \<notin> set k \<Longrightarrow> split_once c (k @ c # v) = Some (k, v)"
  by (induction k) auto

lemma rsplit_once_append: "c \<notin> set p \<Longrightarrow> rsplit_once c (h @ c # p) = Some (h, p)"
  using split_once_append [of c "rev p" "rev h"] by (simp add: rsplit_once_def)

definition clean_line :: "string \<Rightarrow> bool" where
  "clean_line l \<longleftrightarrow> LF \<notin> set l \<and> (l \<noteq> [] \<longrightarrow> last l \<noteq> CR)"

lemma str_lines_concat:
  assumes "\<And>l. l \<in> set ls \<Longrightarrow> clean_line l"
  shows "str_lines (concat (map (\<lambda>l. l @ [LF]) ls)) = ls"
proof -
  have "str_split LF (concat (map (\<lambda>l. l @ [LF]) ls)) = ls @ [[]]"
    using assms by (induction ls) (simp_all add: str_split_append clean_line_def)
  moreover have "map strip_cr ls = ls"
    using assms by (intro map_idI) (auto simp: strip_cr_def clean_line_def)
  ultimately show ?thesis by (simp add: str_lines_def)
qed

section \<open>Decimal numbers\<close>

lemma of_char_digit: "d < 10 \<Longrightarrow> (of_char (digit d) :: nat) = 48 + d"
  by (simp add: digit_def)

lemma decimal_not_Nil [simp]: "decimal n \<noteq> []"
  by (subst decimal.simps) simp

lemma decimal_digits: "c \<in> set (decimal n) \<Longrightarrow> \<exists>d<10. c = digit d"
proof (induction n rule: decimal.induct)
  case (1 n)
  have last: "\<exists>d<10. digit (n mod 10) = digit d" by (rule exI [of _ "n mod 10"]) simp
  show ?case
  proof (cases "n < 10")
    case True
    then show ?thesis using "1.prems" by (subst (asm) decimal.simps) auto
  next
    case False
    then have "c \<in> set (decimal (n div 10)) \<or> c = digit (n mod 10)"
      using "1.prems" by (subst (asm) decimal.simps) auto
    then show ?thesis using "1.IH" [OF False] last by blast
  qed
qed

lemma decimal_value: "foldl (\<lambda>n c. 10 * n + (of_char c - 48)) 0 (decimal n) = n"
proof (induction n rule: decimal.induct)
  case (1 n)
  then show ?case by (subst decimal.simps) (simp add: of_char_digit)
qed

lemma digits_value_decimal: "digits_value (decimal n) = Some n"
proof -
  have "list_all (\<lambda>c. 48 \<le> (of_char c :: nat) \<and> (of_char c :: nat) \<le> 57) (decimal n)"
    by (auto simp: list_all_iff of_char_digit dest!: decimal_digits)
  then show ?thesis by (simp add: digits_value_def decimal_value)
qed

lemma not_in_decimal:
  assumes "(of_char c :: nat) < 48 \<or> (of_char c :: nat) > 57"
  shows "c \<notin> set (decimal n)"
  using assms by (auto simp: of_char_digit dest!: decimal_digits)

lemma parse_uint_decimal: "n < 2 ^ LENGTH('a) \<Longrightarrow> parse_uint (decimal n) = Some (of_nat n :: 'a::len word)"
proof -
  assume n: "n < 2 ^ LENGTH('a)"
  have "CHR ''+'' \<notin> set (decimal n)" by (rule not_in_decimal) simp
  then have "hd (decimal n) \<noteq> CHR ''+''" by (metis decimal_not_Nil hd_in_set)
  then show ?thesis using n by (simp add: parse_uint_def digits_value_decimal)
qed

lemma parse_uint_unat: "parse_uint (decimal (unat w)) = Some (w :: 'a::len word)"
  using parse_uint_decimal [of "unat w", where 'a = 'a] by (simp add: unat_lt)

section \<open>UTF-8\<close>

lemma utf8_valid_ascii1: "x \<le> 0x7F \<Longrightarrow> utf8_valid (x # bs) = utf8_valid bs"
  by (simp add: utf8_valid.simps(2))

lemma utf8_valid_cases:
  assumes "utf8_valid (x # bs)"
  obtains (one) "x \<le> 0x7F" "utf8_valid bs"
  | (more) p r where "bs = p @ r" "utf8_valid r" "\<And>r'. utf8_valid (x # p @ r') = utf8_valid r'"
proof (cases "x \<le> 0x7F")
  case True
  then show ?thesis using assms one utf8_valid_ascii1 by simp
next
  case lead: False
  note eq = utf8_valid.simps(2) [of x] if_not_P [OF lead]
  show ?thesis
  proof (cases "0xC2 \<le> x \<and> x \<le> 0xDF")
    case True
    then obtain c r where "bs = c # r" "is_cont c" "utf8_valid r"
      using assms unfolding eq if_P [OF True] by (auto split: list.splits)
    then show ?thesis using more [of "[c]" r] unfolding eq if_P [OF True] by simp
  next
    case two: False
    note eq = eq if_not_P [OF two]
    show ?thesis
    proof (cases "0xE0 \<le> x \<and> x \<le> 0xEF")
      case True
      then obtain c d r where "bs = c # d # r" "second3 x c" "is_cont d" "utf8_valid r"
        using assms unfolding eq if_P [OF True] by (auto split: list.splits)
      then show ?thesis using more [of "[c, d]" r] unfolding eq if_P [OF True] by simp
    next
      case three: False
      note eq = eq if_not_P [OF three]
      show ?thesis
      proof (cases "0xF0 \<le> x \<and> x \<le> 0xF4")
        case True
        then obtain c d e r where "bs = c # d # e # r" "second4 x c" "is_cont d" "is_cont e" "utf8_valid r"
          using assms unfolding eq if_P [OF True] by (auto split: list.splits)
        then show ?thesis using more [of "[c, d, e]" r] unfolding eq if_P [OF True] by simp
      next
        case False
        then show ?thesis using assms unfolding eq if_not_P [OF False] by simp
      qed
    qed
  qed
qed

lemma utf8_valid_append: "utf8_valid a \<Longrightarrow> utf8_valid b \<Longrightarrow> utf8_valid (a @ b)"
proof (induction a rule: length_induct)
  case (1 a)
  show ?case
  proof (cases a)
    case Nil
    then show ?thesis using 1 by simp
  next
    case (Cons x bs)
    then have "utf8_valid (x # bs)" using 1 by simp
    then show ?thesis
    proof (cases rule: utf8_valid_cases)
      case one
      then show ?thesis using 1 Cons utf8_valid_ascii1 by (metis append_Cons length_Cons lessI)
    next
      case (more p r)
      then have "utf8_valid (r @ b)" using 1 Cons by simp
      then show ?thesis using more(3) [of "r @ b"] more(1) Cons by (metis append_Cons append_assoc)
    qed
  qed
qed

lemma utf8_valid_ascii: "(\<And>b. b \<in> set bs \<Longrightarrow> b \<le> 0x7F) \<Longrightarrow> utf8_valid bs"
  by (induction bs) (simp_all add: utf8_valid_ascii1)

lemma as_bytes_append: "as_bytes (a @ b) = as_bytes a @ as_bytes b"
  by (simp add: as_bytes_def)

lemma char_of_of_char_word: "char_of (unat (of_nat (of_char c) :: u8)) = c"
proof -
  have "(of_char c :: nat) < 256" by (rule nat_of_char_less_256)
  then show ?thesis by (simp add: unat_of_nat_lt)
qed

lemma from_utf8_as_bytes: "utf8_valid (as_bytes s) \<Longrightarrow> from_utf8 (as_bytes s) = Some s"
  by (simp add: from_utf8_def as_bytes_def char_of_of_char_word o_def)

end
