(* ===== verification/Sandbox.thy ===== *)
theory Sandbox
  imports Interfaces Text "HOL-Library.List_Lexorder" "HOL-Library.Char_ord"
begin

text \<open>
  Containers (\<open>crates/eurosandbox/src\<close>): path confinement and network scope (\<open>lib.rs\<close>), the copy-on-write
  overlay (\<open>overlay.rs\<close>), resource accounting (\<open>limits.rs\<close>) and per-process resource limits
  (\<open>rlimits.rs\<close>).  A \<open>BTreeSet\<close> is a set and is listed in lexicographic order; the counters are machine
  words, whose \<open>+\<close> wraps as in a release build.
\<close>

section \<open>Containers\<close>

datatype NetScope = NoNet | AllowNet "(bytes \<times> u16) list" | AnyNet

record Container =
  ct_name :: string
  ct_root :: string
  ct_caps :: u64
  ct_net :: NetScope


definition effective_caps :: "Container \<Rightarrow> u64 \<Rightarrow> u64" where
  "effective_caps c base = base AND ct_caps c"

definition allow_connect :: "Container \<Rightarrow> bytes \<Rightarrow> u16 \<Rightarrow> bool" where
  "allow_connect c ip port = (case ct_net c of
      NoNet \<Rightarrow> False
    | AnyNet \<Rightarrow> True
    | AllowNet xs \<Rightarrow> list_ex (\<lambda>(a, p). a = ip \<and> p = port) xs)"




section \<open>The overlay\<close>

datatype Layer = Upper | Lower | Whiteout | Absent

record Overlay =
  ov_upper :: "string set"
  ov_whiteouts :: "string set"

definition Overlay_new :: Overlay where
  "Overlay_new = \<lparr>ov_upper = {}, ov_whiteouts = {}\<rparr>"

definition norm :: "string \<Rightarrow> string" where
  "norm path =
     (let trimmed = trim_end (CHR ''/'') path
      in if trimmed = [] then ''/''
         else if hd trimmed = CHR ''/'' then trimmed
         else ''/'' @ trimmed)"

definition resolve_read :: "Overlay \<Rightarrow> string \<Rightarrow> bool \<Rightarrow> Layer" where
  "resolve_read v path in_lower =
     (let p = norm path
      in if p \<in> ov_whiteouts v then Whiteout
         else if p \<in> ov_upper v then Upper
         else if in_lower then Lower
         else Absent)"

definition on_write :: "string \<Rightarrow> Overlay \<Rightarrow> Overlay" where
  "on_write path v =
     (let p = norm path
      in v\<lparr>ov_whiteouts := ov_whiteouts v - {p}, ov_upper := insert p (ov_upper v)\<rparr>)"

definition on_delete :: "string \<Rightarrow> Overlay \<Rightarrow> Overlay" where
  "on_delete path v =
     (let p = norm path
      in v\<lparr>ov_upper := ov_upper v - {p}, ov_whiteouts := insert p (ov_whiteouts v)\<rparr>)"

definition is_deleted :: "Overlay \<Rightarrow> string \<Rightarrow> bool" where
  "is_deleted v path \<longleftrightarrow> norm path \<in> ov_whiteouts v"

definition diff :: "Overlay \<Rightarrow> string list" where
  "diff v = sorted_list_of_set (ov_upper v)"

section \<open>Resource accounting\<close>

record ResourceLimits =
  max_mem_bytes :: u64
  max_pids :: u32
  max_cpu_ms :: u64
  max_wall_ms :: u64

record Usage =
  us_mem_bytes :: u64
  us_pids :: u32
  us_cpu_ms :: u64
  us_wall_ms :: u64

datatype LimitBreach = Memory | Pids | Cpu | Wall

definition check_alloc :: "Usage \<Rightarrow> ResourceLimits \<Rightarrow> u64 \<Rightarrow> u32 \<Rightarrow> (unit, LimitBreach) result" where
  "check_alloc u limits mem pids =
     (if max_mem_bytes limits \<noteq> 0 \<and> us_mem_bytes u + mem > max_mem_bytes limits then Err Memory
      else if max_pids limits \<noteq> 0 \<and> us_pids u + pids > max_pids limits then Err Pids
      else Ok ())"

definition charge :: "u64 \<Rightarrow> u32 \<Rightarrow> Usage \<Rightarrow> Usage" where
  "charge mem pids u = u\<lparr>us_mem_bytes := us_mem_bytes u + mem, us_pids := us_pids u + pids\<rparr>"

definition Usage_release :: "u64 \<Rightarrow> u32 \<Rightarrow> Usage \<Rightarrow> Usage" where
  "Usage_release mem pids u =
     u\<lparr>us_mem_bytes := saturating_sub (us_mem_bytes u) mem, us_pids := saturating_sub (us_pids u) pids\<rparr>"

definition Usage_tick :: "ResourceLimits \<Rightarrow> u64 \<Rightarrow> u64 \<Rightarrow> Usage \<Rightarrow> (unit, LimitBreach) result \<times> Usage" where
  "Usage_tick limits cpu_ms wall_ms u =
     (let u = u\<lparr>us_cpu_ms := us_cpu_ms u + cpu_ms, us_wall_ms := us_wall_ms u + wall_ms\<rparr>
      in if max_cpu_ms limits \<noteq> 0 \<and> us_cpu_ms u > max_cpu_ms limits then (Err Cpu, u)
         else if max_wall_ms limits \<noteq> 0 \<and> us_wall_ms u > max_wall_ms limits then (Err Wall, u)
         else (Ok (), u))"

section \<open>Process limits\<close>

definition RLIMIT_NPROC :: nat where "RLIMIT_NPROC = 6"
definition RLIM_NLIMITS :: nat where "RLIM_NLIMITS = 16"

record Limits =
  l_cur :: "u64 list"
  l_max :: "u64 list"

datatype LimitError = Invalid | Perm


definition Limits_get :: "Limits \<Rightarrow> u32 \<Rightarrow> (u64 \<times> u64, LimitError) result" where
  "Limits_get l resource =
     (let r = unat resource in if r \<ge> RLIM_NLIMITS then Err Invalid else Ok (l_cur l ! r, l_max l ! r))"



definition tasks_exceed :: "Limits \<Rightarrow> u64 \<Rightarrow> bool" where
  "tasks_exceed l tasks_now \<longleftrightarrow> tasks_now \<ge> l_cur l ! RLIMIT_NPROC"

section \<open>Paths stay inside\<close>







section \<open>The overlay shows the last change\<close>

datatype overlay_op = Write string | Delete string

fun op_path :: "overlay_op \<Rightarrow> string" where
  "op_path (Write p) = norm p"
| "op_path (Delete p) = norm p"

fun overlay_do :: "overlay_op \<Rightarrow> Overlay \<Rightarrow> Overlay" where
  "overlay_do (Write p) = on_write p"
| "overlay_do (Delete p) = on_delete p"

definition union_view :: "overlay_op list \<Rightarrow> string \<Rightarrow> bool \<Rightarrow> Layer" where
  "union_view ops path in_lower =
     (case List.find (\<lambda>w. op_path w = norm path) (rev ops) of
        Some (Write _) \<Rightarrow> Upper
      | Some (Delete _) \<Rightarrow> Whiteout
      | None \<Rightarrow> if in_lower then Lower else Absent)"

lemma overlay_sets:
  "ov_upper (fold overlay_do ops Overlay_new) = {p. \<exists>q. List.find (\<lambda>w. op_path w = p) (rev ops) = Some (Write q)}
   \<and> ov_whiteouts (fold overlay_do ops Overlay_new) = {p. \<exists>q. List.find (\<lambda>w. op_path w = p) (rev ops) = Some (Delete q)}"
proof (induction ops rule: rev_induct)
  case Nil
  then show ?case by (simp add: Overlay_new_def)
next
  case (snoc w ops)
  then show ?case by (cases w) (auto simp: on_write_def on_delete_def Let_def split: if_splits)
qed

lemma overlay_view: "resolve_read (fold overlay_do ops Overlay_new) path in_lower = union_view ops path in_lower"
proof (cases "List.find (\<lambda>w. op_path w = norm path) (rev ops)")
  case None
  then show ?thesis by (simp add: resolve_read_def union_view_def overlay_sets Let_def)
next
  case (Some w)
  then show ?thesis by (cases w) (simp_all add: resolve_read_def union_view_def overlay_sets Let_def)
qed

section \<open>Limits\<close>

lemma check_alloc_nat:
  assumes "unat (us_mem_bytes u) + unat mem < 2 ^ 64" and "unat (us_pids u) + unat pids < 2 ^ 32"
  shows "check_alloc u limits mem pids = Ok () \<longleftrightarrow>
    (max_mem_bytes limits = 0 \<or> unat (us_mem_bytes u) + unat mem \<le> unat (max_mem_bytes limits))
    \<and> (max_pids limits = 0 \<or> unat (us_pids u) + unat pids \<le> unat (max_pids limits))"
  using assms by (auto simp: check_alloc_def word_less_nat_alt unat_add_lt not_less)






section \<open>Properties\<close>



text \<open>
  Property C35.  The overlay shows the last change of every path.  After any sequence of writes and deletions, a
  read of a path resolves to the upper layer when the last operation on it was a write, to a
  whiteout when it was a deletion, and to the image otherwise; the container's diff lists
  in order the paths whose last operation was a write.\<close>

theorem overlay_shows_last_change:
  "resolve_read (fold overlay_do ops Overlay_new) path in_lower = union_view ops path in_lower
   \<and> diff (fold overlay_do ops Overlay_new)
     = sorted_list_of_set {p. \<exists>q. List.find (\<lambda>w. op_path w = p) (rev ops) = Some (Write q)}"
  by (simp add: overlay_view diff_def overlay_sets)

text \<open>
  Property C37.  Accounting is exact up to overflow.  As long as the sums fit their words, \<open>check_alloc\<close> accepts
  exactly the requests that keep memory and process count within the limits that are set; but the
  sums are not checked, so a request that overflows the 64-bit sum is accepted although it exceeds the
  limit by far.\<close>

theorem accounting_exact_up_to_overflow:
  "(unat (us_mem_bytes u) + unat mem < 2 ^ 64 \<and> unat (us_pids u) + unat pids < 2 ^ 32 \<longrightarrow>
     (check_alloc u limits mem pids = Ok () \<longleftrightarrow>
        (max_mem_bytes limits = 0 \<or> unat (us_mem_bytes u) + unat mem \<le> unat (max_mem_bytes limits))
        \<and> (max_pids limits = 0 \<or> unat (us_pids u) + unat pids \<le> unat (max_pids limits))))
   \<and> check_alloc \<lparr>us_mem_bytes = 4096, us_pids = 1, us_cpu_ms = 0, us_wall_ms = 0\<rparr>
       \<lparr>max_mem_bytes = 8192, max_pids = 8, max_cpu_ms = 0, max_wall_ms = 0\<rparr> (- 4096) 0 = Ok ()
   \<and> unat (4096 :: u64) + unat (- 4096 :: u64) > unat (8192 :: u64)"
  using check_alloc_nat [of u mem pids limits]
  by (auto simp: check_alloc_def)

theorem accounting_exact_up_to_overflow_witness:
  "check_alloc \<lparr>us_mem_bytes = 4096, us_pids = 1, us_cpu_ms = 0, us_wall_ms = 0\<rparr>
       \<lparr>max_mem_bytes = 8192, max_pids = 8, max_cpu_ms = 0, max_wall_ms = 0\<rparr> 4096 1 = Ok ()"
  using accounting_exact_up_to_overflow [of "\<lparr>us_mem_bytes = 4096, us_pids = 1, us_cpu_ms = 0, us_wall_ms = 0\<rparr>"
      4096 1 "\<lparr>max_mem_bytes = 8192, max_pids = 8, max_cpu_ms = 0, max_wall_ms = 0\<rparr>"]
  by simp



end
