(* ===== verification/Image.thy ===== *)
theory Image
  imports Sandbox
begin

text \<open>
  Signed container images (\<open>crates/eurosandbox/src/image.rs\<close>): the text manifest that names and
  constrains an image, and the check before the container runs.  The signature check is the function
  the caller passes, an argument here as there.
\<close>

section \<open>The manifest\<close>

record ImageManifest =
  im_name :: string
  im_caps :: u64
  im_limits :: ResourceLimits
  im_net :: "(string \<times> u16) list"
  im_rootfs :: string

definition net_entry :: "string \<times> u16 \<Rightarrow> string" where
  "net_entry = (\<lambda>(h, p). h @ '':'' @ decimal (unat p))"

definition limits_text :: "ResourceLimits \<Rightarrow> string" where
  "limits_text l =
     str_join (CHR '','') [decimal (unat (max_mem_bytes l)), decimal (unat (max_pids l)),
       decimal (unat (max_cpu_ms l)), decimal (unat (max_wall_ms l))]"

definition manifest_lines :: "ImageManifest \<Rightarrow> string list" where
  "manifest_lines m =
     [''name='' @ im_name m,
      ''caps='' @ decimal (unat (im_caps m)),
      ''limits='' @ limits_text (im_limits m),
      ''net='' @ str_join (CHR '','') (sort (map net_entry (im_net m))),
      ''rootfs='' @ im_rootfs m]"

definition ImageManifest_to_bytes :: "ImageManifest \<Rightarrow> bytes" where
  "ImageManifest_to_bytes m = as_bytes (concat (map (\<lambda>l. l @ [LF]) (manifest_lines m)))"

text \<open>The locals of the parser and one line of its loop; \<open>None\<close> is the \<open>?\<close> on a line without \<open>=\<close>.\<close>

record parser =
  p_name :: "string option"
  p_caps :: "u64 option"
  p_limits :: ResourceLimits
  p_net :: "(string \<times> u16) list"
  p_rootfs :: "string option"

definition ResourceLimits_default :: ResourceLimits where
  "ResourceLimits_default = \<lparr>max_mem_bytes = 0, max_pids = 0, max_cpu_ms = 0, max_wall_ms = 0\<rparr>"

definition parser_init :: parser where
  "parser_init = \<lparr>p_name = None, p_caps = None, p_limits = ResourceLimits_default, p_net = [], p_rootfs = None\<rparr>"

definition parse_limits :: "string \<Rightarrow> ResourceLimits option" where
  "parse_limits v =
     (let p = List.map_filter (parse_uint :: string \<Rightarrow> u64 option) (str_split (CHR '','') v)
      in if length p = 4
         then Some \<lparr>max_mem_bytes = p ! 0, max_pids = ucast (p ! 1), max_cpu_ms = p ! 2, max_wall_ms = p ! 3\<rparr>
         else None)"

definition parse_pair :: "string \<Rightarrow> (string \<times> u16) option" where
  "parse_pair pair = (case rsplit_once (CHR '':'') pair of
      None \<Rightarrow> None
    | Some (h, port) \<Rightarrow> (case parse_uint port of None \<Rightarrow> None | Some pn \<Rightarrow> Some (h, pn)))"

definition parse_net :: "string \<Rightarrow> (string \<times> u16) list" where
  "parse_net v = List.map_filter parse_pair (filter (\<lambda>s. s \<noteq> []) (str_split (CHR '','') v))"

definition parse_line :: "string \<Rightarrow> parser \<Rightarrow> parser option" where
  "parse_line line st = (case split_once (CHR ''='') line of
      None \<Rightarrow> None
    | Some (k, v) \<Rightarrow> Some
       (if k = ''name'' then st\<lparr>p_name := Some v\<rparr>
        else if k = ''caps'' then st\<lparr>p_caps := parse_uint v\<rparr>
        else if k = ''limits'' then (case parse_limits v of None \<Rightarrow> st | Some l \<Rightarrow> st\<lparr>p_limits := l\<rparr>)
        else if k = ''net'' then st\<lparr>p_net := p_net st @ parse_net v\<rparr>
        else if k = ''rootfs'' then st\<lparr>p_rootfs := Some v\<rparr>
        else st))"

fun parse_lines :: "string list \<Rightarrow> parser \<Rightarrow> parser option" where
  "parse_lines [] st = Some st"
| "parse_lines (l # ls) st = (case parse_line l st of None \<Rightarrow> None | Some st' \<Rightarrow> parse_lines ls st')"

definition ImageManifest_from_bytes :: "bytes \<Rightarrow> ImageManifest option" where
  "ImageManifest_from_bytes data = (case from_utf8 data of
      None \<Rightarrow> None
    | Some text \<Rightarrow> (case parse_lines (str_lines text) parser_init of
        None \<Rightarrow> None
      | Some st \<Rightarrow> (case (p_name st, p_caps st, p_rootfs st) of
          (Some n, Some c, Some r) \<Rightarrow>
            Some \<lparr>im_name = n, im_caps = c, im_limits = p_limits st, im_net = p_net st, im_rootfs = r\<rparr>
        | _ \<Rightarrow> None)))"

section \<open>Verification\<close>

record SignedImage =
  si_manifest :: bytes
  si_signature :: bytes

datatype ImageError = BadSignature | BadManifest | RootfsMismatch

definition verify_image ::
    "SignedImage \<Rightarrow> (bytes \<Rightarrow> bytes \<Rightarrow> bool) \<Rightarrow> string option \<Rightarrow> (ImageManifest, ImageError) result" where
  "verify_image img verify rootfs_hash_hex =
     (if \<not> verify (si_manifest img) (si_signature img) then Err BadSignature
      else case ImageManifest_from_bytes (si_manifest img) of
        None \<Rightarrow> Err BadManifest
      | Some manifest \<Rightarrow> (case rootfs_hash_hex of
          None \<Rightarrow> Ok manifest
        | Some h \<Rightarrow> if h \<noteq> im_rootfs manifest then Err RootfsMismatch else Ok manifest))"

section \<open>Reading back what was written\<close>

text \<open>What the text form can carry: name and hash are single lines, host names neither contain a comma nor
  a line break, all of it is text, and the network entries stand in the order the writer sorts
  them into.\<close>

definition text_ok :: "string \<Rightarrow> bool" where
  "text_ok s \<longleftrightarrow> utf8_valid (as_bytes s)"

definition manifest_ok :: "ImageManifest \<Rightarrow> bool" where
  "manifest_ok m \<longleftrightarrow> clean_line (''name='' @ im_name m) \<and> text_ok (im_name m)
     \<and> clean_line (''rootfs='' @ im_rootfs m) \<and> text_ok (im_rootfs m)
     \<and> list_all (\<lambda>(h, p). CHR '','' \<notin> set h \<and> LF \<notin> set h \<and> text_ok h) (im_net m)
     \<and> sorted (map net_entry (im_net m))"

lemma text_ok_append: "text_ok a \<Longrightarrow> text_ok b \<Longrightarrow> text_ok (a @ b)"
  by (simp add: text_ok_def as_bytes_append utf8_valid_append)

lemma text_ok_ascii: "list_all (\<lambda>c. (of_char c :: nat) < 128) s \<Longrightarrow> text_ok s"
  unfolding text_ok_def as_bytes_def
  by (rule utf8_valid_ascii) (auto simp: list_all_iff word_le_nat_alt unat_of_nat_lt)

lemma text_ok_decimal: "text_ok (decimal n)"
  by (rule text_ok_ascii) (auto simp: list_all_iff of_char_digit dest!: decimal_digits)

lemma text_ok_join: "(of_char c :: nat) < 128 \<Longrightarrow> (\<And>s. s \<in> set ss \<Longrightarrow> text_ok s) \<Longrightarrow> text_ok (str_join c ss)"
proof (induction c ss rule: str_join.induct)
  case (1 c)
  then show ?case by (simp add: text_ok_def as_bytes_def)
next
  case (2 c p)
  then show ?case by simp
next
  case (3 c p q ps)
  have "text_ok ([c] @ str_join c (q # ps))"
    using 3 by (intro text_ok_append [OF text_ok_ascii]) simp_all
  then show ?case using 3 by (simp add: text_ok_append)
qed

lemma text_ok_concat: "(\<And>s. s \<in> set ss \<Longrightarrow> text_ok s) \<Longrightarrow> text_ok (concat ss)"
  by (induction ss) (simp_all add: text_ok_append, simp add: text_ok_def as_bytes_def)

lemma in_str_join: "x \<in> set (str_join c ss) \<Longrightarrow> x = c \<or> (\<exists>s\<in>set ss. x \<in> set s)"
  by (induction c ss rule: str_join.induct) auto

lemma parse_limits_text: "parse_limits (limits_text l) = Some l"
proof -
  let ?ds = "[decimal (unat (max_mem_bytes l)), decimal (unat (max_pids l)),
       decimal (unat (max_cpu_ms l)), decimal (unat (max_wall_ms l))]"
  have split: "str_split (CHR '','') (limits_text l) = ?ds"
    unfolding limits_text_def by (rule str_split_join) (auto simp: not_in_decimal)
  have pids: "parse_uint (decimal (unat (max_pids l))) = Some (ucast (max_pids l) :: u64)"
    using parse_uint_decimal [of "unat (max_pids l)", where 'a = 64] unat_lt [of "max_pids l"]
    by (simp add: of_nat_unat)
  have "(ucast (ucast (max_pids l) :: u64) :: u32) = max_pids l"
    by (rule bit_word_eqI) (simp add: bit_simps)
  then show ?thesis
    unfolding parse_limits_def split by (simp add: List.map_filter_def parse_uint_unat pids)
qed

lemma parse_pair_entry: "parse_pair (net_entry e) = Some e"
proof (cases e)
  case (Pair h p)
  have "CHR '':'' \<notin> set (decimal (unat p))" by (rule not_in_decimal) simp
  then show ?thesis using rsplit_once_append [of "CHR '':''" "decimal (unat p)" h] Pair
    by (simp add: parse_pair_def net_entry_def parse_uint_unat)
qed

lemma net_entry_no_comma: "CHR '','' \<notin> set (fst e) \<Longrightarrow> CHR '','' \<notin> set (net_entry e)"
  by (cases e) (simp add: net_entry_def not_in_decimal)

lemma net_entry_not_Nil: "net_entry e \<noteq> []"
  by (cases e) (simp add: net_entry_def)

lemma map_filter_entries: "List.map_filter parse_pair (map net_entry es) = es"
  by (induction es) (simp_all add: List.map_filter_def parse_pair_entry)

lemma parse_net_text:
  assumes "\<And>e. e \<in> set es \<Longrightarrow> CHR '','' \<notin> set (fst e)"
  shows "parse_net (str_join (CHR '','') (map net_entry es)) = es"
proof (cases "es = []")
  case True
  then show ?thesis by (simp add: parse_net_def List.map_filter_def)
next
  case False
  have "str_split (CHR '','') (str_join (CHR '','') (map net_entry es)) = map net_entry es"
    using assms False by (intro str_split_join) (auto simp: net_entry_no_comma)
  moreover have "filter (\<lambda>s. s \<noteq> []) (map net_entry es) = map net_entry es"
    by (simp add: net_entry_not_Nil)
  ultimately show ?thesis by (simp only: parse_net_def map_filter_entries)
qed

lemma LF_not_CR: "LF \<noteq> CR"
  by (simp add: LF_def CR_def)

lemma not_in_decimal_breaks: "LF \<notin> set (decimal n)" "CR \<notin> set (decimal n)"
  by (rule not_in_decimal, simp add: LF_def CR_def)+

lemma no_breaks_clean: "LF \<notin> set l \<Longrightarrow> CR \<notin> set l \<Longrightarrow> clean_line l"
  by (metis clean_line_def last_in_set)

lemma limits_line_clean: "clean_line (''limits='' @ limits_text l)"
proof (rule no_breaks_clean)
  have "LF \<notin> set (limits_text l)" "CR \<notin> set (limits_text l)"
    unfolding limits_text_def by (auto dest!: in_str_join simp: not_in_decimal_breaks) (simp_all add: LF_def CR_def)
  then show "LF \<notin> set (''limits='' @ limits_text l)" "CR \<notin> set (''limits='' @ limits_text l)"
    by (simp_all add: LF_def CR_def)
qed

lemma last_net_entry: "last (net_entry e) \<noteq> CR"
proof (cases e)
  case (Pair h p)
  have "last (net_entry e) \<in> set (decimal (unat p))" using Pair by (simp add: net_entry_def)
  then show ?thesis using not_in_decimal_breaks by metis
qed

lemma last_str_join: "ss \<noteq> [] \<Longrightarrow> last ss \<noteq> [] \<Longrightarrow> last (str_join c ss) = last (last ss) \<and> str_join c ss \<noteq> []"
  by (induction c ss rule: str_join.induct) auto

lemma net_line_clean:
  assumes "\<And>e. e \<in> set es \<Longrightarrow> LF \<notin> set (fst e)"
  shows "clean_line (''net='' @ str_join (CHR '','') (map net_entry es))"
proof -
  have "LF \<notin> set (net_entry e)" if "e \<in> set es" for e
    using assms [OF that] by (cases e) (simp add: net_entry_def not_in_decimal_breaks, simp add: LF_def)
  then have lf: "LF \<notin> set (str_join (CHR '','') (map net_entry es))"
    by (auto dest!: in_str_join) (simp add: LF_def)
  have "last (''net='' @ str_join (CHR '','') (map net_entry es)) \<noteq> CR"
  proof (cases "es = []")
    case True
    then show ?thesis by (simp add: CR_def)
  next
    case False
    then show ?thesis
      using last_str_join [of "map net_entry es" "CHR '',''"] by (simp add: last_map net_entry_not_Nil last_net_entry)
  qed
  then show ?thesis using lf unfolding clean_line_def by (auto simp: LF_def)
qed

lemma manifest_okD:
  assumes "manifest_ok m"
  shows "sort (map net_entry (im_net m)) = map net_entry (im_net m)"
    and "\<And>e. e \<in> set (im_net m) \<Longrightarrow> CHR '','' \<notin> set (fst e) \<and> LF \<notin> set (fst e) \<and> text_ok (fst e)"
  using assms by (auto simp: manifest_ok_def list_all_iff sorted_sort_id)

lemma manifest_lines_clean:
  assumes "manifest_ok m" and "l \<in> set (manifest_lines m)"
  shows "clean_line l"
proof -
  have "clean_line (''caps='' @ decimal (unat (im_caps m)))"
    by (rule no_breaks_clean; simp add: not_in_decimal_breaks; simp add: LF_def CR_def)
  moreover have "clean_line (''net='' @ str_join (CHR '','') (sort (map net_entry (im_net m))))"
    unfolding manifest_okD(1) [OF assms(1)] by (rule net_line_clean) (use manifest_okD(2) [OF assms(1)] in blast)
  moreover have "clean_line (''name='' @ im_name m)" "clean_line (''rootfs='' @ im_rootfs m)"
    using assms(1) by (simp_all only: manifest_ok_def)
  ultimately show ?thesis
    using assms(2) limits_line_clean unfolding manifest_lines_def set_simps by blast
qed

lemma manifest_lines_text:
  assumes "manifest_ok m" and "l \<in> set (manifest_lines m)"
  shows "text_ok (l @ [LF])"
proof -
  have lf: "text_ok [LF]" by (rule text_ok_ascii) (simp add: LF_def)
  have "text_ok (net_entry e)" if "e \<in> set (im_net m)" for e
  proof -
    have "text_ok ('':'' @ decimal (unat (snd e)))"
      by (intro text_ok_append text_ok_decimal) (simp add: text_ok_ascii)
    then show ?thesis
      using manifest_okD(2) [OF assms(1) that] text_ok_append by (cases e) (simp add: net_entry_def)
  qed
  then have "text_ok (str_join (CHR '','') (sort (map net_entry (im_net m))))"
    unfolding manifest_okD(1) [OF assms(1)] by (intro text_ok_join) auto
  moreover have "text_ok (limits_text (im_limits m))"
    unfolding limits_text_def by (rule text_ok_join) (auto simp: text_ok_decimal)
  moreover have "text_ok ''name=''" "text_ok ''caps=''" "text_ok ''limits=''" "text_ok ''net=''" "text_ok ''rootfs=''"
    by (rule text_ok_ascii, simp)+
  moreover have "text_ok (im_name m)" "text_ok (im_rootfs m)"
    using assms(1) by (simp_all only: manifest_ok_def)
  ultimately have "text_ok l"
    using assms(2) text_ok_append text_ok_decimal unfolding manifest_lines_def set_simps by blast
  then show ?thesis using lf by (rule text_ok_append)
qed

lemma parse_line_key: "CHR ''='' \<notin> set k \<Longrightarrow> split_once (CHR ''='') (k @ ''='' @ v) = Some (k, v)"
  by (simp add: split_once_append)

lemma parse_manifest_lines:
  assumes "manifest_ok m"
  shows "parse_lines (manifest_lines m) parser_init
    = Some \<lparr>p_name = Some (im_name m), p_caps = Some (im_caps m), p_limits = im_limits m,
        p_net = im_net m, p_rootfs = Some (im_rootfs m)\<rparr>"
proof -
  have net: "parse_net (str_join (CHR '','') (sort (map net_entry (im_net m)))) = im_net m"
    unfolding manifest_okD(1) [OF assms] by (rule parse_net_text) (use manifest_okD(2) [OF assms] in blast)
  show ?thesis
    by (simp add: manifest_lines_def parse_line_def parser_init_def net parse_uint_unat parse_limits_text)
qed

lemma manifest_round_trip:
  assumes "manifest_ok m"
  shows "ImageManifest_from_bytes (ImageManifest_to_bytes m) = Some m"
proof -
  let ?t = "concat (map (\<lambda>l. l @ [LF]) (manifest_lines m))"
  have "text_ok ?t" by (rule text_ok_concat) (use manifest_lines_text [OF assms] in auto)
  then have "from_utf8 (ImageManifest_to_bytes m) = Some ?t"
    unfolding ImageManifest_to_bytes_def text_ok_def by (rule from_utf8_as_bytes)
  moreover have "str_lines ?t = manifest_lines m"
    using manifest_lines_clean [OF assms] by (rule str_lines_concat)
  ultimately show ?thesis
    by (simp add: ImageManifest_from_bytes_def parse_manifest_lines [OF assms])
qed

section \<open>Properties\<close>

text \<open>
  Property C34.  An image runs with the manifest that was signed.  For every manifest the text form can carry,
  parsing the serialized bytes gives the manifest back, and checking an image made of these bytes accepts it
  with exactly this manifest if the signature check accepts the bytes and the root file system
  has the signed hash; a failed signature is reported before anything is parsed, and a wrong root file system
  is refused.\<close>

theorem signed_manifest_decides:
  assumes "manifest_ok m"
  shows "ImageManifest_from_bytes (ImageManifest_to_bytes m) = Some m
    \<and> verify_image \<lparr>si_manifest = ImageManifest_to_bytes m, si_signature = sig\<rparr> verify (Some h)
      = (if \<not> verify (ImageManifest_to_bytes m) sig then Err BadSignature
         else if h \<noteq> im_rootfs m then Err RootfsMismatch else Ok m)"
  using manifest_round_trip [OF assms] by (simp add: verify_image_def)

theorem signed_manifest_decides_witness:
  "verify_image \<lparr>si_manifest = ImageManifest_to_bytes
        \<lparr>im_name = ''web'', im_caps = 5, im_limits = \<lparr>max_mem_bytes = 4096, max_pids = 8, max_cpu_ms = 0, max_wall_ms = 9\<rparr>,
          im_net = [(''a.eu'', 80), (''b.eu'', 443)], im_rootfs = ''ab12''\<rparr>, si_signature = [7]\<rparr>
     (\<lambda>data sig. sig = [7]) (Some ''ab12'')
   = Ok \<lparr>im_name = ''web'', im_caps = 5, im_limits = \<lparr>max_mem_bytes = 4096, max_pids = 8, max_cpu_ms = 0, max_wall_ms = 9\<rparr>,
          im_net = [(''a.eu'', 80), (''b.eu'', 443)], im_rootfs = ''ab12''\<rparr>"
proof -
  let ?m = "\<lparr>im_name = ''web'', im_caps = 5, im_limits = \<lparr>max_mem_bytes = 4096, max_pids = 8, max_cpu_ms = 0, max_wall_ms = 9\<rparr>,
          im_net = [(''a.eu'', 80), (''b.eu'', 443)], im_rootfs = ''ab12''\<rparr> :: ImageManifest"
  have "text_ok ''web''" "text_ok ''ab12''" "text_ok ''a.eu''" "text_ok ''b.eu''"
    by (rule text_ok_ascii, simp)+
  then have "manifest_ok ?m"
    by (simp add: manifest_ok_def clean_line_def LF_def CR_def net_entry_def less_eq_char_def)
  from signed_manifest_decides [OF this, of "[7]" "\<lambda>data sig. sig = [7]" "''ab12''"] show ?thesis by simp
qed

end
