(* ===== verification/Ipc.thy ===== *)
theory Ipc
  imports LockOrder Text
begin

text \<open>
  Inter-process communication (\<open>crates/euroipc/src/lib.rs\<close>): ports with bounded message queues and the audit
  ring.  Every operation is one step on the whole table; the processor's shard and the clock reading,
  which the code takes from the hardware, are arguments.  The channel an \<open>Arc\<close> points to is an element of
  the table, which is what every step below reads or replaces.
\<close>

section \<open>Channels\<close>

type_synonym message = "u64 \<times> bytes"

definition ESRCH :: int where "ESRCH = - 3"
definition EAGAIN :: int where "EAGAIN = - 11"
definition EPERM :: int where "EPERM = - 1"
definition MAX_QUEUE :: nat where "MAX_QUEUE = 256"

record Channel =
  ch_port :: u32
  ch_owner :: u64
  ch_restricted :: bool
  ch_only_from :: u64
  ch_queue :: "message list"

datatype RecvError = NoPort | Empty

fun RecvError_errno :: "RecvError \<Rightarrow> int" where
  "RecvError_errno NoPort = ESRCH"
| "RecvError_errno Empty = EAGAIN"

section \<open>The audit ring\<close>

datatype AuditEvent =
    Claimed (ev_pid: u64) (ev_port: u32) bool
  | Sent u64 u32 u64 u64
  | Refused u64 u32

fun AuditEvent_line :: "AuditEvent \<Rightarrow> string" where
  "AuditEvent_line (Claimed pid port restricted) =
     ''pid '' @ decimal (unat pid) @ '' claimed port '' @ decimal (unat port)
       @ (if restricted then '' (restricted)'' else '''')"
| "AuditEvent_line (Refused sender port) =
     ''pid '' @ decimal (unat sender) @ '' -> port '' @ decimal (unat port) @ '': REFUSED (restricted port)''"
| "AuditEvent_line (Sent sender port owner len) =
     ''pid '' @ decimal (unat sender) @ '' -> port '' @ decimal (unat port) @ '' (pid '' @ decimal (unat owner) @ ''): ''
       @ decimal (unat len) @ '' bytes''"

definition RING :: nat where "RING = 64"

text \<open>A slot is the seven words \<open>seq\<close>, \<open>stamp\<close>, \<open>kind\<close> and four fields.\<close>

record AuditRing =
  ar_head :: u64
  ar_slots :: "u64 list list"

definition AuditRing_new :: AuditRing where
  "AuditRing_new = \<lparr>ar_head = 0, ar_slots = replicate RING (replicate 7 0)\<rparr>"

fun event_fields :: "AuditEvent \<Rightarrow> u64 list" where
  "event_fields (Claimed pid port restricted) = [1, pid, ucast port, 0, if restricted then 1 else 0]"
| "event_fields (Sent sender port owner len) = [2, sender, ucast port, owner, len]"
| "event_fields (Refused sender port) = [3, sender, ucast port, 0, 0]"

definition AuditRing_push :: "u64 \<Rightarrow> AuditEvent \<Rightarrow> AuditRing \<Rightarrow> AuditRing" where
  "AuditRing_push stamp ev r =
     (let ticket = ar_head r
      in r\<lparr>ar_head := ticket + 1,
           ar_slots := (ar_slots r)[unat ticket mod RING := [2 * ticket + 2, stamp] @ event_fields ev]\<rparr>)"

definition event_of :: "u64 \<Rightarrow> u64 \<Rightarrow> u64 \<Rightarrow> u64 \<Rightarrow> u64 \<Rightarrow> AuditEvent" where
  "event_of k a b c d =
     (if k = 1 then Claimed a (ucast b) (d \<noteq> 0)
      else if k = 3 then Refused a (ucast b)
      else Sent a (ucast b) c d)"

definition read_slot :: "AuditRing \<Rightarrow> nat \<Rightarrow> (u64 \<times> AuditEvent) option" where
  "read_slot r ticket =
     (let s = ar_slots r ! (ticket mod RING)
      in if s ! 0 \<noteq> 2 * of_nat ticket + 2 then None
         else Some (s ! 1, event_of (s ! 2) (s ! 3) (s ! 4) (s ! 5) (s ! 6)))"

definition AuditRing_recent :: "AuditRing \<Rightarrow> nat \<Rightarrow> (u64 \<times> AuditEvent) list" where
  "AuditRing_recent r n =
     (let head = unat (ar_head r); n = min (min n head) RING
      in List.map_filter (read_slot r) [head - n..<head])"

section \<open>The table\<close>

record ChannelTable =
  ct_table :: "Channel list"
  ct_audit :: "AuditRing list"
  ct_sends :: "u64 list"
  dropped_full :: u64
  refused_sender :: u64

definition ChannelTable_new :: ChannelTable where
  "ChannelTable_new =
     \<lparr>ct_table = [], ct_audit = replicate SHARDS AuditRing_new, ct_sends = replicate SHARDS 0,
      dropped_full = 0, refused_sender = 0\<rparr>"

text \<open>The shard the processor is on and the reading of the clock.\<close>

type_synonym cpu_env = "nat \<times> u64"

definition audit :: "cpu_env \<Rightarrow> AuditEvent \<Rightarrow> ChannelTable \<Rightarrow> ChannelTable" where
  "audit env ev t =
     t\<lparr>ct_audit := (ct_audit t)[fst env := AuditRing_push (snd env) ev (ct_audit t ! fst env)]\<rparr>"

definition by_port :: "u32 \<Rightarrow> ChannelTable \<Rightarrow> Channel option" where
  "by_port port t = List.find (\<lambda>c. ch_port c = port) (ct_table t)"

definition by_owner :: "u64 \<Rightarrow> ChannelTable \<Rightarrow> Channel option" where
  "by_owner pid t = List.find (\<lambda>c. ch_owner c = pid) (ct_table t)"

text \<open>Writing through the reference a lookup returned.\<close>

definition with_channel :: "(Channel \<Rightarrow> bool) \<Rightarrow> (Channel \<Rightarrow> Channel) \<Rightarrow> ChannelTable \<Rightarrow> ChannelTable" where
  "with_channel P f t =
     (case position P (ct_table t) of
        None \<Rightarrow> t
      | Some i \<Rightarrow> t\<lparr>ct_table := (ct_table t)[i := f (ct_table t ! i)]\<rparr>)"

definition claim :: "cpu_env \<Rightarrow> u64 \<Rightarrow> u32 \<Rightarrow> u64 option \<Rightarrow> ChannelTable \<Rightarrow> bool \<times> ChannelTable" where
  "claim env pid port only_from t =
     (if list_ex (\<lambda>c. ch_port c = port) (ct_table t) then (False, t)
      else (True, audit env (Claimed pid port (only_from \<noteq> None))
        (t\<lparr>ct_table := ct_table t @ [\<lparr>ch_port = port, ch_owner = pid, ch_restricted = only_from \<noteq> None,
             ch_only_from = (case only_from of None \<Rightarrow> 0 | Some p \<Rightarrow> p), ch_queue = []\<rparr>]\<rparr>)))"

definition ChannelTable_register :: "cpu_env \<Rightarrow> u64 \<Rightarrow> u32 \<Rightarrow> ChannelTable \<Rightarrow> bool \<times> ChannelTable" where
  "ChannelTable_register env pid port = claim env pid port None"

definition register_restricted :: "cpu_env \<Rightarrow> u64 \<Rightarrow> u32 \<Rightarrow> u64 \<Rightarrow> ChannelTable \<Rightarrow> bool \<times> ChannelTable" where
  "register_restricted env pid port only_from = claim env pid port (Some only_from)"

definition set_only_from :: "u32 \<Rightarrow> u64 \<Rightarrow> ChannelTable \<Rightarrow> ChannelTable" where
  "set_only_from port only_from =
     with_channel (\<lambda>c. ch_port c = port) (\<lambda>c. c\<lparr>ch_only_from := only_from, ch_restricted := True\<rparr>)"

definition ChannelTable_unregister :: "u32 \<Rightarrow> ChannelTable \<Rightarrow> ChannelTable" where
  "ChannelTable_unregister port t =
     (case position (\<lambda>c. ch_port c = port) (ct_table t) of
        None \<Rightarrow> t
      | Some i \<Rightarrow> t\<lparr>ct_table := remove_at i (ct_table t)\<rparr>)"

definition send_with ::
    "cpu_env \<Rightarrow> u64 \<Rightarrow> u32 \<Rightarrow> bytes \<Rightarrow> bool \<Rightarrow> ChannelTable \<Rightarrow> (nat, int) result \<times> ChannelTable" where
  "send_with env sender port data audit_it t =
     (case by_port port t of
        None \<Rightarrow> (Err ESRCH, t)
      | Some ch \<Rightarrow>
          if ch_restricted ch \<and> ch_only_from ch \<noteq> sender then
            (Err EPERM, audit env (Refused sender port) (t\<lparr>refused_sender := refused_sender t + 1\<rparr>))
          else if length (ch_queue ch) \<ge> MAX_QUEUE then
            (Err EAGAIN, t\<lparr>dropped_full := dropped_full t + 1\<rparr>)
          else
            (let t = with_channel (\<lambda>c. ch_port c = port) (\<lambda>c. c\<lparr>ch_queue := ch_queue c @ [(sender, data)]\<rparr>) t;
                 t = t\<lparr>ct_sends := (ct_sends t)[fst env := ct_sends t ! fst env + 1]\<rparr>;
                 t = (if audit_it then audit env (Sent sender port (ch_owner ch) (of_nat (length data))) t else t)
             in (Ok (length data), t)))"

definition ChannelTable_send :: "cpu_env \<Rightarrow> u64 \<Rightarrow> u32 \<Rightarrow> bytes \<Rightarrow> ChannelTable \<Rightarrow> (nat, int) result \<times> ChannelTable" where
  "ChannelTable_send env sender port data = send_with env sender port data True"

definition ChannelTable_take :: "u32 \<Rightarrow> ChannelTable \<Rightarrow> message option \<times> ChannelTable" where
  "ChannelTable_take port t =
     (case by_port port t of
        None \<Rightarrow> (None, t)
      | Some ch \<Rightarrow> (case ch_queue ch of
          [] \<Rightarrow> (None, t)
        | m # ms \<Rightarrow> (Some m, with_channel (\<lambda>c. ch_port c = port) (\<lambda>c. c\<lparr>ch_queue := ms\<rparr>) t)))"

definition ChannelTable_recv :: "u64 \<Rightarrow> ChannelTable \<Rightarrow> (message, RecvError) result \<times> ChannelTable" where
  "ChannelTable_recv pid t =
     (case by_owner pid t of
        None \<Rightarrow> (Err NoPort, t)
      | Some ch \<Rightarrow> (case ch_queue ch of
          [] \<Rightarrow> (Err Empty, t)
        | m # ms \<Rightarrow> (Ok m, with_channel (\<lambda>c. ch_owner c = pid) (\<lambda>c. c\<lparr>ch_queue := ms\<rparr>) t)))"

definition queued :: "u32 \<Rightarrow> ChannelTable \<Rightarrow> nat option" where
  "queued port t = map_option (\<lambda>c. length (ch_queue c)) (by_port port t)"

definition audit_recent :: "nat \<Rightarrow> ChannelTable \<Rightarrow> AuditEvent list" where
  "audit_recent n t =
     (let all = sort_key fst (concat (map (\<lambda>r. AuditRing_recent r n) (ct_audit t)))
      in map snd (drop (length all - n) all))"

definition audit_lines :: "nat \<Rightarrow> ChannelTable \<Rightarrow> string list" where
  "audit_lines n t = map AuditEvent_line (audit_recent n t)"

definition total_sends :: "ChannelTable \<Rightarrow> u64" where
  "total_sends t = sum_list (ct_sends t)"

definition channels :: "ChannelTable \<Rightarrow> nat" where
  "channels t = length (ct_table t)"

section \<open>What the table promises\<close>

text \<open>The ports as their users see them: the order of registration, and for every port its owner, the
  only sender it accepts if there is one, and the messages waiting.\<close>

record ports =
  sp_order :: "u32 list"
  sp_port :: "u32 \<Rightarrow> (u64 \<times> u64 option \<times> message list) option"

datatype ipc_op =
    OpClaim u64 u32 "u64 option"
  | OpSetOnlyFrom u32 u64
  | OpUnregister u32
  | OpSend u64 u32 bytes bool
  | OpTake u32
  | OpRecv u64

datatype ipc_out =
    OutBool bool
  | OutUnit
  | OutSend "(nat, int) result"
  | OutTake "message option"
  | OutRecv "(message, RecvError) result"

fun ipc_do :: "cpu_env \<Rightarrow> ipc_op \<Rightarrow> ChannelTable \<Rightarrow> ipc_out \<times> ChannelTable" where
  "ipc_do env (OpClaim pid port only) t = apfst OutBool (claim env pid port only t)"
| "ipc_do env (OpSetOnlyFrom port s) t = (OutUnit, set_only_from port s t)"
| "ipc_do env (OpUnregister port) t = (OutUnit, ChannelTable_unregister port t)"
| "ipc_do env (OpSend sender port data aud) t = apfst OutSend (send_with env sender port data aud t)"
| "ipc_do env (OpTake port) t = apfst OutTake (ChannelTable_take port t)"
| "ipc_do env (OpRecv pid) t = apfst OutRecv (ChannelTable_recv pid t)"

definition pop_port :: "u32 \<Rightarrow> ports \<Rightarrow> ports" where
  "pop_port port S =
     S\<lparr>sp_port := (sp_port S)(port := map_option (\<lambda>(ow, only, q). (ow, only, tl q)) (sp_port S port))\<rparr>"

definition waiting :: "ports \<Rightarrow> u32 \<Rightarrow> message list" where
  "waiting S port = (case sp_port S port of None \<Rightarrow> [] | Some (ow, only, q) \<Rightarrow> q)"

fun spec_do :: "ipc_op \<Rightarrow> ports \<Rightarrow> ipc_out \<times> ports" where
  "spec_do (OpClaim pid port only) S =
     (if sp_port S port \<noteq> None then (OutBool False, S)
      else (OutBool True, S\<lparr>sp_order := sp_order S @ [port], sp_port := (sp_port S)(port \<mapsto> (pid, only, []))\<rparr>))"
| "spec_do (OpSetOnlyFrom port s) S =
     (OutUnit, S\<lparr>sp_port := (sp_port S)(port := map_option (\<lambda>(ow, only, q). (ow, Some s, q)) (sp_port S port))\<rparr>)"
| "spec_do (OpUnregister port) S =
     (OutUnit, S\<lparr>sp_order := filter (\<lambda>p. p \<noteq> port) (sp_order S), sp_port := (sp_port S)(port := None)\<rparr>)"
| "spec_do (OpSend sender port data aud) S =
     (case sp_port S port of
        None \<Rightarrow> (OutSend (Err ESRCH), S)
      | Some (ow, only, q) \<Rightarrow>
          if only \<noteq> None \<and> only \<noteq> Some sender then (OutSend (Err EPERM), S)
          else if length q \<ge> MAX_QUEUE then (OutSend (Err EAGAIN), S)
          else (OutSend (Ok (length data)), S\<lparr>sp_port := (sp_port S)(port \<mapsto> (ow, only, q @ [(sender, data)]))\<rparr>))"
| "spec_do (OpTake port) S =
     (case waiting S port of [] \<Rightarrow> (OutTake None, S) | m # ms \<Rightarrow> (OutTake (Some m), pop_port port S))"
| "spec_do (OpRecv pid) S =
     (case List.find (\<lambda>p. map_option fst (sp_port S p) = Some pid) (sp_order S) of
        None \<Rightarrow> (OutRecv (Err NoPort), S)
      | Some p \<Rightarrow> (case waiting S p of
          [] \<Rightarrow> (OutRecv (Err Empty), S)
        | m # ms \<Rightarrow> (OutRecv (Ok m), pop_port p S)))"

fun ipc_run :: "(cpu_env \<times> ipc_op) list \<Rightarrow> ChannelTable \<Rightarrow> ipc_out list \<times> ChannelTable" where
  "ipc_run [] t = ([], t)"
| "ipc_run ((env, w) # ws) t = (let (out, t') = ipc_do env w t in apfst (Cons out) (ipc_run ws t'))"

fun spec_run :: "ipc_op list \<Rightarrow> ports \<Rightarrow> ipc_out list \<times> ports" where
  "spec_run [] S = ([], S)"
| "spec_run (w # ws) S = (let (out, S') = spec_do w S in apfst (Cons out) (spec_run ws S'))"

definition view :: "Channel \<Rightarrow> u64 \<times> u64 option \<times> message list" where
  "view c = (ch_owner c, if ch_restricted c then Some (ch_only_from c) else None, ch_queue c)"

definition ports_of :: "ChannelTable \<Rightarrow> ports" where
  "ports_of t = \<lparr>sp_order = map ch_port (ct_table t), sp_port = (\<lambda>p. map_option view (by_port p t))\<rparr>"

definition table_ok :: "ChannelTable \<Rightarrow> bool" where
  "table_ok t \<longleftrightarrow> distinct (map ch_port (ct_table t)) \<and> (\<forall>c\<in>set (ct_table t). length (ch_queue c) \<le> MAX_QUEUE)"

section \<open>The table keeps it\<close>

lemma find_update:
  assumes "\<And>c. ch_port (f c) = ch_port c" and "position (\<lambda>c. ch_port c = port) cs = Some i"
  shows "List.find (\<lambda>c. ch_port c = q) (cs[i := f (cs ! i)])
    = (if q = port then map_option f (List.find (\<lambda>c. ch_port c = port) cs) else List.find (\<lambda>c. ch_port c = q) cs)"
  using assms(2)
proof (induction cs arbitrary: i)
  case Nil
  then show ?case by simp
next
  case (Cons c cs)
  then show ?case using assms(1) by (auto split: if_splits)
qed

lemma by_port_with_channel:
  assumes "\<And>c. ch_port (f c) = ch_port c"
  shows "by_port q (with_channel (\<lambda>c. ch_port c = port) f t) = (if q = port then map_option f (by_port port t) else by_port q t)"
proof (cases "position (\<lambda>c. ch_port c = port) (ct_table t)")
  case None
  then have "by_port port t = None" by (auto simp: by_port_def find_None_iff position_None)
  then show ?thesis using None by (simp add: with_channel_def)
next
  case (Some i)
  then show ?thesis using find_update [OF assms Some] by (simp add: with_channel_def by_port_def)
qed

lemma ports_with_channel:
  assumes "\<And>c. ch_port (f c) = ch_port c"
  shows "map ch_port (ct_table (with_channel P f t)) = map ch_port (ct_table t)"
proof (cases "position P (ct_table t)")
  case None
  then show ?thesis by (simp add: with_channel_def)
next
  case (Some i)
  then have "i < length (ct_table t)" by (simp add: position_Some)
  then have "(map ch_port (ct_table t))[i := ch_port (ct_table t ! i)] = map ch_port (ct_table t)"
    by (metis list_update_id nth_map)
  then show ?thesis using Some assms by (simp add: with_channel_def map_update)
qed

lemma by_port_member:
  assumes "table_ok t" and "c \<in> set (ct_table t)"
  shows "by_port (ch_port c) t = Some c"
proof -
  obtain d where d: "by_port (ch_port c) t = Some d"
    using assms(2) by (cases "by_port (ch_port c) t") (auto simp: by_port_def find_None_iff)
  then have "d \<in> set (ct_table t)" "ch_port d = ch_port c"
    by (auto simp: by_port_def find_Some_iff)
  then show ?thesis using d assms by (metis distinct_map inj_onD table_ok_def)
qed

lemma by_port_SomeD: "by_port p t = Some c \<Longrightarrow> c \<in> set (ct_table t) \<and> ch_port c = p"
  by (auto simp: by_port_def find_Some_iff)

lemma by_owner_SomeD: "by_owner pid t = Some c \<Longrightarrow> c \<in> set (ct_table t) \<and> ch_owner c = pid"
  by (auto simp: by_owner_def find_Some_iff)

lemma owner_position:
  assumes "table_ok t" and "by_owner pid t = Some ch"
  shows "position (\<lambda>c. ch_owner c = pid) (ct_table t) = position (\<lambda>c. ch_port c = ch_port ch) (ct_table t)"
proof -
  obtain i where i: "position (\<lambda>c. ch_owner c = pid) (ct_table t) = Some i" "ct_table t ! i = ch"
    using assms(2) by (auto simp: by_owner_def find_position)
  then have len: "i < length (ct_table t)" by (simp add: position_Some)
  have "ch_port (ct_table t ! j) \<noteq> ch_port ch" if "j < i" for j
    using assms(1) i(2) len that by (metis (no_types, lifting) distinct_conv_nth length_map less_trans nat_neq_iff nth_map table_ok_def)
  then have "position (\<lambda>c. ch_port c = ch_port ch) (ct_table t) = Some i"
    using i(2) len by (simp add: position_Some)
  then show ?thesis using i(1) by simp
qed

lemma find_map_option: "List.find P (map f xs) = map_option f (List.find (P \<circ> f) xs)"
  by (induction xs) auto

lemma find_owner:
  assumes "table_ok t"
  shows "List.find (\<lambda>p. map_option fst (sp_port (ports_of t) p) = Some pid) (sp_order (ports_of t))
    = map_option ch_port (by_owner pid t)"
proof -
  have "List.find ((\<lambda>p. map_option fst (sp_port (ports_of t) p) = Some pid) \<circ> ch_port) (ct_table t)
      = List.find (\<lambda>c. ch_owner c = pid) (ct_table t)"
    by (rule find_cong) (simp_all add: ports_of_def by_port_member [OF assms] view_def)
  then show ?thesis by (simp add: find_map_option by_owner_def) (simp add: ports_of_def find_map_option)
qed

text \<open>Writing to the channel of a port changes the view of this port only.\<close>

lemma ports_of_update:
  assumes "\<And>c. ch_port (f c) = ch_port c"
  shows "ports_of (with_channel (\<lambda>c. ch_port c = port) f t)
    = (ports_of t)\<lparr>sp_port := (sp_port (ports_of t))(port := map_option (view \<circ> f) (by_port port t))\<rparr>"
  by (simp add: ports_of_def ports_with_channel [OF assms] by_port_with_channel [OF assms] fun_eq_iff
      option.map_comp)

lemma table_ok_update:
  assumes ok: "table_ok t" and keep: "\<And>c. ch_port (f c) = ch_port c"
    and "\<And>c. by_port port t = Some c \<Longrightarrow> length (ch_queue (f c)) \<le> MAX_QUEUE"
  shows "table_ok (with_channel (\<lambda>c. ch_port c = port) f t)"
proof -
  have "distinct (map ch_port (ct_table (with_channel (\<lambda>c. ch_port c = port) f t)))"
    unfolding ports_with_channel [OF keep] using ok by (simp add: table_ok_def)
  moreover have "length (ch_queue c) \<le> MAX_QUEUE"
    if "c \<in> set (ct_table (with_channel (\<lambda>c. ch_port c = port) f t))" for c
  proof (cases "position (\<lambda>c. ch_port c = port) (ct_table t)")
    case None
    then show ?thesis using that ok by (simp add: with_channel_def table_ok_def)
  next
    case (Some i)
    then have "by_port port t = Some (ct_table t ! i)" by (simp add: by_port_def find_position)
    moreover have "c \<in> insert (f (ct_table t ! i)) (set (ct_table t))"
      using that Some set_update_subset_insert by (fastforce simp: with_channel_def)
    ultimately show ?thesis using assms(3) ok by (auto simp: table_ok_def)
  qed
  ultimately show ?thesis by (simp add: table_ok_def)
qed

text \<open>Counters and the audit are outside the view.\<close>

lemma view_ignores [simp]:
  "ports_of (audit env ev t) = ports_of t" "table_ok (audit env ev t) = table_ok t"
  "ports_of (t\<lparr>refused_sender := n\<rparr>) = ports_of t" "table_ok (t\<lparr>refused_sender := n\<rparr>) = table_ok t"
  "ports_of (t\<lparr>dropped_full := n\<rparr>) = ports_of t" "table_ok (t\<lparr>dropped_full := n\<rparr>) = table_ok t"
  "ports_of (t\<lparr>ct_sends := ns\<rparr>) = ports_of t" "table_ok (t\<lparr>ct_sends := ns\<rparr>) = table_ok t"
  by (simp_all add: ports_of_def table_ok_def audit_def by_port_def)

definition simulates :: "ipc_out \<times> ChannelTable \<Rightarrow> ipc_out \<times> ports \<Rightarrow> bool" where
  "simulates r s \<longleftrightarrow> fst r = fst s \<and> ports_of (snd r) = snd s \<and> table_ok (snd r)"

lemma sp_port_ports_of: "sp_port (ports_of t) p = map_option view (by_port p t)"
  by (simp add: ports_of_def)

lemma by_port_push:
  assumes "by_port (ch_port d) t = None"
  shows "by_port p (t\<lparr>ct_table := ct_table t @ [d]\<rparr>) = (if p = ch_port d then Some d else by_port p t)"
proof -
  have "List.find (\<lambda>c. ch_port c = p) (cs @ [d]) = (if p = ch_port d then Some d else List.find (\<lambda>c. ch_port c = p) cs)"
    if "List.find (\<lambda>c. ch_port c = ch_port d) cs = None" for cs
    using that by (induction cs) (auto split: if_splits)
  then show ?thesis using assms by (simp add: by_port_def)
qed

lemma claim_simulates:
  assumes "table_ok t"
  shows "simulates (ipc_do env (OpClaim pid port only) t) (spec_do (OpClaim pid port only) (ports_of t))"
proof (cases "by_port port t")
  case None
  let ?d = "\<lparr>ch_port = port, ch_owner = pid, ch_restricted = only \<noteq> None,
             ch_only_from = (case only of None \<Rightarrow> 0 | Some p \<Rightarrow> p), ch_queue = []\<rparr>"
  let ?t = "t\<lparr>ct_table := ct_table t @ [?d]\<rparr>"
  have free: "\<And>c. c \<in> set (ct_table t) \<Longrightarrow> ch_port c \<noteq> port"
    using None by (auto simp: by_port_def find_None_iff)
  have do: "ipc_do env (OpClaim pid port only) t = (OutBool True, audit env (Claimed pid port (only \<noteq> None)) ?t)"
    using free by (auto simp: claim_def list_ex_iff)
  have "by_port p ?t = (if p = port then Some ?d else by_port p t)" for p
    using by_port_push [of ?d t p] None by simp
  moreover have "view ?d = (pid, only, [])" by (simp add: view_def split: option.splits)
  ultimately have "ports_of ?t = (ports_of t)\<lparr>sp_order := sp_order (ports_of t) @ [port],
      sp_port := (sp_port (ports_of t))(port \<mapsto> (pid, only, []))\<rparr>"
    by (simp add: ports_of_def fun_eq_iff)
  moreover have "table_ok ?t" using assms free by (auto simp: table_ok_def)
  ultimately show ?thesis
    unfolding simulates_def do using None by (simp add: sp_port_ports_of)
next
  case (Some c)
  then have "list_ex (\<lambda>c. ch_port c = port) (ct_table t)" by (auto simp: list_ex_iff dest: by_port_SomeD)
  then show ?thesis using assms Some by (simp add: simulates_def claim_def sp_port_ports_of)
qed

lemma set_only_from_simulates:
  assumes "table_ok t"
  shows "simulates (ipc_do env (OpSetOnlyFrom port s) t) (spec_do (OpSetOnlyFrom port s) (ports_of t))"
proof -
  let ?f = "\<lambda>c. c\<lparr>ch_only_from := s, ch_restricted := True\<rparr> :: Channel"
  have "length (ch_queue (?f c)) \<le> MAX_QUEUE" if "by_port port t = Some c" for c
    using by_port_SomeD [OF that] assms by (simp add: table_ok_def)
  then have "table_ok (with_channel (\<lambda>c. ch_port c = port) ?f t)"
    using assms by (intro table_ok_update) simp_all
  moreover have "map_option (view \<circ> ?f) (by_port port t)
      = map_option (\<lambda>(ow, only, q). (ow, Some s, q)) (map_option view (by_port port t))"
    by (cases "by_port port t") (simp_all add: view_def)
  ultimately show ?thesis
    by (simp add: simulates_def set_only_from_def ports_of_update sp_port_ports_of)
qed

lemma remove_port:
  assumes "distinct (map ch_port cs)" and "position (\<lambda>c. ch_port c = port) cs = Some i"
  shows "remove_at i cs = filter (\<lambda>c. ch_port c \<noteq> port) cs"
  using assms
proof (induction cs arbitrary: i)
  case Nil
  then show ?case by simp
next
  case (Cons c cs)
  show ?case
  proof (cases "ch_port c = port")
    case True
    then have "filter (\<lambda>c. ch_port c \<noteq> port) cs = cs" using Cons.prems(1) by (auto intro!: filter_True simp: image_iff)
    then show ?thesis using True Cons.prems by (simp add: remove_at_def)
  next
    case False
    then show ?thesis using Cons by (auto simp: remove_at_def)
  qed
qed

lemma unregister_simulates:
  assumes "table_ok t"
  shows "simulates (ipc_do env (OpUnregister port) t) (spec_do (OpUnregister port) (ports_of t))"
proof -
  have tab: "ct_table (ChannelTable_unregister port t) = filter (\<lambda>c. ch_port c \<noteq> port) (ct_table t)"
  proof (cases "position (\<lambda>c. ch_port c = port) (ct_table t)")
    case None
    then have "filter (\<lambda>c. ch_port c \<noteq> port) (ct_table t) = ct_table t" by (simp add: position_None)
    then show ?thesis using None by (simp add: ChannelTable_unregister_def)
  next
    case (Some i)
    then show ?thesis using remove_port [OF _ Some] assms by (simp add: ChannelTable_unregister_def table_ok_def)
  qed
  have found: "List.find (\<lambda>c. ch_port c = p) (filter (\<lambda>c. ch_port c \<noteq> port) cs)
      = (if p = port then None else List.find (\<lambda>c. ch_port c = p) cs)" for p cs
    by (induction cs) auto
  have "ports_of (ChannelTable_unregister port t) = (ports_of t)\<lparr>sp_order := filter (\<lambda>p. p \<noteq> port) (sp_order (ports_of t)),
      sp_port := (sp_port (ports_of t))(port := None)\<rparr>"
    by (simp add: ports_of_def by_port_def tab filter_map o_def fun_eq_iff found)
  moreover have "table_ok (ChannelTable_unregister port t)"
    using assms by (simp add: table_ok_def tab distinct_map_filter)
  ultimately show ?thesis by (simp add: simulates_def)
qed

lemma send_simulates:
  assumes "table_ok t"
  shows "simulates (ipc_do env (OpSend sender port data aud) t) (spec_do (OpSend sender port data aud) (ports_of t))"
proof (cases "by_port port t")
  case None
  then show ?thesis using assms by (simp add: simulates_def send_with_def sp_port_ports_of)
next
  case (Some ch)
  let ?f = "\<lambda>c. c\<lparr>ch_queue := ch_queue c @ [(sender, data)]\<rparr> :: Channel"
  have v: "sp_port (ports_of t) port = Some (view ch)" using Some by (simp add: sp_port_ports_of)
  show ?thesis
  proof (cases "ch_restricted ch \<and> ch_only_from ch \<noteq> sender \<or> length (ch_queue ch) \<ge> MAX_QUEUE")
    case True
    then show ?thesis using assms Some v by (auto simp: simulates_def send_with_def view_def)
  next
    case False
    then have "table_ok (with_channel (\<lambda>c. ch_port c = port) ?f t)"
      using assms Some by (intro table_ok_update) auto
    moreover have "view (?f ch) = (ch_owner ch, (if ch_restricted ch then Some (ch_only_from ch) else None),
        ch_queue ch @ [(sender, data)])" by (simp add: view_def)
    ultimately show ?thesis
      using Some v False by (auto simp: simulates_def send_with_def Let_def ports_of_update view_def)
  qed
qed

lemma pop_simulates:
  assumes "table_ok t" and "by_port port t = Some ch" and "ch_queue ch = m # ms"
  shows "ports_of (with_channel (\<lambda>c. ch_port c = port) (\<lambda>c. c\<lparr>ch_queue := ms\<rparr>) t) = pop_port port (ports_of t)
    \<and> table_ok (with_channel (\<lambda>c. ch_port c = port) (\<lambda>c. c\<lparr>ch_queue := ms\<rparr>) t)
    \<and> waiting (ports_of t) port = m # ms"
proof -
  have "length (ch_queue ch) \<le> MAX_QUEUE"
    using assms(1) by_port_SomeD [OF assms(2)] by (simp add: table_ok_def)
  then have "table_ok (with_channel (\<lambda>c. ch_port c = port) (\<lambda>c. c\<lparr>ch_queue := ms\<rparr>) t)"
    using assms by (intro table_ok_update) auto
  then show ?thesis
    using assms by (simp add: ports_of_update pop_port_def waiting_def sp_port_ports_of view_def)
qed

lemma waiting_empty: "by_port port t = Some ch \<Longrightarrow> ch_queue ch = [] \<Longrightarrow> waiting (ports_of t) port = []"
  by (simp add: waiting_def sp_port_ports_of view_def)

lemma take_simulates:
  assumes "table_ok t"
  shows "simulates (ipc_do env (OpTake port) t) (spec_do (OpTake port) (ports_of t))"
proof (cases "by_port port t")
  case None
  then show ?thesis using assms by (simp add: simulates_def ChannelTable_take_def waiting_def sp_port_ports_of)
next
  case (Some ch)
  show ?thesis
  proof (cases "ch_queue ch")
    case Nil
    then show ?thesis using assms Some by (simp add: simulates_def ChannelTable_take_def waiting_empty)
  next
    case (Cons m ms)
    then show ?thesis using pop_simulates [OF assms Some Cons] Some by (simp add: simulates_def ChannelTable_take_def)
  qed
qed

lemma recv_simulates:
  assumes "table_ok t"
  shows "simulates (ipc_do env (OpRecv pid) t) (spec_do (OpRecv pid) (ports_of t))"
proof (cases "by_owner pid t")
  case None
  then show ?thesis using assms find_owner [OF assms, of pid] by (simp add: simulates_def ChannelTable_recv_def)
next
  case (Some ch)
  then have port: "by_port (ch_port ch) t = Some ch"
    using by_port_member [OF assms] by_owner_SomeD by blast
  have found: "List.find (\<lambda>p. map_option fst (sp_port (ports_of t) p) = Some pid) (sp_order (ports_of t)) = Some (ch_port ch)"
    using find_owner [OF assms, of pid] Some by simp
  show ?thesis
  proof (cases "ch_queue ch")
    case Nil
    then show ?thesis using assms Some found port by (simp add: simulates_def ChannelTable_recv_def waiting_empty)
  next
    case (Cons m ms)
    have "with_channel (\<lambda>c. ch_owner c = pid) f t = with_channel (\<lambda>c. ch_port c = ch_port ch) f t" for f
      unfolding with_channel_def owner_position [OF assms Some] by (rule refl)
    then show ?thesis using pop_simulates [OF assms port Cons] Some found Cons
      by (simp add: simulates_def ChannelTable_recv_def)
  qed
qed

lemma ipc_simulates: "table_ok t \<Longrightarrow> simulates (ipc_do env w t) (spec_do w (ports_of t))"
  by (cases w) (simp_all only: claim_simulates set_only_from_simulates unregister_simulates send_simulates
      take_simulates recv_simulates)

lemma ipc_run_simulates:
  "table_ok t \<Longrightarrow> fst (ipc_run ws t) = fst (spec_run (map snd ws) (ports_of t))
     \<and> ports_of (snd (ipc_run ws t)) = snd (spec_run (map snd ws) (ports_of t)) \<and> table_ok (snd (ipc_run ws t))"
proof (induction ws arbitrary: t)
  case Nil
  then show ?case by simp
next
  case (Cons ew ws)
  obtain env w where ew: "ew = (env, w)" by (cases ew)
  obtain out t' where do: "ipc_do env w t = (out, t')" by (cases "ipc_do env w t")
  then have "spec_do w (ports_of t) = (out, ports_of t')" "table_ok t'"
    using ipc_simulates [OF Cons.prems, of env w] by (auto simp: simulates_def prod_eq_iff)
  then show ?case using Cons.IH [of t'] ew do by simp
qed

lemma table_ok_new: "table_ok ChannelTable_new"
  by (simp add: table_ok_def ChannelTable_new_def)

section \<open>Restricted ports\<close>








section \<open>The ring keeps the last events\<close>

lemma event_of_fields: "event_of (event_fields ev ! 0) (event_fields ev ! 1) (event_fields ev ! 2) (event_fields ev ! 3) (event_fields ev ! 4) = ev"
proof -
  have "(ucast (ucast p :: u64) :: u32) = p" for p
    by (rule bit_word_eqI) (simp add: bit_simps)
  then show ?thesis by (cases ev) (simp_all add: event_of_def)
qed

lemma mod_differs: "k < l \<Longrightarrow> l < k + RING \<Longrightarrow> k mod RING \<noteq> l mod RING"
proof
  assume "k < l" "l < k + RING" "k mod RING = l mod RING"
  then have "RING dvd l - k" by (metis less_imp_le_nat mod_eq_dvd_iff_nat)
  then show False using \<open>k < l\<close> \<open>l < k + RING\<close> by (auto dest: dvd_imp_le)
qed

definition push_all :: "(u64 \<times> AuditEvent) list \<Rightarrow> AuditRing \<Rightarrow> AuditRing" where
  "push_all = fold (\<lambda>(stamp, ev). AuditRing_push stamp ev)"

definition slot_of :: "nat \<Rightarrow> u64 \<times> AuditEvent \<Rightarrow> u64 list" where
  "slot_of k e = [2 * of_nat k + 2, fst e] @ event_fields (snd e)"

lemma ring_slots:
  "length es < 2 ^ 64 \<Longrightarrow>
   ar_head (push_all es AuditRing_new) = of_nat (length es)
   \<and> length (ar_slots (push_all es AuditRing_new)) = RING
   \<and> (\<forall>k. k < length es \<and> length es \<le> k + RING \<longrightarrow>
        ar_slots (push_all es AuditRing_new) ! (k mod RING) = slot_of k (es ! k))"
proof (induction es rule: rev_induct)
  case Nil
  then show ?case by (simp add: push_all_def AuditRing_new_def)
next
  case (snoc e es)
  let ?r = "push_all es AuditRing_new" and ?l = "length es"
  have ih: "ar_head ?r = of_nat ?l" "length (ar_slots ?r) = RING"
    "\<And>k. k < ?l \<Longrightarrow> ?l \<le> k + RING \<Longrightarrow> ar_slots ?r ! (k mod RING) = slot_of k (es ! k)"
    using snoc by auto
  have push: "push_all (es @ [e]) AuditRing_new = AuditRing_push (fst e) (snd e) ?r"
    by (simp add: push_all_def case_prod_beta)
  have "unat (of_nat ?l :: u64) = ?l" using snoc.prems by (simp add: unat_of_nat_lt)
  then have slots: "ar_slots (AuditRing_push (fst e) (snd e) ?r) = (ar_slots ?r)[?l mod RING := slot_of ?l e]"
    using ih(1) by (simp add: AuditRing_push_def slot_of_def Let_def)
  have "ar_slots (AuditRing_push (fst e) (snd e) ?r) ! (k mod RING) = slot_of k ((es @ [e]) ! k)"
    if k: "k < Suc ?l" "Suc ?l \<le> k + RING" for k
  proof (cases "k = ?l")
    case True
    then show ?thesis using ih(2) by (simp add: slots RING_def)
  next
    case False
    then have "k mod RING \<noteq> ?l mod RING" using k by (intro mod_differs) simp_all
    then show ?thesis using False k ih(3) [of k] by (simp add: slots nth_append)
  qed
  moreover have "ar_head (AuditRing_push (fst e) (snd e) ?r) = of_nat (Suc ?l)"
    using ih(1) by (simp add: AuditRing_push_def Let_def)
  ultimately show ?case unfolding push using ih(2) by (simp add: slots)
qed

lemma read_slot_of: "ar_slots r ! (k mod RING) = slot_of k e \<Longrightarrow> read_slot r k = Some e"
  using event_of_fields [of "snd e"] by (simp add: read_slot_def slot_of_def)

lemma map_filter_all: "(\<And>x. x \<in> set xs \<Longrightarrow> f x = Some (g x)) \<Longrightarrow> List.map_filter f xs = map g xs"
  by (induction xs) (simp_all add: List.map_filter_def)

lemma ring_recent:
  assumes "length es < 2 ^ 64"
  shows "AuditRing_recent (push_all es AuditRing_new) n = drop (length es - min n RING) es"
proof -
  let ?r = "push_all es AuditRing_new" and ?l = "length es" and ?n = "min (min n (length es)) RING"
  have head: "unat (ar_head ?r) = ?l" using ring_slots [OF assms] assms by (simp add: unat_of_nat_lt)
  have "read_slot ?r k = Some (es ! k)" if "k \<in> set [?l - ?n..<?l]" for k
    using that ring_slots [OF assms] by (intro read_slot_of) auto
  then have "AuditRing_recent ?r n = map (\<lambda>k. es ! k) [?l - ?n..<?l]"
    unfolding AuditRing_recent_def Let_def head by (rule map_filter_all)
  also have "\<dots> = drop (?l - ?n) es"
    by (rule nth_equalityI) auto
  also have "?l - ?n = ?l - min n RING" by simp
  finally show ?thesis .
qed

section \<open>Properties\<close>

text \<open>
  Property C5.  The channel table implements ports with first-in first-out queues.  For every sequence of claims,
  restrictions, releases, sends and receives, on whatever processors they run, each call answers as
  the abstract ports do (which port exists, who may send, \<open>-ESRCH\<close>, \<open>-EPERM\<close> and \<open>-EAGAIN\<close> included, and the
  oldest message of the right port on receipt), and the table stands for the abstract state, with at most
  one channel for each port and at most 256 messages waiting on it.\<close>

theorem channel_table_refines_ports:
  "fst (ipc_run ws ChannelTable_new) = fst (spec_run (map snd ws) (ports_of ChannelTable_new))
   \<and> ports_of (snd (ipc_run ws ChannelTable_new)) = snd (spec_run (map snd ws) (ports_of ChannelTable_new))
   \<and> table_ok (snd (ipc_run ws ChannelTable_new))"
  by (rule ipc_run_simulates [OF table_ok_new])

theorem channel_table_refines_ports_witness:
  "fst (ipc_run [((0, 5), OpClaim 7 80 None), ((1, 6), OpSend 9 80 [1, 2] True), ((2, 7), OpRecv 7), ((2, 8), OpRecv 7)]
      ChannelTable_new)
   = [OutBool True, OutSend (Ok 2), OutRecv (Ok (9, [1, 2])), OutRecv (Err Empty)]"
  unfolding channel_table_refines_ports [THEN conjunct1]
  by (simp add: ports_of_def by_port_def ChannelTable_new_def waiting_def pop_port_def MAX_QUEUE_def)



text \<open>
  The audit ring shows the last events.  After any number of records below two to the 64,
  \<open>recent\<close> returns exactly the last events, the smaller of the number asked for and 64, in the order they were
  written and with every field as it was recorded.\<close>

lemma audit_ring_shows_last:
  assumes "length es < 2 ^ 64"
  shows "AuditRing_recent (push_all es AuditRing_new) n = drop (length es - min n 64) es"
  using ring_recent [OF assms] by (simp add: RING_def)

end
