(* ===== verification/Block.thy ===== *)
theory Block
  imports Prelude
begin

text \<open>
  Block devices (\<open>crates/eurofs/src/block.rs\<close>): the trait as a record of operations, the contract its users
  rely on as a locale, and the memory device.  A buffer to read into is given by its length and returned
  filled.  \<open>BlockPanic\<close> is the panic of a slice index out of range; it is not a value of the source's enum.
\<close>

section \<open>The trait\<close>

text \<open>The errors of file systems (\<open>fs.rs\<close>); \<open>FsIoError\<close> is its \<open>IoError\<close>.\<close>

datatype FsError =
    NotFound | NotADirectory | NotAFile | AlreadyExists | PermissionDenied | NoSpace | InvalidPath
  | FsIoError | Corruption | Unsupported | NotEmpty | QuotaExceeded

datatype BlockError = OutOfBounds | IoError | NotAligned | BlockPanic

type_synonym 'a block_result = "('a, BlockError) result"

record 'd BlockDevice =
  block_size :: "'d \<Rightarrow> u32"
  block_count :: "'d \<Rightarrow> u64"
  read_blocks :: "u64 \<Rightarrow> u32 \<Rightarrow> nat \<Rightarrow> 'd \<Rightarrow> bytes block_result \<times> 'd"
  write_blocks :: "u64 \<Rightarrow> u32 \<Rightarrow> bytes \<Rightarrow> 'd \<Rightarrow> unit block_result \<times> 'd"
  flush :: "'d \<Rightarrow> unit block_result \<times> 'd"
  discard :: "u64 \<Rightarrow> u32 \<Rightarrow> 'd \<Rightarrow> unit block_result \<times> 'd"

text \<open>An operation that leaves the geometry and the contents of the blocks in \<open>B\<close> as they are.\<close>

definition keeps :: "'d BlockDevice \<Rightarrow> ('d \<Rightarrow> bool) \<Rightarrow> ('d \<Rightarrow> nat \<Rightarrow> bytes) \<Rightarrow> nat set \<Rightarrow> 'd \<Rightarrow> 'd \<Rightarrow> bool" where
  "keeps D ok blk B d d' \<longleftrightarrow> ok d' \<and> block_count D d' = block_count D d \<and> block_size D d' = block_size D d
     \<and> (\<forall>i\<in>B. i < unat (block_count D d) \<longrightarrow> blk d' i = blk d i)"

text \<open>What a working device promises for single blocks: a block in range reads as what was last
  written to it, a write changes that block only, and a request out of range or of the wrong size is
  refused and changes nothing.  A discarded block may read as anything, other blocks keep their content.
  Reading may change the state of the device (a cache does), but no contents.\<close>

locale block_device =
  fixes D :: "'d BlockDevice"
    and ok :: "'d \<Rightarrow> bool"
    and blk :: "'d \<Rightarrow> nat \<Rightarrow> bytes"
  assumes read_in: "ok d \<Longrightarrow> unat l < unat (block_count D d) \<Longrightarrow>
      \<exists>d'. read_blocks D l 1 (unat (block_size D d)) d = (Ok (blk d (unat l)), d') \<and> keeps D ok blk UNIV d d'"
    and read_out: "ok d \<Longrightarrow> unat (block_count D d) \<le> unat l \<Longrightarrow>
      \<exists>e d'. read_blocks D l 1 n d = (Err e, d') \<and> keeps D ok blk UNIV d d'"
    and blk_length: "ok d \<Longrightarrow> i < unat (block_count D d) \<Longrightarrow> length (blk d i) = unat (block_size D d)"
    and write_in: "ok d \<Longrightarrow> unat l < unat (block_count D d) \<Longrightarrow> length b = unat (block_size D d) \<Longrightarrow>
      \<exists>d'. write_blocks D l 1 b d = (Ok (), d') \<and> keeps D ok blk (- {unat l}) d d' \<and> blk d' (unat l) = b"
    and write_out: "ok d \<Longrightarrow> unat (block_count D d) \<le> unat l \<or> length b \<noteq> unat (block_size D d) \<Longrightarrow>
      \<exists>e d'. write_blocks D l 1 b d = (Err e, d') \<and> keeps D ok blk UNIV d d'"
    and flush_in: "ok d \<Longrightarrow> \<exists>d'. flush D d = (Ok (), d') \<and> keeps D ok blk UNIV d d'"
    and discard_in: "ok d \<Longrightarrow> discard D l c d = (Ok u, d') \<Longrightarrow>
      unat l + unat c \<le> unat (block_count D d) \<and> keeps D ok blk (- {unat l..<unat l + unat c}) d d'"
    and discard_out: "ok d \<Longrightarrow> discard D l c d = (Err e, d') \<Longrightarrow> keeps D ok blk UNIV d d'"
begin

lemma keepsD:
  assumes "keeps D ok blk B d d'"
  shows "ok d'" "block_count D d' = block_count D d" "block_size D d' = block_size D d"
    "\<And>i. i \<in> B \<Longrightarrow> i < unat (block_count D d) \<Longrightarrow> blk d' i = blk d i"
  using assms by (simp_all add: keeps_def)

lemma keeps_refl: "ok d \<Longrightarrow> keeps D ok blk B d d"
  by (simp add: keeps_def)

lemma keeps_trans: "keeps D ok blk B d d' \<Longrightarrow> keeps D ok blk C d' d'' \<Longrightarrow> keeps D ok blk (B \<inter> C) d d''"
  by (simp add: keeps_def)

end

section \<open>The memory device\<close>

record MemoryBlockDevice =
  md_data :: bytes
  md_block_size :: u32
  md_flush_count :: u64
  md_discards :: "(u64 \<times> u32) list"

definition is_power_of_two :: "u32 \<Rightarrow> bool" where
  "is_power_of_two w \<longleftrightarrow> w \<noteq> 0 \<and> w AND (w - 1) = 0"

text \<open>\<open>None\<close> is the failed assertion.\<close>

definition MemoryBlockDevice_new :: "u64 \<Rightarrow> u32 \<Rightarrow> MemoryBlockDevice option" where
  "MemoryBlockDevice_new n bs =
     (if bs \<ge> 512 \<and> is_power_of_two bs
      then Some \<lparr>md_data = replicate (unat (n * ucast bs)) 0, md_block_size = bs, md_flush_count = 0, md_discards = []\<rparr>
      else None)"

definition discarded_blocks :: "MemoryBlockDevice \<Rightarrow> u64" where
  "discarded_blocks d = sum_list (map (\<lambda>(s, c). ucast c) (md_discards d))"

definition span :: "MemoryBlockDevice \<Rightarrow> u64 \<Rightarrow> u32 \<Rightarrow> (u64 \<times> u64) block_result" where
  "span d start cnt =
     (let bs = ucast (md_block_size d)
      in case checked_mul start bs of
           None \<Rightarrow> Err OutOfBounds
         | Some offset \<Rightarrow>
             (let len = ucast cnt * bs
              in if offset + len > of_nat (length (md_data d)) then Err OutOfBounds else Ok (offset, len)))"

text \<open>The slice \<open>data[offset..offset + len]\<close> exists when its end has not wrapped around.\<close>

definition in_data :: "MemoryBlockDevice \<Rightarrow> u64 \<Rightarrow> u64 \<Rightarrow> bool" where
  "in_data d offset len \<longleftrightarrow> unat offset + unat len \<le> length (md_data d)"

definition mem_read_blocks :: "u64 \<Rightarrow> u32 \<Rightarrow> nat \<Rightarrow> MemoryBlockDevice \<Rightarrow> bytes block_result \<times> MemoryBlockDevice" where
  "mem_read_blocks start cnt n d =
     (case span d start cnt of
        Err e \<Rightarrow> (Err e, d)
      | Ok (offset, len) \<Rightarrow>
          if n \<noteq> unat len then (Err NotAligned, d)
          else if \<not> in_data d offset len then (Err BlockPanic, d)
          else (Ok (slice (unat offset) (unat offset + unat len) (md_data d)), d))"

definition mem_write_blocks :: "u64 \<Rightarrow> u32 \<Rightarrow> bytes \<Rightarrow> MemoryBlockDevice \<Rightarrow> unit block_result \<times> MemoryBlockDevice" where
  "mem_write_blocks start cnt buf d =
     (case span d start cnt of
        Err e \<Rightarrow> (Err e, d)
      | Ok (offset, len) \<Rightarrow>
          if length buf \<noteq> unat len then (Err NotAligned, d)
          else if \<not> in_data d offset len then (Err BlockPanic, d)
          else (Ok (), d\<lparr>md_data := copy_at (unat offset) buf (md_data d)\<rparr>))"

definition mem_flush :: "MemoryBlockDevice \<Rightarrow> unit block_result \<times> MemoryBlockDevice" where
  "mem_flush d = (Ok (), d\<lparr>md_flush_count := md_flush_count d + 1\<rparr>)"

definition mem_discard :: "u64 \<Rightarrow> u32 \<Rightarrow> MemoryBlockDevice \<Rightarrow> unit block_result \<times> MemoryBlockDevice" where
  "mem_discard start cnt d =
     (case span d start cnt of
        Err e \<Rightarrow> (Err e, d)
      | Ok (offset, len) \<Rightarrow>
          if \<not> in_data d offset len then (Err BlockPanic, d)
          else (Ok (), d\<lparr>md_data := copy_at (unat offset) (replicate (unat len) 0) (md_data d),
                  md_discards := md_discards d @ [(start, cnt)]\<rparr>))"

definition memory_device :: "MemoryBlockDevice BlockDevice" where
  "memory_device =
     \<lparr>block_size = md_block_size,
      block_count = (\<lambda>d. of_nat (length (md_data d)) div ucast (md_block_size d)),
      read_blocks = mem_read_blocks, write_blocks = mem_write_blocks, flush = mem_flush, discard = mem_discard\<rparr>"

section \<open>The memory device keeps the contract\<close>

text \<open>A vector holds less than \<open>2\<^sup>6\<^sup>3\<close> bytes.\<close>

definition mem_ok :: "MemoryBlockDevice \<Rightarrow> bool" where
  "mem_ok d \<longleftrightarrow> md_block_size d \<ge> 512 \<and> unat (md_block_size d) dvd length (md_data d) \<and> length (md_data d) < 2 ^ 63"

definition mem_blk :: "MemoryBlockDevice \<Rightarrow> nat \<Rightarrow> bytes" where
  "mem_blk d i = slice (i * unat (md_block_size d)) (i * unat (md_block_size d) + unat (md_block_size d)) (md_data d)"

lemma unat_ucast_u32: "unat (ucast (w :: u32) :: u64) = unat w"
  by (simp add: unsigned_ucast_eq take_bit_nat_eq_self unat_lt [of w, THEN order_less_trans])

lemma mem_count: "mem_ok d \<Longrightarrow> unat (block_count memory_device d) = length (md_data d) div unat (md_block_size d)"
  by (simp add: memory_device_def mem_ok_def unat_div unat_ucast_u32 unat_of_nat_lt)

lemma mem_length:
  assumes "mem_ok d"
  shows "length (md_data d) = unat (block_count memory_device d) * unat (md_block_size d)" "0 < unat (md_block_size d)"
proof -
  show "0 < unat (md_block_size d)" using assms by (auto simp: mem_ok_def word_le_nat_alt)
  show "length (md_data d) = unat (block_count memory_device d) * unat (md_block_size d)"
    unfolding mem_count [OF assms] using assms by (simp add: mem_ok_def)
qed

lemma span_Ok:
  assumes "span d start cnt = Ok (offset, len)"
  shows "unat offset = unat start * unat (md_block_size d)" "unat len = unat cnt * unat (md_block_size d)"
proof -
  have "unat cnt < 2 ^ 32" "unat (md_block_size d) < 2 ^ 32"
    using unat_lt [of cnt] unat_lt [of "md_block_size d"] by simp_all
  then have "unat cnt * unat (md_block_size d) < 2 ^ 32 * 2 ^ 32" by (intro mult_strict_mono) auto
  then have "unat (ucast cnt * ucast (md_block_size d) :: u64) = unat cnt * unat (md_block_size d)"
    by (subst unat_mult_lt) (simp_all add: unat_ucast_u32)
  then show "unat offset = unat start * unat (md_block_size d)" "unat len = unat cnt * unat (md_block_size d)"
    using assms by (auto simp: span_def checked_mul_def Let_def unat_ucast_u32 unat_mult_lt split: if_splits)
qed

lemma span_in_range:
  assumes "mem_ok d" and "unat start + unat cnt \<le> unat (block_count memory_device d)"
  shows "\<exists>offset len. span d start cnt = Ok (offset, len) \<and> in_data d offset len"
proof -
  let ?bs = "unat (md_block_size d)" and ?len = "ucast cnt * ucast (md_block_size d) :: u64"
  have le: "unat start * ?bs + unat cnt * ?bs \<le> length (md_data d)"
    using assms(2) mem_length [OF assms(1)] by (metis add_mult_distrib mult_le_mono1)
  have lt: "length (md_data d) < 2 ^ 63" using assms(1) by (simp add: mem_ok_def)
  have o: "unat (start * ucast (md_block_size d)) = unat start * ?bs"
    using le lt by (subst unat_mult_lt) (simp_all add: unat_ucast_u32)
  have l: "unat ?len = unat cnt * ?bs"
    using le lt by (subst unat_mult_lt) (simp_all add: unat_ucast_u32)
  have "unat (start * ucast (md_block_size d) + ?len) = unat start * ?bs + unat cnt * ?bs"
    using le lt o l by (subst unat_add_lt) simp_all
  then have "\<not> of_nat (length (md_data d)) < start * ucast (md_block_size d) + ?len"
    using le lt by (simp add: word_less_nat_alt unat_of_nat_lt)
  moreover have "unat start * unat (ucast (md_block_size d) :: u64) < 2 ^ LENGTH(64)"
    using le lt by (simp add: unat_ucast_u32)
  ultimately have "span d start cnt = Ok (start * ucast (md_block_size d), ?len)"
    by (simp add: span_def checked_mul_def Let_def)
  moreover have "in_data d (start * ucast (md_block_size d)) ?len"
    using le o l by (simp add: in_data_def)
  ultimately show ?thesis by blast
qed

lemma span_in_data:
  assumes "mem_ok d" and "span d start cnt = Ok (offset, len)" and "in_data d offset len"
  shows "unat start + unat cnt \<le> unat (block_count memory_device d)"
proof -
  have "(unat start + unat cnt) * unat (md_block_size d) \<le> unat (block_count memory_device d) * unat (md_block_size d)"
    using assms(3) span_Ok [OF assms(2)] mem_length [OF assms(1)] by (simp add: in_data_def add_mult_distrib)
  then show ?thesis using mem_length [OF assms(1)] by simp
qed

lemma mem_ok_data: "mem_ok d \<Longrightarrow> length xs = length (md_data d) \<Longrightarrow> mem_ok (d\<lparr>md_data := xs\<rparr>)"
  by (simp add: mem_ok_def)

lemma blk_copy:
  assumes "in_data d offset len" and "unat offset = s * unat (md_block_size d)" and "unat len = c * unat (md_block_size d)"
    and "length b = unat len" and "i < s \<or> s + c \<le> i" and "i * unat (md_block_size d) + unat (md_block_size d) \<le> length (md_data d)"
  shows "mem_blk (d\<lparr>md_data := copy_at (unat offset) b (md_data d)\<rparr>) i = mem_blk d i"
proof -
  let ?bs = "unat (md_block_size d)"
  have "i * ?bs + ?bs \<le> s * ?bs \<or> s * ?bs + c * ?bs \<le> i * ?bs"
  proof (cases "i < s")
    case True
    then have "Suc i * ?bs \<le> s * ?bs" by (intro mult_le_mono1) simp
    then show ?thesis by simp
  next
    case False
    then have "(s + c) * ?bs \<le> i * ?bs" using assms(5) by (intro mult_le_mono1) simp
    then show ?thesis by (simp add: add_mult_distrib)
  qed
  then show ?thesis
    using assms unfolding mem_blk_def in_data_def by (simp add: slice_copy_at_other)
qed

lemma mem_block_end:
  assumes "mem_ok d" and "i < unat (block_count memory_device d)"
  shows "i * unat (md_block_size d) + unat (md_block_size d) \<le> length (md_data d)"
proof -
  have "Suc i * unat (md_block_size d) \<le> unat (block_count memory_device d) * unat (md_block_size d)"
    using assms(2) by (intro mult_le_mono1) simp
  then show ?thesis using mem_length [OF assms(1)] by simp
qed

lemma memory_simps [simp]:
  "block_size memory_device = md_block_size" "read_blocks memory_device = mem_read_blocks"
  "write_blocks memory_device = mem_write_blocks" "flush memory_device = mem_flush" "discard memory_device = mem_discard"
  by (simp_all add: memory_device_def)

lemma memory_count_data:
  "length xs = length (md_data d) \<Longrightarrow> block_count memory_device (d\<lparr>md_data := xs\<rparr>) = block_count memory_device d"
  by (simp add: memory_device_def)

lemma mem_keeps_refl: "mem_ok d \<Longrightarrow> keeps memory_device mem_ok mem_blk B d d"
  by (simp add: keeps_def)

lemma mem_keeps_data:
  assumes "mem_ok d" and "length xs = length (md_data d)"
    and "\<And>i. i \<in> B \<Longrightarrow> i < unat (block_count memory_device d) \<Longrightarrow> mem_blk (d\<lparr>md_data := xs\<rparr>) i = mem_blk d i"
  shows "keeps memory_device mem_ok mem_blk B d (d\<lparr>md_data := xs, md_flush_count := n, md_discards := ds\<rparr>)"
  using assms by (simp add: keeps_def mem_ok_def mem_blk_def) (simp add: memory_device_def)

lemma mem_write_in:
  assumes d: "mem_ok d" and l: "unat l < unat (block_count memory_device d)" and b: "length b = unat (md_block_size d)"
  shows "\<exists>d'. mem_write_blocks l 1 b d = (Ok (), d') \<and> keeps memory_device mem_ok mem_blk (- {unat l}) d d' \<and> mem_blk d' (unat l) = b"
proof -
  obtain offset len where s: "span d l 1 = Ok (offset, len)" "in_data d offset len"
    using span_in_range [OF d, of l 1] l by auto
  note n = span_Ok [OF s(1)]
  let ?d = "d\<lparr>md_data := copy_at (unat offset) b (md_data d)\<rparr>"
  have fits: "unat offset + length b \<le> length (md_data d)" using s n b by (simp add: in_data_def)
  have "mem_write_blocks l 1 b d = (Ok (), ?d)" using s n b by (simp add: mem_write_blocks_def)
  moreover have "mem_blk ?d (unat l) = b" using n b slice_copy_at [OF fits] by (simp add: mem_blk_def)
  moreover have "mem_blk ?d i = mem_blk d i" if "i \<in> - {unat l}" "i < unat (block_count memory_device d)" for i
  proof -
    have "i < unat l \<or> unat l + unat (1 :: u32) \<le> i" using that(1) by simp linarith
    then show ?thesis using blk_copy [OF s(2) n(1,2), of b i] mem_block_end [OF d that(2)] b n(2) by simp
  qed
  ultimately show ?thesis
    using mem_keeps_data [OF d, of "copy_at (unat offset) b (md_data d)" "- {unat l}" "md_discards d" "md_flush_count d"] fits
    by simp
qed

lemma mem_discard_in:
  assumes d: "mem_ok d" and dis: "mem_discard l c d = (Ok u, d')"
  shows "unat l + unat c \<le> unat (block_count memory_device d) \<and> keeps memory_device mem_ok mem_blk (- {unat l..<unat l + unat c}) d d'"
proof -
  obtain offset len where s: "span d l c = Ok (offset, len)" "in_data d offset len"
    using dis by (auto simp: mem_discard_def split: sum.splits if_splits)
  let ?z = "copy_at (unat offset) (replicate (unat len) 0) (md_data d)"
  have d': "d' = d\<lparr>md_data := ?z, md_flush_count := md_flush_count d, md_discards := md_discards d @ [(l, c)]\<rparr>"
    using dis s by (auto simp: mem_discard_def)
  have "mem_blk (d\<lparr>md_data := ?z\<rparr>) i = mem_blk d i"
    if "i \<in> - {unat l..<unat l + unat c}" "i < unat (block_count memory_device d)" for i
    using blk_copy [OF s(2) span_Ok [OF s(1)], of "replicate (unat len) 0" i] mem_block_end [OF d that(2)] that(1) by auto
  then have "keeps memory_device mem_ok mem_blk (- {unat l..<unat l + unat c}) d d'"
    unfolding d' using s(2) by (intro mem_keeps_data [OF d]) (simp_all add: in_data_def)
  then show ?thesis using span_in_data [OF d s] by simp
qed

interpretation memory: block_device memory_device mem_ok mem_blk
proof
  fix d :: MemoryBlockDevice and l :: u64
  assume d: "mem_ok d" and l: "unat l < unat (block_count memory_device d)"
  then obtain offset len where s: "span d l 1 = Ok (offset, len)" "in_data d offset len"
    using span_in_range [OF d, of l 1] by auto
  then have "mem_read_blocks l 1 (unat (md_block_size d)) d = (Ok (mem_blk d (unat l)), d)"
    using span_Ok [OF s(1)] by (simp add: mem_read_blocks_def mem_blk_def)
  then show "\<exists>d'. read_blocks memory_device l 1 (unat (block_size memory_device d)) d = (Ok (mem_blk d (unat l)), d')
      \<and> keeps memory_device mem_ok mem_blk UNIV d d'"
    using mem_keeps_refl [OF d] by simp
  show "\<exists>d'. write_blocks memory_device l 1 b d = (Ok (), d') \<and> keeps memory_device mem_ok mem_blk (- {unat l}) d d' \<and> mem_blk d' (unat l) = b"
    if "length b = unat (block_size memory_device d)" for b
    using mem_write_in [OF d l] that by simp
next
  fix d :: MemoryBlockDevice and l :: u64 and n
  assume d: "mem_ok d" and l: "unat (block_count memory_device d) \<le> unat l"
  then have "\<exists>e. mem_read_blocks l 1 n d = (Err e, d)"
    using span_in_data [OF d, of l 1] by (auto simp: mem_read_blocks_def split: sum.splits)
  then show "\<exists>e d'. read_blocks memory_device l 1 n d = (Err e, d') \<and> keeps memory_device mem_ok mem_blk UNIV d d'"
    using mem_keeps_refl [OF d] by auto
next
  show "length (mem_blk d i) = unat (block_size memory_device d)" if "mem_ok d" "i < unat (block_count memory_device d)" for d i
    using mem_block_end [OF that] by (simp add: mem_blk_def length_slice)
  show "\<exists>e d'. write_blocks memory_device l 1 b d = (Err e, d') \<and> keeps memory_device mem_ok mem_blk UNIV d d'"
    if "mem_ok d" "unat (block_count memory_device d) \<le> unat l \<or> length b \<noteq> unat (block_size memory_device d)" for d l b
  proof -
    have "\<exists>e. mem_write_blocks l 1 b d = (Err e, d)"
      using that span_in_data [OF that(1), of l 1] span_Ok [of d l 1] by (fastforce simp: mem_write_blocks_def split: sum.splits)
    then show ?thesis using mem_keeps_refl [OF that(1)] by auto
  qed
  show "\<exists>d'. flush memory_device d = (Ok (), d') \<and> keeps memory_device mem_ok mem_blk UNIV d d'" if "mem_ok d" for d
    using mem_keeps_data [OF that refl, of UNIV "md_discards d" "md_flush_count d + 1"] by (simp add: mem_flush_def)
  show "keeps memory_device mem_ok mem_blk UNIV d d'" if "mem_ok d" "discard memory_device l c d = (Err e, d')" for d l c e d'
    using that mem_keeps_refl by (auto simp: mem_discard_def split: sum.splits if_splits)
qed (use mem_discard_in in simp)

end
