(* ===== verification/Cache.thy ===== *)
theory Cache
  imports Block
begin

text \<open>
  The block cache (\<open>crates/eurofs/src/cache.rs\<close>) over any block device.  Each function is split where the code
  releases its locks, so that the parts of concurrent calls can be interleaved; a call alone is its parts
  one after the other.
\<close>

section \<open>The cache\<close>

record CacheSlot =
  sl_lba :: u64
  sl_data :: bytes
  sl_valid :: bool
  sl_dirty :: bool
  sl_refbit :: bool

record 'd BlockCache =
  bc_dev :: 'd
  bc_slots :: "CacheSlot list"
  bc_hand :: nat
  bc_block_size :: u32
  bc_hits :: u64
  bc_misses :: u64

definition BlockCache_new :: "'d BlockDevice \<Rightarrow> 'd \<Rightarrow> nat \<Rightarrow> 'd BlockCache" where
  "BlockCache_new D dev capacity =
     \<lparr>bc_dev = dev,
      bc_slots = replicate (max capacity 1) \<lparr>sl_lba = - 1, sl_data = [], sl_valid = False, sl_dirty = False, sl_refbit = False\<rparr>,
      bc_hand = 0, bc_block_size = block_size D dev, bc_hits = 0, bc_misses = 0\<rparr>"

definition holds_lba :: "u64 \<Rightarrow> CacheSlot \<Rightarrow> bool" where
  "holds_lba lba s \<longleftrightarrow> sl_valid s \<and> sl_lba s = lba"

text \<open>The hand sweeps until it meets a slot whose reference bit is clear; every step before
  clears one bit, so the sweep ends.\<close>

definition clear_ref :: "nat \<Rightarrow> CacheSlot list \<Rightarrow> CacheSlot list" where
  "clear_ref i ss = ss[i := (ss ! i)\<lparr>sl_refbit := False\<rparr>]"

function clock_sweep :: "CacheSlot list \<Rightarrow> nat \<Rightarrow> nat \<times> CacheSlot list \<times> nat" where
  "clock_sweep ss hand =
     (if hand < length ss \<and> sl_refbit (ss ! hand)
      then clock_sweep (clear_ref hand ss) ((hand + 1) mod length ss)
      else (hand, ss, (hand + 1) mod length ss))"
  by pat_completeness auto

termination
proof (relation "measure (\<lambda>(ss, hand). card {i. i < length ss \<and> sl_refbit (ss ! i)})")
  show "wf (measure (\<lambda>(ss, hand :: nat). card {i. i < length ss \<and> sl_refbit (ss ! i)}))" by simp
  fix ss :: "CacheSlot list" and hand
  assume h: "hand < length ss \<and> sl_refbit (ss ! hand)"
  have "{i. i < length (clear_ref hand ss) \<and> sl_refbit (clear_ref hand ss ! i)} \<subset> {i. i < length ss \<and> sl_refbit (ss ! i)}"
    using h by (auto simp: clear_ref_def nth_list_update)
  then show "((clear_ref hand ss, (hand + 1) mod length ss), (ss, hand))
      \<in> measure (\<lambda>(ss, hand). card {i. i < length ss \<and> sl_refbit (ss ! i)})"
    by (simp add: psubset_card_mono)
qed

declare clock_sweep.simps [simp del]

definition evict_index :: "'d BlockCache \<Rightarrow> nat \<times> 'd BlockCache" where
  "evict_index c =
     (case position (\<lambda>s. \<not> sl_valid s) (bc_slots c) of
        Some i \<Rightarrow> (i, c)
      | None \<Rightarrow> (let (i, ss, hand) = clock_sweep (bc_slots c) (bc_hand c)
          in (i, c\<lparr>bc_slots := ss, bc_hand := hand\<rparr>)))"

definition touch :: "nat \<Rightarrow> 'd BlockCache \<Rightarrow> 'd BlockCache" where
  "touch i c = c\<lparr>bc_slots := (bc_slots c)[i := (bc_slots c ! i)\<lparr>sl_refbit := True\<rparr>], bc_hits := bc_hits c + 1\<rparr>"

text \<open>Evicting a slot writes it back when it is dirty, then the new block takes its place.\<close>

definition fill_slot :: "'d BlockDevice \<Rightarrow> u64 \<Rightarrow> bytes \<Rightarrow> 'd BlockCache \<Rightarrow> unit block_result \<times> 'd BlockCache" where
  "fill_slot D lba data c =
     (let (victim, c) = evict_index c;
          s = bc_slots c ! victim;
          (r, dev) = (if sl_valid s \<and> sl_dirty s then write_blocks D (sl_lba s) 1 (sl_data s) (bc_dev c) else (Ok (), bc_dev c));
          c = c\<lparr>bc_dev := dev\<rparr>
      in case r of
           Err e \<Rightarrow> (Err e, c)
         | Ok _ \<Rightarrow> (Ok (), c\<lparr>bc_slots := (bc_slots c)[victim :=
             \<lparr>sl_lba = lba, sl_data = data, sl_valid = True, sl_dirty = False, sl_refbit = True\<rparr>]\<rparr>))"

definition load_place :: "'d BlockDevice \<Rightarrow> u64 \<Rightarrow> bytes \<Rightarrow> 'd BlockCache \<Rightarrow> bytes block_result \<times> 'd BlockCache" where
  "load_place D lba buf c =
     (case position (holds_lba lba) (bc_slots c) of
        Some i \<Rightarrow> (Ok (sl_data (bc_slots c ! i)), touch i c)
      | None \<Rightarrow> (case fill_slot D lba buf (c\<lparr>bc_misses := bc_misses c + 1\<rparr>) of
          (Err e, c) \<Rightarrow> (Err e, c)
        | (Ok _, c) \<Rightarrow> (Ok buf, c)))"

definition load_miss :: "'d BlockDevice \<Rightarrow> u64 \<Rightarrow> 'd BlockCache \<Rightarrow> bytes block_result \<times> 'd BlockCache" where
  "load_miss D lba c =
     (case read_blocks D lba 1 (unat (bc_block_size c)) (bc_dev c) of
        (Err e, dev) \<Rightarrow> (Err e, c\<lparr>bc_dev := dev\<rparr>)
      | (Ok buf, dev) \<Rightarrow> load_place D lba buf (c\<lparr>bc_dev := dev\<rparr>))"

definition read_block :: "'d BlockDevice \<Rightarrow> u64 \<Rightarrow> 'd BlockCache \<Rightarrow> bytes block_result \<times> 'd BlockCache" where
  "read_block D lba c =
     (case position (holds_lba lba) (bc_slots c) of
        Some i \<Rightarrow> (Ok (sl_data (bc_slots c ! i)), touch i c)
      | None \<Rightarrow> load_miss D lba c)"

text \<open>The two parts of a write: to the device under its lock, then to the cache.\<close>

definition write_through :: "'d BlockDevice \<Rightarrow> u64 \<Rightarrow> bytes \<Rightarrow> 'd BlockCache \<Rightarrow> unit block_result \<times> 'd BlockCache" where
  "write_through D lba data c =
     (let (r, dev) = write_blocks D lba 1 data (bc_dev c) in (r, c\<lparr>bc_dev := dev\<rparr>))"

definition write_cached :: "'d BlockDevice \<Rightarrow> u64 \<Rightarrow> bytes \<Rightarrow> 'd BlockCache \<Rightarrow> unit block_result \<times> 'd BlockCache" where
  "write_cached D lba data c =
     (case position (holds_lba lba) (bc_slots c) of
        Some i \<Rightarrow> (Ok (), c\<lparr>bc_slots := (bc_slots c)[i := (bc_slots c ! i)\<lparr>sl_data := data, sl_refbit := True\<rparr>]\<rparr>)
      | None \<Rightarrow> fill_slot D lba data c)"

definition write_block :: "'d BlockDevice \<Rightarrow> u64 \<Rightarrow> bytes \<Rightarrow> 'd BlockCache \<Rightarrow> unit block_result \<times> 'd BlockCache" where
  "write_block D lba data c =
     (case write_through D lba data c of
        (Err e, c) \<Rightarrow> (Err e, c)
      | (Ok _, c) \<Rightarrow> write_cached D lba data c)"

fun flush_slots :: "'d BlockDevice \<Rightarrow> nat list \<Rightarrow> 'd BlockCache \<Rightarrow> unit block_result \<times> 'd BlockCache" where
  "flush_slots D [] c = (Ok (), c)"
| "flush_slots D (i # is) c =
     (let s = bc_slots c ! i
      in if sl_valid s \<and> sl_dirty s
         then (case write_blocks D (sl_lba s) 1 (sl_data s) (bc_dev c) of
             (Err e, dev) \<Rightarrow> (Err e, c\<lparr>bc_dev := dev\<rparr>)
           | (Ok _, dev) \<Rightarrow> flush_slots D is (c\<lparr>bc_dev := dev, bc_slots := (bc_slots c)[i := s\<lparr>sl_dirty := False\<rparr>]\<rparr>))
         else flush_slots D is c)"

definition cache_flush :: "'d BlockDevice \<Rightarrow> 'd BlockCache \<Rightarrow> unit block_result \<times> 'd BlockCache" where
  "cache_flush D c =
     (case flush_slots D [0..<length (bc_slots c)] c of
        (Err e, c) \<Rightarrow> (Err e, c)
      | (Ok _, c) \<Rightarrow> (let (r, dev) = flush D (bc_dev c) in (r, c\<lparr>bc_dev := dev\<rparr>)))"

definition cache_stats :: "'d BlockCache \<Rightarrow> u64 \<times> u64" where
  "cache_stats c = (bc_hits c, bc_misses c)"

section \<open>The cache as a device\<close>

fun cache_read_loop :: "'d BlockDevice \<Rightarrow> u64 list \<Rightarrow> 'd BlockCache \<Rightarrow> bytes block_result \<times> 'd BlockCache" where
  "cache_read_loop D [] c = (Ok [], c)"
| "cache_read_loop D (lba # lbas) c =
     (case read_block D lba c of
        (Err e, c) \<Rightarrow> (Err e, c)
      | (Ok b, c) \<Rightarrow> (case cache_read_loop D lbas c of
          (Err e, c) \<Rightarrow> (Err e, c)
        | (Ok bs, c) \<Rightarrow> (Ok (take (unat (bc_block_size c)) b @ bs), c)))"

definition lbas_from :: "u64 \<Rightarrow> u32 \<Rightarrow> u64 list" where
  "lbas_from start cnt = map (\<lambda>i. start + of_nat i) [0..<unat cnt]"

definition cache_read_blocks :: "'d BlockDevice \<Rightarrow> u64 \<Rightarrow> u32 \<Rightarrow> nat \<Rightarrow> 'd BlockCache \<Rightarrow> bytes block_result \<times> 'd BlockCache" where
  "cache_read_blocks D start cnt n c =
     (if n \<noteq> unat cnt * unat (bc_block_size c) then (Err NotAligned, c)
      else cache_read_loop D (lbas_from start cnt) c)"

fun cache_write_loop :: "'d BlockDevice \<Rightarrow> u64 list \<Rightarrow> bytes \<Rightarrow> 'd BlockCache \<Rightarrow> unit block_result \<times> 'd BlockCache" where
  "cache_write_loop D [] buf c = (Ok (), c)"
| "cache_write_loop D (lba # lbas) buf c =
     (let bs = unat (bc_block_size c)
      in case write_block D lba (take bs buf) c of
           (Err e, c) \<Rightarrow> (Err e, c)
         | (Ok _, c) \<Rightarrow> cache_write_loop D lbas (drop bs buf) c)"

definition cache_write_blocks :: "'d BlockDevice \<Rightarrow> u64 \<Rightarrow> u32 \<Rightarrow> bytes \<Rightarrow> 'd BlockCache \<Rightarrow> unit block_result \<times> 'd BlockCache" where
  "cache_write_blocks D start cnt buf c =
     (if length buf \<noteq> unat cnt * unat (bc_block_size c) then (Err NotAligned, c)
      else cache_write_loop D (lbas_from start cnt) buf c)"

definition invalidate :: "u64 \<Rightarrow> u32 \<Rightarrow> CacheSlot \<Rightarrow> CacheSlot" where
  "invalidate start cnt s =
     (if sl_valid s \<and> sl_lba s \<ge> start \<and> sl_lba s < start + ucast cnt
      then s\<lparr>sl_valid := False, sl_dirty := False, sl_lba := - 1\<rparr> else s)"

definition cache_discard :: "'d BlockDevice \<Rightarrow> u64 \<Rightarrow> u32 \<Rightarrow> 'd BlockCache \<Rightarrow> unit block_result \<times> 'd BlockCache" where
  "cache_discard D start cnt c =
     (let c = c\<lparr>bc_slots := map (invalidate start cnt) (bc_slots c)\<rparr>;
          (r, dev) = discard D start cnt (bc_dev c)
      in (r, c\<lparr>bc_dev := dev\<rparr>))"

definition cache_device :: "'d BlockDevice \<Rightarrow> 'd BlockCache BlockDevice" where
  "cache_device D =
     \<lparr>block_size = bc_block_size, block_count = (\<lambda>c. block_count D (bc_dev c)),
      read_blocks = cache_read_blocks D, write_blocks = cache_write_blocks D,
      flush = cache_flush D, discard = cache_discard D\<rparr>"

lemma cache_device_simps:
  "block_size (cache_device D) = bc_block_size" "block_count (cache_device D) c = block_count D (bc_dev c)"
  "read_blocks (cache_device D) = cache_read_blocks D" "write_blocks (cache_device D) = cache_write_blocks D"
  "flush (cache_device D) = cache_flush D" "discard (cache_device D) = cache_discard D"
  by (simp_all add: cache_device_def)

section \<open>Coherence\<close>

text \<open>The contents of a slot without its reference bit, and what it means that the slots agree with
  the device: \<open>f\<close> gives the blocks of a device with \<open>n\<close> blocks.  A valid slot is never dirty, since the cache
  writes through.\<close>

definition key :: "CacheSlot \<Rightarrow> u64 \<times> bytes \<times> bool \<times> bool" where
  "key s = (sl_lba s, sl_data s, sl_valid s, sl_dirty s)"

definition slot_ok :: "(nat \<Rightarrow> bytes) \<Rightarrow> nat \<Rightarrow> CacheSlot \<Rightarrow> bool" where
  "slot_ok f n s \<longleftrightarrow> (sl_valid s \<longrightarrow> \<not> sl_dirty s \<and> unat (sl_lba s) < n \<and> sl_data s = f (unat (sl_lba s)))"

definition slots_ok :: "(nat \<Rightarrow> bytes) \<Rightarrow> nat \<Rightarrow> CacheSlot list \<Rightarrow> bool" where
  "slots_ok f n ss \<longleftrightarrow>
     (\<forall>s\<in>set ss. slot_ok f n s)
     \<and> (\<forall>i<length ss. \<forall>j<length ss. sl_valid (ss ! i) \<and> holds_lba (sl_lba (ss ! i)) (ss ! j) \<longrightarrow> i = j)"

definition cache_ok :: "'d BlockDevice \<Rightarrow> ('d \<Rightarrow> bool) \<Rightarrow> ('d \<Rightarrow> nat \<Rightarrow> bytes) \<Rightarrow> 'd BlockCache \<Rightarrow> bool" where
  "cache_ok D ok blk c \<longleftrightarrow> ok (bc_dev c) \<and> bc_block_size c = block_size D (bc_dev c)
     \<and> bc_hand c < length (bc_slots c)
     \<and> slots_ok (blk (bc_dev c)) (unat (block_count D (bc_dev c))) (bc_slots c)"

lemma map_key_ref [simp]:
  "i < length ss \<Longrightarrow> map key (ss[i := (ss ! i)\<lparr>sl_refbit := r\<rparr>]) = map key ss"
  by (rule nth_equalityI) (auto simp: key_def nth_list_update)

lemma slots_ok_key:
  assumes "map key ss = map key ss'"
  shows "slots_ok f n ss = slots_ok f n ss'"
proof -
  have len: "length ss = length ss'" using assms by (metis length_map)
  have "key (ss ! i) = key (ss' ! i)" if "i < length ss'" for i
    using assms that len by (metis nth_map)
  then have "sl_valid (ss ! i) = sl_valid (ss' ! i)" "sl_lba (ss ! i) = sl_lba (ss' ! i)"
    "sl_data (ss ! i) = sl_data (ss' ! i)" "sl_dirty (ss ! i) = sl_dirty (ss' ! i)" if "i < length ss'" for i
    using that by (auto simp: key_def)
  then show ?thesis
    using len by (simp add: slots_ok_def slot_ok_def holds_lba_def all_set_conv_all_nth)
qed

lemma clock_sweep_same:
  "hand < length ss \<Longrightarrow> clock_sweep ss hand = (i, ss', hand') \<Longrightarrow>
   i < length ss \<and> hand' < length ss \<and> map key ss' = map key ss"
proof (induction ss hand arbitrary: i ss' hand' rule: clock_sweep.induct)
  case (1 ss hand)
  have n: "(hand + 1) mod length ss < length ss" using 1(2) by (intro mod_less_divisor) linarith
  show ?case
  proof (cases "sl_refbit (ss ! hand)")
    case True
    then have "clock_sweep (clear_ref hand ss) ((hand + 1) mod length ss) = (i, ss', hand')"
      using 1(2,3) by (subst (asm) clock_sweep.simps) simp
    then show ?thesis using 1(1) [of i ss' hand'] 1(2) True n by (simp add: clear_ref_def)
  next
    case False
    then show ?thesis using 1(2,3) n by (subst (asm) clock_sweep.simps) auto
  qed
qed

lemma evict_index_same:
  assumes "bc_hand c < length (bc_slots c)" and "evict_index c = (i, c')"
  shows "i < length (bc_slots c') \<and> map key (bc_slots c') = map key (bc_slots c) \<and> bc_hand c' < length (bc_slots c')
    \<and> bc_dev c' = bc_dev c \<and> bc_block_size c' = bc_block_size c"
proof (cases "position (\<lambda>s. \<not> sl_valid s) (bc_slots c)")
  case None
  obtain ss hand where e: "clock_sweep (bc_slots c) (bc_hand c) = (i, ss, hand)"
    using assms(2) None by (cases "clock_sweep (bc_slots c) (bc_hand c)") (auto simp: evict_index_def)
  then have "length ss = length (bc_slots c)" using clock_sweep_same [OF assms(1) e] by (metis length_map)
  then show ?thesis using clock_sweep_same [OF assms(1) e] assms(2) None e by (auto simp: evict_index_def)
next
  case (Some k)
  then have "i = k" "c' = c" using assms(2) by (simp_all add: evict_index_def)
  moreover have "k < length (bc_slots c)" using Some by (simp add: position_Some)
  ultimately show ?thesis using assms(1) by simp
qed

lemma slots_ok_fill:
  assumes "slots_ok f n ss" and "\<And>s. s \<in> set ss \<Longrightarrow> \<not> holds_lba lba s"
    and "unat lba < n" and "\<And>i. i < n \<Longrightarrow> i \<noteq> unat lba \<Longrightarrow> g i = f i" and "v < length ss"
  shows "slots_ok g n (ss[v := \<lparr>sl_lba = lba, sl_data = g (unat lba), sl_valid = True, sl_dirty = False, sl_refbit = r\<rparr>])"
proof -
  let ?s = "\<lparr>sl_lba = lba, sl_data = g (unat lba), sl_valid = True, sl_dirty = False, sl_refbit = r\<rparr>"
  have "slot_ok g n s" if "s \<in> set ss" for s
    using assms(1,4) assms(2) [OF that] that by (auto simp: slots_ok_def slot_ok_def holds_lba_def word_unat_eq_iff)
  moreover have "slot_ok g n ?s" using assms(3) by (simp add: slot_ok_def)
  ultimately have "\<forall>s\<in>set (ss[v := ?s]). slot_ok g n s"
    using set_update_subset_insert [of ss v ?s] by blast
  moreover have "i = j" if "i < length ss" "j < length ss" "sl_valid (ss[v := ?s] ! i)"
    "holds_lba (sl_lba (ss[v := ?s] ! i)) (ss[v := ?s] ! j)" for i j
  proof -
    have "\<not> holds_lba lba (ss ! i)" "\<not> holds_lba lba (ss ! j)" using assms(2) that by simp_all
    then show ?thesis
      using that assms(1,5) by (auto simp: slots_ok_def holds_lba_def nth_list_update split: if_splits)
  qed
  ultimately show ?thesis by (simp add: slots_ok_def)
qed

lemma slots_ok_overwrite:
  assumes "slots_ok f n ss" and "i < length ss" and "holds_lba lba (ss ! i)"
    and "\<And>k. k < n \<Longrightarrow> k \<noteq> unat lba \<Longrightarrow> g k = f k"
  shows "slots_ok g n (ss[i := (ss ! i)\<lparr>sl_data := g (unat lba), sl_refbit := r\<rparr>])"
proof -
  let ?s = "(ss ! i)\<lparr>sl_data := g (unat lba), sl_refbit := r\<rparr>"
  have "slot_ok g n (ss[i := ?s] ! j)" if "j < length ss" for j
  proof (cases "j = i")
    case True
    then show ?thesis using assms(1-3) by (auto simp: slots_ok_def slot_ok_def holds_lba_def)
  next
    case False
    then have "sl_valid (ss ! j) \<Longrightarrow> sl_lba (ss ! j) \<noteq> lba"
      using assms(1-3) that by (auto simp: slots_ok_def holds_lba_def)
    then show ?thesis
      using False assms(1,4) that by (auto simp: slots_ok_def slot_ok_def word_unat_eq_iff)
  qed
  moreover have "sl_valid (ss[i := ?s] ! j) = sl_valid (ss ! j)" "sl_lba (ss[i := ?s] ! j) = sl_lba (ss ! j)" if "j < length ss" for j
    using that assms(2) by (auto simp: nth_list_update)
  ultimately show ?thesis
    using assms(1) by (simp add: slots_ok_def holds_lba_def all_set_conv_all_nth)
qed

lemma slots_ok_map:
  assumes "slots_ok f n ss" and "\<And>s. s \<in> set ss \<Longrightarrow> h s = s \<and> (sl_valid s \<longrightarrow> g (unat (sl_lba s)) = f (unat (sl_lba s))) \<or> \<not> sl_valid (h s)"
  shows "slots_ok g n (map h ss)"
proof -
  have keep: "h s = s \<and> g (unat (sl_lba s)) = f (unat (sl_lba s))" if "s \<in> set ss" "sl_valid (h s)" for s
    using assms(2) [OF that(1)] that(2) by metis
  have "slot_ok g n (h s)" if "s \<in> set ss" for s
    using keep [OF that] assms(1) that by (auto simp: slots_ok_def slot_ok_def)
  moreover have "i = j" if "i < length ss" "j < length ss" "sl_valid (h (ss ! i))" "holds_lba (sl_lba (h (ss ! i))) (h (ss ! j))" for i j
    using keep [of "ss ! i"] keep [of "ss ! j"] that assms(1) by (simp add: slots_ok_def holds_lba_def)
  ultimately show ?thesis by (simp add: slots_ok_def)
qed

section \<open>The cache keeps the contract of the device\<close>

context block_device
begin

lemma fill_slot_ok:
  assumes dev: "ok (bc_dev c)" "bc_block_size c = block_size D (bc_dev c)" "bc_hand c < length (bc_slots c)"
    and slots: "slots_ok f (unat (block_count D (bc_dev c))) (bc_slots c)" "position (holds_lba lba) (bc_slots c) = None"
    and lba: "unat lba < unat (block_count D (bc_dev c))" "data = blk (bc_dev c) (unat lba)"
    and same: "\<And>i. i < unat (block_count D (bc_dev c)) \<Longrightarrow> i \<noteq> unat lba \<Longrightarrow> blk (bc_dev c) i = f i"
  shows "\<exists>c'. fill_slot D lba data c = (Ok (), c') \<and> cache_ok D ok blk c' \<and> bc_dev c' = bc_dev c"
proof -
  obtain v c1 where e: "evict_index c = (v, c1)" by (cases "evict_index c")
  note e1 = evict_index_same [OF dev(3) e]
  have ok1: "slots_ok f (unat (block_count D (bc_dev c))) (bc_slots c1)"
    using slots(1) slots_ok_key e1 by metis
  have free: "\<not> holds_lba lba s" if "s \<in> set (bc_slots c1)" for s
  proof -
    have "key s \<in> key ` set (bc_slots c)" using that e1 by (metis imageI set_map)
    then show ?thesis using slots(2) by (auto simp: position_None holds_lba_def key_def)
  qed
  have clean: "\<not> (sl_valid (bc_slots c1 ! v) \<and> sl_dirty (bc_slots c1 ! v))"
    using ok1 e1 by (auto simp: slots_ok_def slot_ok_def)
  let ?s = "\<lparr>sl_lba = lba, sl_data = data, sl_valid = True, sl_dirty = False, sl_refbit = True\<rparr>"
  have "slots_ok (blk (bc_dev c)) (unat (block_count D (bc_dev c))) ((bc_slots c1)[v := ?s])"
    unfolding lba(2) using e1 by (intro slots_ok_fill [OF ok1 free lba(1) same]) simp_all
  then have "cache_ok D ok blk (c1\<lparr>bc_slots := (bc_slots c1)[v := ?s]\<rparr>)"
    using dev e1 by (simp add: cache_ok_def)
  moreover have "fill_slot D lba data c = (Ok (), c1\<lparr>bc_slots := (bc_slots c1)[v := ?s]\<rparr>)"
    unfolding fill_slot_def e Let_def prod.case if_not_P [OF clean] by simp
  ultimately show ?thesis using e1 by simp
qed

lemma held_data:
  assumes "cache_ok D ok blk c" and "position (holds_lba lba) (bc_slots c) = Some i"
  shows "unat lba < unat (block_count D (bc_dev c))" "sl_data (bc_slots c ! i) = blk (bc_dev c) (unat lba)" "cache_ok D ok blk (touch i c)"
proof -
  have i: "i < length (bc_slots c)" "holds_lba lba (bc_slots c ! i)" using assms(2) by (simp_all add: position_Some)
  then show "unat lba < unat (block_count D (bc_dev c))" "sl_data (bc_slots c ! i) = blk (bc_dev c) (unat lba)"
    using assms(1) by (auto simp: cache_ok_def slots_ok_def slot_ok_def holds_lba_def)
  have "slots_ok f n ((bc_slots c)[i := (bc_slots c ! i)\<lparr>sl_refbit := True\<rparr>]) = slots_ok f n (bc_slots c)" for f n
    using i(1) by (intro slots_ok_key) simp
  then show "cache_ok D ok blk (touch i c)" using assms(1) by (simp add: cache_ok_def touch_def)
qed

lemma cache_ok_dev:
  assumes "cache_ok D ok blk c" and "keeps D ok blk UNIV (bc_dev c) dev"
  shows "cache_ok D ok blk (c\<lparr>bc_dev := dev\<rparr>)"
proof -
  have "slots_ok (blk dev) (unat (block_count D (bc_dev c))) (map id (bc_slots c))"
    using assms keepsD(4) [OF assms(2)]
    by (intro slots_ok_map [of "blk (bc_dev c)"]) (auto simp: cache_ok_def slots_ok_def slot_ok_def)
  then show ?thesis using assms keepsD(1-3) [OF assms(2)] by (simp add: cache_ok_def)
qed

lemma read_block_in:
  assumes c: "cache_ok D ok blk c" and l: "unat lba < unat (block_count D (bc_dev c))"
  shows "\<exists>c'. read_block D lba c = (Ok (blk (bc_dev c) (unat lba)), c') \<and> cache_ok D ok blk c'
    \<and> keeps D ok blk UNIV (bc_dev c) (bc_dev c')
    \<and> bc_dev c' \<in> {bc_dev c, snd (read_blocks D lba 1 (unat (block_size D (bc_dev c))) (bc_dev c))}"
proof (cases "position (holds_lba lba) (bc_slots c)")
  case None
  have dev: "ok (bc_dev c)" "bc_block_size c = block_size D (bc_dev c)" using c by (simp_all add: cache_ok_def)
  obtain dev' where r: "read_blocks D lba 1 (unat (block_size D (bc_dev c))) (bc_dev c) = (Ok (blk (bc_dev c) (unat lba)), dev')"
    and k: "keeps D ok blk UNIV (bc_dev c) dev'" using read_in [OF dev(1) l] by blast
  let ?c = "c\<lparr>bc_dev := dev', bc_misses := bc_misses c + 1\<rparr>"
  have c1: "cache_ok D ok blk ?c" using cache_ok_dev [OF c k] by (simp add: cache_ok_def)
  have "\<exists>c'. fill_slot D lba (blk (bc_dev c) (unat lba)) ?c = (Ok (), c') \<and> cache_ok D ok blk c' \<and> bc_dev c' = bc_dev ?c"
    by (rule fill_slot_ok [where f = "blk dev'"]) (use c1 None l keepsD [OF k] in \<open>simp_all add: cache_ok_def\<close>)
  then show ?thesis using None r k dev by (auto simp: read_block_def load_miss_def load_place_def)
next
  case (Some i)
  then show ?thesis using held_data [OF c Some] c
    by (auto simp: read_block_def touch_def cache_ok_def intro!: keeps_refl)
qed

lemma read_block_out:
  assumes c: "cache_ok D ok blk c" and l: "unat (block_count D (bc_dev c)) \<le> unat lba"
  shows "\<exists>e c'. read_block D lba c = (Err e, c') \<and> cache_ok D ok blk c' \<and> keeps D ok blk UNIV (bc_dev c) (bc_dev c')
    \<and> bc_dev c' = snd (read_blocks D lba 1 (unat (block_size D (bc_dev c))) (bc_dev c))"
proof -
  have "position (holds_lba lba) (bc_slots c) = None"
    using held_data(1) [OF c, of lba] l by (cases "position (holds_lba lba) (bc_slots c)") auto
  moreover have "bc_block_size c = block_size D (bc_dev c)" using c by (simp add: cache_ok_def)
  moreover obtain e dev' where "read_blocks D lba 1 (unat (block_size D (bc_dev c))) (bc_dev c) = (Err e, dev')"
    and "keeps D ok blk UNIV (bc_dev c) dev'" using read_out l c by (metis cache_ok_def)
  ultimately show ?thesis using cache_ok_dev [OF c] by (auto simp: read_block_def load_miss_def)
qed

lemma write_block_in:
  assumes c: "cache_ok D ok blk c" and l: "unat lba < unat (block_count D (bc_dev c))"
    and b: "length b = unat (block_size D (bc_dev c))"
  shows "\<exists>c'. write_block D lba b c = (Ok (), c') \<and> cache_ok D ok blk c'
    \<and> keeps D ok blk (- {unat lba}) (bc_dev c) (bc_dev c') \<and> blk (bc_dev c') (unat lba) = b
    \<and> bc_dev c' = snd (write_blocks D lba 1 b (bc_dev c))"
proof -
  have c0: "ok (bc_dev c)" "bc_block_size c = block_size D (bc_dev c)" "bc_hand c < length (bc_slots c)"
    "slots_ok (blk (bc_dev c)) (unat (block_count D (bc_dev c))) (bc_slots c)" using c by (simp_all add: cache_ok_def)
  obtain dev' where w: "write_blocks D lba 1 b (bc_dev c) = (Ok (), dev')"
    and k: "keeps D ok blk (- {unat lba}) (bc_dev c) dev'" and at: "blk dev' (unat lba) = b"
    using write_in [OF c0(1) l b] by blast
  have other: "\<And>i. i < unat (block_count D (bc_dev c)) \<Longrightarrow> i \<noteq> unat lba \<Longrightarrow> blk dev' i = blk (bc_dev c) i"
    using keepsD(4) [OF k] by simp
  let ?c = "c\<lparr>bc_dev := dev'\<rparr>"
  show ?thesis
  proof (cases "position (holds_lba lba) (bc_slots c)")
    case None
    have "\<exists>c'. fill_slot D lba b ?c = (Ok (), c') \<and> cache_ok D ok blk c' \<and> bc_dev c' = bc_dev ?c"
      by (rule fill_slot_ok [where f = "blk (bc_dev c)"]) (use c0 None l at other keepsD(1-3) [OF k] in simp_all)
    then show ?thesis using None w k at by (auto simp: write_block_def write_through_def write_cached_def)
  next
    case (Some i)
    then have i: "i < length (bc_slots c)" "holds_lba lba (bc_slots c ! i)" by (simp_all add: position_Some)
    have "slots_ok (blk dev') (unat (block_count D (bc_dev c)))
        ((bc_slots c)[i := (bc_slots c ! i)\<lparr>sl_data := blk dev' (unat lba), sl_refbit := True\<rparr>])"
      by (rule slots_ok_overwrite [OF c0(4) i other])
    then show ?thesis
      using Some w k at c0 keepsD(1-3) [OF k] by (simp add: write_block_def write_through_def write_cached_def cache_ok_def)
  qed
qed

lemma write_block_out:
  assumes c: "cache_ok D ok blk c"
    and "unat (block_count D (bc_dev c)) \<le> unat lba \<or> length b \<noteq> unat (block_size D (bc_dev c))"
  shows "\<exists>e c'. write_block D lba b c = (Err e, c') \<and> cache_ok D ok blk c' \<and> keeps D ok blk UNIV (bc_dev c) (bc_dev c')
    \<and> bc_dev c' = snd (write_blocks D lba 1 b (bc_dev c))"
proof -
  obtain e dev' where "write_blocks D lba 1 b (bc_dev c) = (Err e, dev')" and "keeps D ok blk UNIV (bc_dev c) dev'"
    using write_out [OF _ assms(2)] c by (auto simp: cache_ok_def)
  then show ?thesis using cache_ok_dev [OF c] by (auto simp: write_block_def write_through_def)
qed

lemma flush_slots_clean:
  assumes "cache_ok D ok blk c" and "\<forall>i\<in>set is. i < length (bc_slots c)"
  shows "flush_slots D is c = (Ok (), c)"
  using assms(2)
proof (induction "is")
  case Nil
  then show ?case by simp
next
  case (Cons i "is")
  then have "\<not> (sl_valid (bc_slots c ! i) \<and> sl_dirty (bc_slots c ! i))"
    using assms(1) by (auto simp: cache_ok_def slots_ok_def slot_ok_def)
  then show ?case using Cons by (auto simp: Let_def)
qed

lemma cache_flush_in:
  assumes c: "cache_ok D ok blk c"
  shows "\<exists>c'. cache_flush D c = (Ok (), c') \<and> cache_ok D ok blk c' \<and> keeps D ok blk UNIV (bc_dev c) (bc_dev c')
    \<and> bc_dev c' = snd (flush D (bc_dev c))"
proof -
  obtain dev' where "flush D (bc_dev c) = (Ok (), dev')" and "keeps D ok blk UNIV (bc_dev c) dev'"
    using flush_in c by (metis cache_ok_def)
  then show ?thesis using flush_slots_clean [OF c, of "[0..<length (bc_slots c)]"] cache_ok_dev [OF c]
    by (auto simp: cache_flush_def)
qed

lemma cache_discard_ok:
  assumes c: "cache_ok D ok blk c" and dis: "cache_discard D l n c = (r, c')"
  shows "cache_ok D ok blk c' \<and> discard D l n (bc_dev c) = (r, bc_dev c')
    \<and> block_count D (bc_dev c') = block_count D (bc_dev c) \<and> bc_block_size c' = bc_block_size c"
proof -
  let ?ss = "map (invalidate l n) (bc_slots c)"
  obtain dev where d: "discard D l n (bc_dev c) = (r, dev)" and c': "c' = c\<lparr>bc_slots := ?ss, bc_dev := dev\<rparr>"
    using dis by (cases "discard D l n (bc_dev c)") (auto simp: cache_discard_def)
  have dev: "ok (bc_dev c)" using c by (simp add: cache_ok_def)
  define B where "B = (if is_ok r then - {unat l..<unat l + unat n} else UNIV)"
  have k: "keeps D ok blk B (bc_dev c) dev"
    using discard_in [OF dev, of l n] discard_out [OF dev, of l n] d by (cases r) (auto simp: B_def)
  have "slots_ok (blk dev) (unat (block_count D (bc_dev c))) ?ss"
  proof (rule slots_ok_map)
    show "slots_ok (blk (bc_dev c)) (unat (block_count D (bc_dev c))) (bc_slots c)" using c by (simp add: cache_ok_def)
    fix s assume s: "s \<in> set (bc_slots c)"
    show "invalidate l n s = s \<and> (sl_valid s \<longrightarrow> blk dev (unat (sl_lba s)) = blk (bc_dev c) (unat (sl_lba s))) \<or> \<not> sl_valid (invalidate l n s)"
    proof (cases "sl_valid s \<and> sl_lba s \<ge> l \<and> sl_lba s < l + ucast n")
      case True
      then show ?thesis by (simp add: invalidate_def)
    next
      case False
      have lt: "sl_valid s \<Longrightarrow> unat (sl_lba s) < unat (block_count D (bc_dev c))"
        using c s by (auto simp: cache_ok_def slots_ok_def slot_ok_def)
      have "sl_valid s \<Longrightarrow> unat (sl_lba s) \<in> B"
      proof (cases r)
        case (Inr u)
        then have "unat l + unat n \<le> unat (block_count D (bc_dev c))" using discard_in [OF dev, of l n] d by auto
        then have "unat (l + ucast n) = unat l + unat n"
          using unat_lt [of "block_count D (bc_dev c)"] unat_lt [of "l + ucast n"]
          by (cases "unat l + unat n < 2 ^ 64") (simp_all add: unat_add_lt unat_ucast_u32)
        then show "sl_valid s \<Longrightarrow> unat (sl_lba s) \<in> B" using False by (auto simp: B_def Inr word_le_nat_alt word_less_nat_alt)
      qed (simp add: B_def)
      then show ?thesis using False lt keepsD(4) [OF k] by (auto simp: invalidate_def)
    qed
  qed
  then show ?thesis using c c' d keepsD(1-3) [OF k] by (simp add: cache_ok_def)
qed

lemma cache_ok_new: "ok d \<Longrightarrow> cache_ok D ok blk (BlockCache_new D d cap)"
  by (auto simp: cache_ok_def BlockCache_new_def slots_ok_def slot_ok_def)

lemma cache_ok_size: "cache_ok D ok blk c \<Longrightarrow> bc_block_size c = block_size D (bc_dev c)"
  by (simp add: cache_ok_def)

lemma cache_keeps:
  "cache_ok D ok blk c \<Longrightarrow> cache_ok D ok blk c' \<Longrightarrow> keeps D ok blk B (bc_dev c) (bc_dev c') \<Longrightarrow>
   keeps (cache_device D) (cache_ok D ok blk) (\<lambda>c. blk (bc_dev c)) B c c'"
  by (simp add: keeps_def cache_device_def cache_ok_size)

lemma one_block:
  "cache_read_blocks D l 1 (unat (bc_block_size c)) c =
     (case read_block D l c of (Err e, c') \<Rightarrow> (Err e, c') | (Ok b, c') \<Rightarrow> (Ok (take (unat (bc_block_size c')) b), c'))"
  "length b = unat (bc_block_size c) \<Longrightarrow> cache_write_blocks D l 1 b c = write_block D l b c"
  by (auto simp: cache_read_blocks_def cache_write_blocks_def lbas_from_def split: prod.splits sum.splits)

lemma cache_read_in:
  assumes c: "cache_ok D ok blk c" and l: "unat l < unat (block_count D (bc_dev c))"
  shows "\<exists>c'. cache_read_blocks D l 1 (unat (bc_block_size c)) c = (Ok (blk (bc_dev c) (unat l)), c')
    \<and> cache_ok D ok blk c' \<and> keeps D ok blk UNIV (bc_dev c) (bc_dev c')
    \<and> bc_dev c' \<in> {bc_dev c, snd (read_blocks D l 1 (unat (block_size D (bc_dev c))) (bc_dev c))}"
proof -
  obtain c' where r: "read_block D l c = (Ok (blk (bc_dev c) (unat l)), c')" "cache_ok D ok blk c'"
    "keeps D ok blk UNIV (bc_dev c) (bc_dev c')"
    "bc_dev c' \<in> {bc_dev c, snd (read_blocks D l 1 (unat (block_size D (bc_dev c))) (bc_dev c))}"
    using read_block_in [OF c l] by blast
  have "length (blk (bc_dev c) (unat l)) = unat (bc_block_size c')"
    using blk_length [OF _ l] c keepsD(3) [OF r(3)] cache_ok_size [OF r(2)] by (simp add: cache_ok_def)
  then show ?thesis using r by (simp add: one_block)
qed

lemma cache_read_out:
  assumes c: "cache_ok D ok blk c" and l: "unat (block_count D (bc_dev c)) \<le> unat l"
  shows "\<exists>e c'. cache_read_blocks D l 1 n c = (Err e, c') \<and> cache_ok D ok blk c' \<and> keeps D ok blk UNIV (bc_dev c) (bc_dev c')"
proof (cases "n = unat (bc_block_size c)")
  case True
  obtain e c' where "read_block D l c = (Err e, c')" "cache_ok D ok blk c'" "keeps D ok blk UNIV (bc_dev c) (bc_dev c')"
    using read_block_out [OF c l] by blast
  then show ?thesis by (simp add: True one_block)
next
  case False
  then show ?thesis using c by (auto simp: cache_read_blocks_def cache_ok_def intro!: keeps_refl)
qed

lemma cache_write_out:
  assumes c: "cache_ok D ok blk c" and l: "unat (block_count D (bc_dev c)) \<le> unat l \<or> length b \<noteq> unat (bc_block_size c)"
  shows "\<exists>e c'. cache_write_blocks D l 1 b c = (Err e, c') \<and> cache_ok D ok blk c' \<and> keeps D ok blk UNIV (bc_dev c) (bc_dev c')"
proof (cases "length b = unat (bc_block_size c)")
  case True
  then have "unat (block_count D (bc_dev c)) \<le> unat l" using l by simp
  then obtain e c' where "write_block D l b c = (Err e, c')" "cache_ok D ok blk c'" "keeps D ok blk UNIV (bc_dev c) (bc_dev c')"
    using write_block_out [OF c, of l b] by blast
  then show ?thesis using True by (simp add: one_block(2))
next
  case False
  then show ?thesis using c by (auto simp: cache_write_blocks_def cache_ok_def intro!: keeps_refl)
qed

lemma cached: "block_device (cache_device D) (cache_ok D ok blk) (\<lambda>c. blk (bc_dev c))"
proof (unfold_locales, unfold cache_device_simps)
  show "\<exists>c'. cache_read_blocks D l 1 (unat (bc_block_size c)) c = (Ok (blk (bc_dev c) (unat l)), c')
      \<and> keeps (cache_device D) (cache_ok D ok blk) (\<lambda>c. blk (bc_dev c)) UNIV c c'"
    if "cache_ok D ok blk c" "unat l < unat (block_count D (bc_dev c))" for c l
    using cache_read_in [OF that] cache_keeps that(1) by blast
  show "\<exists>e c'. cache_read_blocks D l 1 n c = (Err e, c') \<and> keeps (cache_device D) (cache_ok D ok blk) (\<lambda>c. blk (bc_dev c)) UNIV c c'"
    if "cache_ok D ok blk c" "unat (block_count D (bc_dev c)) \<le> unat l" for c l n
    using cache_read_out [OF that] cache_keeps that(1) by blast
  show "length (blk (bc_dev c) i) = unat (bc_block_size c)" if "cache_ok D ok blk c" "i < unat (block_count D (bc_dev c))" for c i
    using blk_length [OF _ that(2)] that(1) by (simp add: cache_ok_def)
  show "\<exists>c'. cache_write_blocks D l 1 b c = (Ok (), c') \<and> keeps (cache_device D) (cache_ok D ok blk) (\<lambda>c. blk (bc_dev c)) (- {unat l}) c c'
      \<and> blk (bc_dev c') (unat l) = b"
    if "cache_ok D ok blk c" "unat l < unat (block_count D (bc_dev c))" "length b = unat (bc_block_size c)" for c l b
    using write_block_in [OF that(1,2)] that cache_keeps [OF that(1)] by (metis cache_ok_size one_block(2))
  show "\<exists>e c'. cache_write_blocks D l 1 b c = (Err e, c') \<and> keeps (cache_device D) (cache_ok D ok blk) (\<lambda>c. blk (bc_dev c)) UNIV c c'"
    if "cache_ok D ok blk c" "unat (block_count D (bc_dev c)) \<le> unat l \<or> length b \<noteq> unat (bc_block_size c)" for c l b
    using cache_write_out [OF that] cache_keeps that(1) by blast
  show "\<exists>c'. cache_flush D c = (Ok (), c') \<and> keeps (cache_device D) (cache_ok D ok blk) (\<lambda>c. blk (bc_dev c)) UNIV c c'"
    if "cache_ok D ok blk c" for c
    using cache_flush_in [OF that] cache_keeps that by blast
  show "unat l + unat n \<le> unat (block_count D (bc_dev c)) \<and> keeps (cache_device D) (cache_ok D ok blk) (\<lambda>c. blk (bc_dev c)) (- {unat l..<unat l + unat n}) c c'"
    if "cache_ok D ok blk c" "cache_discard D l n c = (Ok u, c')" for c l n u c'
  proof -
    have "ok (bc_dev c)" using that(1) by (simp add: cache_ok_def)
    then show ?thesis
      using cache_discard_ok [OF that] discard_in [of "bc_dev c" l n u "bc_dev c'"] cache_keeps [OF that(1)] by blast
  qed
  show "keeps (cache_device D) (cache_ok D ok blk) (\<lambda>c. blk (bc_dev c)) UNIV c c'"
    if "cache_ok D ok blk c" "cache_discard D l n c = (Err e, c')" for c l n e c'
  proof -
    have "ok (bc_dev c)" using that(1) by (simp add: cache_ok_def)
    then show ?thesis
      using cache_discard_ok [OF that] discard_out [of "bc_dev c" l n e "bc_dev c'"] cache_keeps [OF that(1)] by blast
  qed
qed

end

text \<open>A cache over the memory device is a block device again, and so is a cache over that.\<close>

interpretation cached_memory: block_device "cache_device memory_device" "cache_ok memory_device mem_ok mem_blk" "\<lambda>c. mem_blk (bc_dev c)"
  by (rule memory.cached)

section \<open>Running requests\<close>






abbreviation mem_cache_ok :: "MemoryBlockDevice BlockCache \<Rightarrow> bool" where
  "mem_cache_ok \<equiv> cache_ok memory_device mem_ok mem_blk"




section \<open>Two writers\<close>

lemma position_update:
  "position P ss = Some i \<Longrightarrow> P s \<Longrightarrow> position P (ss[i := s]) = Some i"
  by (auto simp: position_Some nth_list_update)

lemma read_held: "position (holds_lba l) (bc_slots c) = Some i \<Longrightarrow> fst (read_block D l c) = Ok (sl_data (bc_slots c ! i))"
  by (simp add: read_block_def)

lemma write_cached_held:
  assumes "position (holds_lba l) (bc_slots c) = Some i"
  shows "fst (read_block D l (snd (write_cached D l data c))) = Ok data \<and> bc_dev (snd (write_cached D l data c)) = bc_dev c"
proof -
  let ?s = "(bc_slots c ! i)\<lparr>sl_data := data, sl_refbit := True\<rparr>"
  have i: "i < length (bc_slots c)" "holds_lba l (bc_slots c ! i)" using assms by (simp_all add: position_Some)
  then have "position (holds_lba l) ((bc_slots c)[i := ?s]) = Some i"
    using assms by (intro position_update) (simp_all add: holds_lba_def)
  then show ?thesis using assms i(1) by (simp add: write_cached_def read_block_def)
qed

lemma fill_slot_holds:
  assumes "bc_hand c < length (bc_slots c)" and "fill_slot D l data c = (Ok u, c')"
  shows "\<exists>s\<in>set (bc_slots c'). holds_lba l s"
proof -
  obtain v c1 where e: "evict_index c = (v, c1)" by (cases "evict_index c")
  let ?s = "\<lparr>sl_lba = l, sl_data = data, sl_valid = True, sl_dirty = False, sl_refbit = True\<rparr>"
  have "bc_slots c' = (bc_slots c1)[v := ?s]"
    using assms(2) unfolding fill_slot_def e Let_def by (auto split: prod.splits sum.splits if_splits)
  moreover have "v < length (bc_slots c1)" using evict_index_same [OF assms(1) e] by simp
  ultimately have "?s \<in> set (bc_slots c')" by (simp add: set_update_memI)
  moreover have "holds_lba l ?s" by (simp add: holds_lba_def)
  ultimately show ?thesis by blast
qed

section \<open>Properties\<close>



text \<open>
  Property C38.  Concurrent writes can leave the cache stale.  A write goes to the device under one lock and to the
  cache under another.  When two writers of the same block pass the device in one order and the cache in
  the other, the cache goes on answering with the older data: reads of the block return what the first
  writer wrote, while the device holds what the second one wrote.\<close>

theorem concurrent_writes_diverge:
  assumes d: "mem_ok d" and l: "unat l < unat (block_count memory_device d)"
    and a: "length a = unat (md_block_size d)" and b: "length b = unat (md_block_size d)"
    and c1: "c1 = snd (write_through memory_device l a (BlockCache_new memory_device d cap))"
    and c2: "c2 = snd (write_through memory_device l b c1)"
    and c3: "c3 = snd (write_cached memory_device l b c2)"
    and c4: "c4 = snd (write_cached memory_device l a c3)"
  shows "fst (read_block memory_device l c4) = Ok a
    \<and> fst (mem_read_blocks l 1 (unat (md_block_size d)) (bc_dev c4)) = Ok b"
proof -
  let ?c0 = "BlockCache_new memory_device d cap"
  have c0: "mem_cache_ok ?c0" by (rule memory.cache_ok_new [OF d])
  obtain d1 where w1: "mem_write_blocks l 1 a d = (Ok (), d1)" and k1: "keeps memory_device mem_ok mem_blk (- {unat l}) d d1"
    using memory.write_in [OF d l] a by auto
  have c1': "c1 = BlockCache_new memory_device d1 cap"
    using w1 c1 memory.keepsD(3) [OF k1] by (simp add: write_through_def BlockCache_new_def)
  have d1: "mem_ok d1" "unat l < unat (block_count memory_device d1)" "md_block_size d1 = md_block_size d"
    using memory.keepsD(1-3) [OF k1] l by simp_all
  have "mem_cache_ok c1" unfolding c1' by (rule memory.cache_ok_new [OF d1(1)])
  then obtain c3' where w3: "write_block memory_device l b c1 = (Ok (), c3')" and ok3: "mem_cache_ok c3'" and b3: "mem_blk (bc_dev c3') (unat l) = b"
    and k3: "keeps memory_device mem_ok mem_blk (- {unat l}) (bc_dev c1) (bc_dev c3')"
    using memory.write_block_in [of c1 l b] d1 b by (auto simp: c1' BlockCache_new_def)
  have "c3' = c3" using w3 c2 c3 by (auto simp: write_block_def split: prod.splits sum.splits)
  have ok_dev: "mem_ok (bc_dev c3)" "unat l < unat (block_count memory_device (bc_dev c3))" "md_block_size (bc_dev c3) = md_block_size d"
    using memory.keepsD(1-3) [OF k3] d1 \<open>c3' = c3\<close> by (simp_all add: c1' BlockCache_new_def)
  have "position (holds_lba l) (bc_slots c2) = None"
    unfolding c2 c1' by (simp add: write_through_def BlockCache_new_def case_prod_beta position_None holds_lba_def)
  then have "write_cached memory_device l b c2 = fill_slot memory_device l b c2" by (simp add: write_cached_def)
  moreover have "bc_hand c2 < length (bc_slots c2)"
    unfolding c2 c1' by (simp add: write_through_def BlockCache_new_def case_prod_beta)
  moreover have "write_cached memory_device l b c2 = (Ok (), c3)"
    using w3 c2 c3 by (auto simp: write_block_def split: prod.splits sum.splits)
  ultimately have "\<exists>s\<in>set (bc_slots c3). holds_lba l s"
    by (metis fill_slot_holds)
  then obtain i where "position (holds_lba l) (bc_slots c3) = Some i"
    by (cases "position (holds_lba l) (bc_slots c3)") (auto simp: position_None)
  from write_cached_held [OF this, of memory_device a]
  have "fst (read_block memory_device l c4) = Ok a" "bc_dev c4 = bc_dev c3" by (simp_all add: c4)
  moreover have "fst (mem_read_blocks l 1 (unat (md_block_size d)) (bc_dev c3)) = Ok b"
    using memory.read_in [OF ok_dev(1,2)] ok_dev(3) b3 \<open>c3' = c3\<close> by auto
  ultimately show ?thesis by simp
qed

theorem concurrent_writes_diverge_witness:
  "\<exists>c :: MemoryBlockDevice BlockCache. fst (read_block memory_device 1 c) = Ok (replicate 512 7)
    \<and> fst (mem_read_blocks 1 1 512 (bc_dev c)) = Ok (replicate 512 9)"
proof -
  let ?d = "\<lparr>md_data = replicate 2048 0, md_block_size = 512, md_flush_count = 0, md_discards = []\<rparr>"
  have "mem_ok ?d" by (simp add: mem_ok_def)
  moreover have "unat (1 :: u64) < unat (block_count memory_device ?d)" by (simp add: memory_device_def)
  ultimately show ?thesis
    using concurrent_writes_diverge [OF _ _ _ _ refl refl refl refl, of ?d 1 "replicate 512 7" "replicate 512 9" 2] by auto
qed

end
