(* ===== verification/Superblock.thy ===== *)
theory Superblock
  imports Block
begin

text \<open>
  The EuroFS superblock (\<open>crates/eurofs/src/superblock.rs\<close>) and the fault-injecting device of its tests
  (\<open>faulty.rs\<close>).  XXH3 comes from a third-party crate (\<open>checksum.rs\<close> only calls it), so the hash is a
  parameter; the results need nothing of it but that a torn block does not pass the check.  The packed
  C struct is the concatenation of its fields in little-endian order.
\<close>

section \<open>The structure\<close>

definition EUROFS_MAGIC :: bytes where "EUROFS_MAGIC = [0x45, 0x55, 0x52, 0x4F, 0x46, 0x53, 0x30, 0x31]"
definition EUROFS_VERSION_MAJOR :: u16 where "EUROFS_VERSION_MAJOR = 0"
definition EUROFS_VERSION_MINOR :: u16 where "EUROFS_VERSION_MINOR = 1"
definition SUPERBLOCK_BLOCK :: u64 where "SUPERBLOCK_BLOCK = 1"
definition SUPERBLOCK_BACKUP_BLOCK :: u64 where "SUPERBLOCK_BACKUP_BLOCK = 2"
definition DEFAULT_BLOCK_SIZE :: u32 where "DEFAULT_BLOCK_SIZE = 4096"
definition RESERVED_BLOCKS :: u64 where "RESERVED_BLOCKS = 16"

record EuroFsSuperblock =
  sb_magic :: bytes
  sb_version_major :: u16
  sb_version_minor :: u16
  sb_uuid :: bytes
  sb_block_size :: u32
  sb_total_blocks :: u64
  sb_free_blocks :: u64
  sb_reserved_blocks :: u64
  sb_created_at :: u64
  sb_last_mounted :: u64
  sb_last_written :: u64
  sb_checkpoint_id :: u64
  sb_checkpoint_block :: u64
  sb_object_map_root :: u64
  sb_extent_tree_root :: u64
  sb_root_dir_oid :: u64
  sb_encryption :: u8
  sb_kdf_params :: bytes
  sb_wrapped_key :: bytes
  sb_checksum :: u64
  sb_padding :: bytes

definition sb_fields :: "EuroFsSuperblock \<Rightarrow> bytes list" where
  "sb_fields sb =
     [sb_magic sb, to_le 2 (sb_version_major sb), to_le 2 (sb_version_minor sb), sb_uuid sb,
      to_le 4 (sb_block_size sb), to_le 8 (sb_total_blocks sb), to_le 8 (sb_free_blocks sb),
      to_le 8 (sb_reserved_blocks sb), to_le 8 (sb_created_at sb), to_le 8 (sb_last_mounted sb),
      to_le 8 (sb_last_written sb), to_le 8 (sb_checkpoint_id sb), to_le 8 (sb_checkpoint_block sb),
      to_le 8 (sb_object_map_root sb), to_le 8 (sb_extent_tree_root sb), to_le 8 (sb_root_dir_oid sb),
      [sb_encryption sb], sb_kdf_params sb, sb_wrapped_key sb, to_le 8 (sb_checksum sb), sb_padding sb]"

definition superblock_to_bytes :: "EuroFsSuperblock \<Rightarrow> bytes" where
  "superblock_to_bytes sb = concat (sb_fields sb)"

text \<open>The byte widths of the fields, in order.\<close>

definition sb_widths :: "nat list" where
  "sb_widths = [8, 2, 2, 16, 4, 8, 8, 8, 8, 8, 8, 8, 8, 8, 8, 8, 1, 64, 48, 8, 271]"

fun split_widths :: "nat list \<Rightarrow> bytes \<Rightarrow> bytes list" where
  "split_widths [] bs = []"
| "split_widths (n # ns) bs = take n bs # split_widths ns (drop n bs)"

definition superblock_from_bytes :: "bytes \<Rightarrow> EuroFsSuperblock" where
  "superblock_from_bytes buf =
     (let f = (\<lambda>i. split_widths sb_widths buf ! i)
      in \<lparr>sb_magic = f 0, sb_version_major = from_le (f 1), sb_version_minor = from_le (f 2), sb_uuid = f 3,
          sb_block_size = from_le (f 4), sb_total_blocks = from_le (f 5), sb_free_blocks = from_le (f 6),
          sb_reserved_blocks = from_le (f 7), sb_created_at = from_le (f 8), sb_last_mounted = from_le (f 9),
          sb_last_written = from_le (f 10), sb_checkpoint_id = from_le (f 11), sb_checkpoint_block = from_le (f 12),
          sb_object_map_root = from_le (f 13), sb_extent_tree_root = from_le (f 14), sb_root_dir_oid = from_le (f 15),
          sb_encryption = hd (f 16), sb_kdf_params = f 17, sb_wrapped_key = f 18, sb_checksum = from_le (f 19),
          sb_padding = f 20\<rparr>)"

definition CHECKSUM_OFFSET :: nat where "CHECKSUM_OFFSET = 233"

definition compute_checksum :: "(bytes \<Rightarrow> u64) \<Rightarrow> EuroFsSuperblock \<Rightarrow> u64" where
  "compute_checksum hash sb = hash (take CHECKSUM_OFFSET (superblock_to_bytes sb))"

definition new_empty :: "(bytes \<Rightarrow> u64) \<Rightarrow> u64 \<Rightarrow> bytes \<Rightarrow> u64 \<Rightarrow> EuroFsSuperblock" where
  "new_empty hash total_blocks uuid created_at =
     (let sb = \<lparr>sb_magic = EUROFS_MAGIC, sb_version_major = EUROFS_VERSION_MAJOR, sb_version_minor = EUROFS_VERSION_MINOR,
          sb_uuid = uuid, sb_block_size = DEFAULT_BLOCK_SIZE, sb_total_blocks = total_blocks,
          sb_free_blocks = saturating_sub total_blocks RESERVED_BLOCKS, sb_reserved_blocks = RESERVED_BLOCKS,
          sb_created_at = created_at, sb_last_mounted = 0, sb_last_written = created_at, sb_checkpoint_id = 1,
          sb_checkpoint_block = 3, sb_object_map_root = 11, sb_extent_tree_root = 12, sb_root_dir_oid = 1,
          sb_encryption = 0, sb_kdf_params = replicate 64 0, sb_wrapped_key = replicate 48 0, sb_checksum = 0,
          sb_padding = replicate 271 0\<rparr>
      in sb\<lparr>sb_checksum := compute_checksum hash sb\<rparr>)"

definition superblock_is_valid :: "(bytes \<Rightarrow> u64) \<Rightarrow> EuroFsSuperblock \<Rightarrow> bool" where
  "superblock_is_valid hash sb \<longleftrightarrow>
     sb_magic sb = EUROFS_MAGIC \<and> sb_version_major sb = EUROFS_VERSION_MAJOR \<and> sb_block_size sb \<ge> 512
     \<and> is_power_of_two (sb_block_size sb) \<and> sb_checksum sb = compute_checksum hash sb"

section \<open>The two slots\<close>

text \<open>On a device with blocks below 512 bytes the slice of the block panics: \<open>read_slot\<close> has no value and the
  writers end with \<open>BlockPanic\<close>.  The memory device excludes such a block size.\<close>

definition superblock_read_slot ::
    "(bytes \<Rightarrow> u64) \<Rightarrow> 'd BlockDevice \<Rightarrow> u64 \<Rightarrow> 'd \<Rightarrow> EuroFsSuperblock option \<times> 'd" where
  "superblock_read_slot hash D loc dev =
     (let bs = unat (block_size D dev)
      in case read_blocks D loc 1 bs dev of
           (Err _, dev) \<Rightarrow> (None, dev)
         | (Ok block, dev) \<Rightarrow>
             if bs < 512 then (None, dev)
             else (let sb = superblock_from_bytes (take 512 block)
                   in (if superblock_is_valid hash sb then Some sb else None, dev)))"

definition padded_block :: "'d BlockDevice \<Rightarrow> 'd \<Rightarrow> bytes \<Rightarrow> bytes" where
  "padded_block D dev bytes = copy_at 0 bytes (replicate (unat (block_size D dev)) 0)"

definition target_slot :: "u64 option \<Rightarrow> u64 option \<Rightarrow> u64" where
  "target_slot ga gb = (case (ga, gb) of
      (None, _) \<Rightarrow> SUPERBLOCK_BLOCK
    | (_, None) \<Rightarrow> SUPERBLOCK_BACKUP_BLOCK
    | (Some a, Some b) \<Rightarrow> if a \<le> b then SUPERBLOCK_BLOCK else SUPERBLOCK_BACKUP_BLOCK)"

definition write_slots :: "'d BlockDevice \<Rightarrow> u64 option \<Rightarrow> u64 option \<Rightarrow> bytes \<Rightarrow> 'd \<Rightarrow> unit block_result \<times> 'd" where
  "write_slots D ga gb block dev =
     (if ga = None \<and> gb = None then
        (case write_blocks D SUPERBLOCK_BLOCK 1 block dev of
           (Err e, dev) \<Rightarrow> (Err e, dev)
         | (Ok _, dev) \<Rightarrow> write_blocks D SUPERBLOCK_BACKUP_BLOCK 1 block dev)
      else write_blocks D (target_slot ga gb) 1 block dev)"

definition superblock_write_to ::
    "(bytes \<Rightarrow> u64) \<Rightarrow> 'd BlockDevice \<Rightarrow> EuroFsSuperblock \<Rightarrow> 'd \<Rightarrow> unit block_result \<times> 'd" where
  "superblock_write_to hash D sb dev =
     (case flush D dev of
        (Err e, dev) \<Rightarrow> (Err e, dev)
      | (Ok _, dev) \<Rightarrow>
          (let (sa, dev) = superblock_read_slot hash D SUPERBLOCK_BLOCK dev;
               (sb2, dev) = superblock_read_slot hash D SUPERBLOCK_BACKUP_BLOCK dev
           in if block_size D dev < 512 then (Err BlockPanic, dev)
              else case write_slots D (map_option sb_checkpoint_id sa) (map_option sb_checkpoint_id sb2)
                          (padded_block D dev (superblock_to_bytes sb)) dev of
                (Err e, dev) \<Rightarrow> (Err e, dev)
              | (Ok _, dev) \<Rightarrow> flush D dev))"

definition degraded_slots :: "(bytes \<Rightarrow> u64) \<Rightarrow> 'd BlockDevice \<Rightarrow> 'd \<Rightarrow> u8 \<times> 'd" where
  "degraded_slots hash D dev =
     (let (a, dev) = superblock_read_slot hash D SUPERBLOCK_BLOCK dev;
          (b, dev) = superblock_read_slot hash D SUPERBLOCK_BACKUP_BLOCK dev
      in ((if a = None then 1 else 0) + (if b = None then 1 else 0), dev))"

definition heal_slots :: "(bytes \<Rightarrow> u64) \<Rightarrow> 'd BlockDevice \<Rightarrow> 'd \<Rightarrow> nat block_result \<times> 'd" where
  "heal_slots hash D dev =
     (let (a, dev) = superblock_read_slot hash D SUPERBLOCK_BLOCK dev;
          (b, dev) = superblock_read_slot hash D SUPERBLOCK_BACKUP_BLOCK dev;
          repair = (\<lambda>loc valid.
            (case write_blocks D loc 1 (padded_block D dev (superblock_to_bytes valid)) dev of
               (Err e, dev) \<Rightarrow> (Err e, dev)
             | (Ok _, dev) \<Rightarrow> (case flush D dev of (Err e, dev) \<Rightarrow> (Err e, dev) | (Ok _, dev) \<Rightarrow> (Ok 1, dev))))
      in case (a, b) of
           (Some valid, None) \<Rightarrow> repair SUPERBLOCK_BACKUP_BLOCK valid
         | (None, Some valid) \<Rightarrow> repair SUPERBLOCK_BLOCK valid
         | _ \<Rightarrow> (Ok 0, dev))"

definition better :: "EuroFsSuperblock option \<Rightarrow> EuroFsSuperblock option \<Rightarrow> EuroFsSuperblock option" where
  "better best slot = (case slot of
      None \<Rightarrow> best
    | Some sb \<Rightarrow> (case best of
        None \<Rightarrow> Some sb
      | Some b \<Rightarrow> if sb_checkpoint_id sb > sb_checkpoint_id b then Some sb else best))"

definition superblock_read_from ::
    "(bytes \<Rightarrow> u64) \<Rightarrow> 'd BlockDevice \<Rightarrow> 'd \<Rightarrow> (EuroFsSuperblock, FsError) result \<times> 'd" where
  "superblock_read_from hash D dev =
     (let (a, dev) = superblock_read_slot hash D SUPERBLOCK_BLOCK dev;
          (b, dev) = superblock_read_slot hash D SUPERBLOCK_BACKUP_BLOCK dev
      in (ok_or (better (better None a) b) Corruption, dev))"

section \<open>The fault-injecting device\<close>

record 'd FaultyBlockDevice =
  fb_inner :: 'd
  fb_writes :: u64
  fb_crash_after :: "u64 option"
  fb_tear_at :: "u64 option"
  fb_crashed :: bool
  fb_sb_write_ops :: "u64 list"

definition FaultyBlockDevice_new :: "'d \<Rightarrow> 'd FaultyBlockDevice" where
  "FaultyBlockDevice_new inner =
     \<lparr>fb_inner = inner, fb_writes = 0, fb_crash_after = None, fb_tear_at = None, fb_crashed = False, fb_sb_write_ops = []\<rparr>"

definition crash_after :: "'d \<Rightarrow> u64 \<Rightarrow> 'd FaultyBlockDevice" where
  "crash_after inner k = (FaultyBlockDevice_new inner)\<lparr>fb_crash_after := Some k\<rparr>"

definition tear_at :: "'d \<Rightarrow> u64 \<Rightarrow> 'd FaultyBlockDevice" where
  "tear_at inner k = (FaultyBlockDevice_new inner)\<lparr>fb_tear_at := Some k\<rparr>"

definition torn :: "bytes \<Rightarrow> bytes" where
  "torn buf = (let half = length buf div 2 in take half buf @ replicate (length buf - half) 0)"

definition faulty_write_blocks ::
    "'d BlockDevice \<Rightarrow> u64 \<Rightarrow> u32 \<Rightarrow> bytes \<Rightarrow> 'd FaultyBlockDevice \<Rightarrow> unit block_result \<times> 'd FaultyBlockDevice" where
  "faulty_write_blocks D start cnt buf f =
     (if fb_crashed f then (Ok (), f)
      else
        (let f = f\<lparr>fb_writes := fb_writes f + 1\<rparr>;
             idx = fb_writes f;
             f = (if start \<le> 2 then f\<lparr>fb_sb_write_ops := fb_sb_write_ops f @ [idx]\<rparr> else f)
         in if fb_tear_at f = Some idx then
              (Ok (), f\<lparr>fb_inner := snd (write_blocks D start cnt (torn buf) (fb_inner f)), fb_crashed := True\<rparr>)
            else if (case fb_crash_after f of None \<Rightarrow> False | Some k \<Rightarrow> idx > k) then (Ok (), f\<lparr>fb_crashed := True\<rparr>)
            else (let (r, d) = write_blocks D start cnt buf (fb_inner f) in (r, f\<lparr>fb_inner := d\<rparr>))))"

definition faulty_device :: "'d BlockDevice \<Rightarrow> 'd FaultyBlockDevice BlockDevice" where
  "faulty_device D =
     \<lparr>block_size = (\<lambda>f. block_size D (fb_inner f)), block_count = (\<lambda>f. block_count D (fb_inner f)),
      read_blocks = (\<lambda>start cnt n f. let (r, d) = read_blocks D start cnt n (fb_inner f) in (r, f\<lparr>fb_inner := d\<rparr>)),
      write_blocks = faulty_write_blocks D,
      flush = (\<lambda>f. if fb_crashed f then (Ok (), f)
        else let (r, d) = flush D (fb_inner f) in (r, f\<lparr>fb_inner := d\<rparr>)),
      discard = (\<lambda>start cnt f. if fb_crashed f then (Ok (), f)
        else let (r, d) = discard D start cnt (fb_inner f) in (r, f\<lparr>fb_inner := d\<rparr>))\<rparr>"

section \<open>Reading back a superblock\<close>

text \<open>The arrays of the structure have their lengths.\<close>

definition sb_wf :: "EuroFsSuperblock \<Rightarrow> bool" where
  "sb_wf sb \<longleftrightarrow> length (sb_magic sb) = 8 \<and> length (sb_uuid sb) = 16 \<and> length (sb_kdf_params sb) = 64
     \<and> length (sb_wrapped_key sb) = 48 \<and> length (sb_padding sb) = 271"

lemma sb_fields_widths: "sb_wf sb \<Longrightarrow> map length (sb_fields sb) = sb_widths"
  by (simp add: sb_wf_def sb_fields_def sb_widths_def)

lemma split_widths_concat: "split_widths (map length fs) (concat fs) = fs"
  by (induction fs) simp_all

lemma length_superblock: "sb_wf sb \<Longrightarrow> length (superblock_to_bytes sb) = 512"
  by (simp add: superblock_to_bytes_def length_concat sb_fields_widths sb_widths_def)

lemma superblock_round_trip:
  assumes "sb_wf sb"
  shows "superblock_from_bytes (superblock_to_bytes sb) = sb"
proof -
  have "split_widths sb_widths (superblock_to_bytes sb) = sb_fields sb"
    unfolding superblock_to_bytes_def sb_fields_widths [OF assms, symmetric] by (rule split_widths_concat)
  then show ?thesis
    by (simp add: superblock_from_bytes_def sb_fields_def from_to_le)
qed

definition decode_slot :: "(bytes \<Rightarrow> u64) \<Rightarrow> bytes \<Rightarrow> EuroFsSuperblock option" where
  "decode_slot hash b =
     (let sb = superblock_from_bytes (take 512 b) in if superblock_is_valid hash sb then Some sb else None)"

lemma decode_padded:
  assumes "sb_wf sb" and "superblock_is_valid hash sb" and "512 \<le> unat (block_size D dev)"
  shows "decode_slot hash (padded_block D dev (superblock_to_bytes sb)) = Some sb"
    and "length (padded_block D dev (superblock_to_bytes sb)) = unat (block_size D dev)"
proof -
  have "take 512 (padded_block D dev (superblock_to_bytes sb)) = superblock_to_bytes sb"
    using length_superblock [OF assms(1)] by (simp add: padded_block_def copy_at_def)
  then show "decode_slot hash (padded_block D dev (superblock_to_bytes sb)) = Some sb"
    using assms by (simp add: decode_slot_def superblock_round_trip)
  show "length (padded_block D dev (superblock_to_bytes sb)) = unat (block_size D dev)"
    using assms(3) length_superblock [OF assms(1)] by (simp add: padded_block_def)
qed

text \<open>Storing the checksum does not change what it covers.\<close>

lemma seal_valid:
  assumes "sb_wf sb" and "sb_magic sb = EUROFS_MAGIC" "sb_version_major sb = EUROFS_VERSION_MAJOR"
    and "sb_block_size sb \<ge> 512" "is_power_of_two (sb_block_size sb)"
  shows "superblock_is_valid hash (sb\<lparr>sb_checksum := compute_checksum hash sb\<rparr>)"
proof -
  have "take CHECKSUM_OFFSET (superblock_to_bytes (sb\<lparr>sb_checksum := k\<rparr>)) = take CHECKSUM_OFFSET (superblock_to_bytes sb)" for k
    using assms(1) by (simp add: superblock_to_bytes_def sb_fields_def sb_wf_def CHECKSUM_OFFSET_def)
  then show ?thesis using assms by (simp add: superblock_is_valid_def compute_checksum_def)
qed

lemma new_empty_valid:
  assumes "length uuid = 16"
  shows "sb_wf (new_empty hash n uuid t)" "superblock_is_valid hash (new_empty hash n uuid t)"
proof -
  show "sb_wf (new_empty hash n uuid t)" using assms by (simp add: new_empty_def sb_wf_def EUROFS_MAGIC_def)
  show "superblock_is_valid hash (new_empty hash n uuid t)"
    unfolding new_empty_def Let_def
    by (rule seal_valid) (use assms in \<open>simp_all add: sb_wf_def EUROFS_MAGIC_def DEFAULT_BLOCK_SIZE_def is_power_of_two_def\<close>)
qed

section \<open>Commits\<close>

lemma better_new:
  assumes "better (better None a) b = Some old" and "sb_checkpoint_id old < sb_checkpoint_id sb"
  shows "better (better None (Some sb)) b = Some sb" "better (better None a) (Some sb) = Some sb"
  using assms by (cases a; cases b; auto simp: better_def split: if_splits)+

lemma better_old:
  assumes "better (better None a) b = Some old"
    and "\<forall>x y. a = Some x \<and> b = Some y \<and> sb_checkpoint_id x = sb_checkpoint_id y \<longrightarrow> x = y"
    and "t = target_slot (map_option sb_checkpoint_id a) (map_option sb_checkpoint_id b)"
  shows "unat t = 1 \<Longrightarrow> better (better None None) b = Some old" "unat t = 2 \<Longrightarrow> better (better None a) None = Some old"
proof -
  have slots: "unat SUPERBLOCK_BLOCK = 1" "unat SUPERBLOCK_BACKUP_BLOCK = 2"
    by (simp_all add: SUPERBLOCK_BLOCK_def SUPERBLOCK_BACKUP_BLOCK_def)
  have "(unat t = 1 \<longrightarrow> better None b = Some old) \<and> (unat t = 2 \<longrightarrow> better None a = Some old)"
  proof (cases a)
    case None
    then show ?thesis using assms(1,3) slots by (simp add: target_slot_def better_def)
  next
    case a: (Some x)
    show ?thesis
    proof (cases b)
      case None
      then show ?thesis using assms(1,3) a slots by (simp add: target_slot_def better_def)
    next
      case b: (Some y)
      have t: "unat t = (if sb_checkpoint_id x \<le> sb_checkpoint_id y then 1 else 2)"
        using assms(3) slots by (simp add: target_slot_def a b)
      have old: "old = (if sb_checkpoint_id y > sb_checkpoint_id x then y else x)"
        using assms(1) by (simp add: better_def a b split: if_splits)
      show ?thesis
      proof (cases "sb_checkpoint_id x = sb_checkpoint_id y")
        case True
        then show ?thesis using assms(2) a b t old by (simp add: better_def a b)
      next
        case False
        then have "sb_checkpoint_id x \<le> sb_checkpoint_id y \<longleftrightarrow> sb_checkpoint_id y > sb_checkpoint_id x" by auto
        then show ?thesis using t old by (simp add: better_def a b split: if_splits)
      qed
    qed
  qed
  then show "unat t = 1 \<Longrightarrow> better (better None None) b = Some old" "unat t = 2 \<Longrightarrow> better (better None a) None = Some old"
    by (simp_all add: better_def)
qed

context block_device
begin

lemma read_slot_in:
  assumes "ok d" and "512 \<le> block_size D d" and "unat loc < unat (block_count D d)"
  shows "\<exists>d'. superblock_read_slot hash D loc d = (decode_slot hash (blk d (unat loc)), d') \<and> keeps D ok blk UNIV d d'"
  using read_in [OF assms(1,3)] assms(2)
  by (auto simp: superblock_read_slot_def decode_slot_def Let_def word_le_nat_alt not_less)

lemma read_slots:
  assumes "ok d" and "512 \<le> block_size D d" and "2 < unat (block_count D d)"
  shows "\<exists>d1 d2. superblock_read_slot hash D SUPERBLOCK_BLOCK d = (decode_slot hash (blk d 1), d1)
    \<and> superblock_read_slot hash D SUPERBLOCK_BACKUP_BLOCK d1 = (decode_slot hash (blk d 2), d2) \<and> keeps D ok blk UNIV d d2"
proof -
  obtain d1 where 1: "superblock_read_slot hash D SUPERBLOCK_BLOCK d = (decode_slot hash (blk d 1), d1)" "keeps D ok blk UNIV d d1"
    using read_slot_in [OF assms(1,2), of SUPERBLOCK_BLOCK] assms(3) by (auto simp: SUPERBLOCK_BLOCK_def)
  note k1 = keepsD [OF 1(2)]
  have "unat SUPERBLOCK_BACKUP_BLOCK < unat (block_count D d1)" using k1(2) assms(3) by (simp add: SUPERBLOCK_BACKUP_BLOCK_def)
  then obtain d2 where 2: "superblock_read_slot hash D SUPERBLOCK_BACKUP_BLOCK d1 = (decode_slot hash (blk d1 2), d2)"
    "keeps D ok blk UNIV d1 d2"
    using read_slot_in [OF k1(1), of SUPERBLOCK_BACKUP_BLOCK] k1(3) assms(2) by (auto simp: SUPERBLOCK_BACKUP_BLOCK_def)
  have "blk d1 2 = blk d 2" using k1(4) assms(3) by simp
  then show ?thesis using 1 2 keeps_trans [OF 1(2) 2(2)] by auto
qed

lemma read_from_slots:
  assumes "ok d" and "512 \<le> block_size D d" and "2 < unat (block_count D d)"
  shows "fst (superblock_read_from hash D d)
    = ok_or (better (better None (decode_slot hash (blk d 1))) (decode_slot hash (blk d 2))) Corruption"
  using read_slots [OF assms, of hash] by (auto simp: superblock_read_from_def)

text \<open>A commit on a formatted volume writes the target slot and nothing else.\<close>

lemma write_to_target:
  assumes d: "ok d" "512 \<le> block_size D d" "2 < unat (block_count D d)" and sb: "sb_wf sb" "superblock_is_valid hash sb"
    and some: "decode_slot hash (blk d 1) \<noteq> None \<or> decode_slot hash (blk d 2) \<noteq> None"
    and t: "t = target_slot (map_option sb_checkpoint_id (decode_slot hash (blk d 1))) (map_option sb_checkpoint_id (decode_slot hash (blk d 2)))"
  shows "\<exists>d'. superblock_write_to hash D sb d = (Ok (), d') \<and> keeps D ok blk (- {unat t}) d d' \<and> decode_slot hash (blk d' (unat t)) = Some sb"
proof -
  obtain d0 where f: "flush D d = (Ok (), d0)" "keeps D ok blk UNIV d d0" using flush_in [OF d(1)] by blast
  note k0 = keepsD [OF f(2)]
  have b0: "blk d0 1 = blk d 1" "blk d0 2 = blk d 2" using k0(4) d(3) by simp_all
  obtain d1 d2 where r: "superblock_read_slot hash D SUPERBLOCK_BLOCK d0 = (decode_slot hash (blk d 1), d1)"
    "superblock_read_slot hash D SUPERBLOCK_BACKUP_BLOCK d1 = (decode_slot hash (blk d 2), d2)" and k02: "keeps D ok blk UNIV d0 d2"
    using read_slots [OF k0(1), of hash] k0(2,3) d(2,3) b0 by auto
  have k2: "keeps D ok blk UNIV d d2" using keeps_trans [OF f(2) k02] by simp
  note n2 = keepsD [OF k2]
  have size: "512 \<le> unat (block_size D d2)" using d(2) n2(3) by (simp add: word_le_nat_alt)
  let ?b = "padded_block D d2 (superblock_to_bytes sb)"
  have tt: "unat t < unat (block_count D d2)"
    using n2(2) d(3) by (auto simp: t target_slot_def SUPERBLOCK_BLOCK_def SUPERBLOCK_BACKUP_BLOCK_def split: option.splits)
  obtain d3 where w: "write_blocks D t 1 ?b d2 = (Ok (), d3)" "keeps D ok blk (- {unat t}) d2 d3" "blk d3 (unat t) = ?b"
    using write_in [OF n2(1) tt decode_padded(2) [OF sb size]] by blast
  note n3 = keepsD [OF w(2)]
  obtain d4 where g: "flush D d3 = (Ok (), d4)" "keeps D ok blk UNIV d3 d4" using flush_in [OF n3(1)] by blast
  have "keeps D ok blk (- {unat t}) d d4" using keeps_trans [OF keeps_trans [OF k2 w(2)] g(2)] by simp
  moreover have "blk d4 (unat t) = ?b" using keepsD(4) [OF g(2)] w(3) tt n3(2) by simp
  moreover have "superblock_write_to hash D sb d = (Ok (), d4)"
    using f(1) r w(1) g(1) some t size n2(3)
    by (auto simp: superblock_write_to_def write_slots_def word_less_nat_alt)
  ultimately show ?thesis using decode_padded(1) [OF sb size] by auto
qed

text \<open>Either the new superblock is in place or, with a target slot that does not decode, the old one is
  still read; slots with the same generation are copies of each other.\<close>

lemma commit_outcomes:
  assumes d: "ok d" "512 \<le> block_size D d" "2 < unat (block_count D d)" and sb: "sb_wf sb" "superblock_is_valid hash sb"
    and old: "fst (superblock_read_from hash D d) = Ok old" and newer: "sb_checkpoint_id old < sb_checkpoint_id sb"
    and twins: "\<And>x y. decode_slot hash (blk d 1) = Some x \<Longrightarrow> decode_slot hash (blk d 2) = Some y \<Longrightarrow>
      sb_checkpoint_id x = sb_checkpoint_id y \<Longrightarrow> x = y"
  shows "\<exists>t\<in>{1, 2}. \<exists>d'. superblock_write_to hash D sb d = (Ok (), d') \<and> keeps D ok blk (- {t}) d d'
    \<and> fst (superblock_read_from hash D d') = Ok sb
    \<and> (\<forall>d2. keeps D ok blk (- {t}) d d2 \<and> decode_slot hash (blk d2 t) = None \<longrightarrow> fst (superblock_read_from hash D d2) = Ok old)"
proof -
  let ?a = "decode_slot hash (blk d 1)" and ?b = "decode_slot hash (blk d 2)"
  have best: "better (better None ?a) ?b = Some old"
    using old read_from_slots [OF d, of hash] by (auto simp: ok_or_def split: option.splits)
  have some: "?a \<noteq> None \<or> ?b \<noteq> None" using best by (auto simp: better_def split: option.splits)
  define t where "t = target_slot (map_option sb_checkpoint_id ?a) (map_option sb_checkpoint_id ?b)"
  have t12: "unat t = 1 \<or> unat t = 2"
    by (auto simp: t_def target_slot_def SUPERBLOCK_BLOCK_def SUPERBLOCK_BACKUP_BLOCK_def split: option.splits)
  obtain d' where w: "superblock_write_to hash D sb d = (Ok (), d')" "keeps D ok blk (- {unat t}) d d'" "decode_slot hash (blk d' (unat t)) = Some sb"
    using write_to_target [OF d sb some t_def] by blast
  have other: "fst (superblock_read_from hash D e) = ok_or (if unat t = 1 then better (better None (decode_slot hash (blk e 1))) ?b
      else better (better None ?a) (decode_slot hash (blk e 2))) Corruption" if "keeps D ok blk (- {unat t}) d e" for e
  proof -
    note k = keepsD [OF that]
    have "unat t = 1 \<Longrightarrow> blk e 2 = blk d 2" "unat t \<noteq> 1 \<Longrightarrow> blk e 1 = blk d 1" using k(4) d(3) by simp_all
    moreover have "fst (superblock_read_from hash D e)
        = ok_or (better (better None (decode_slot hash (blk e 1))) (decode_slot hash (blk e 2))) Corruption"
      using k(1-3) d(2,3) by (intro read_from_slots) simp_all
    ultimately show ?thesis by simp
  qed
  have tw: "\<forall>x y. ?a = Some x \<and> ?b = Some y \<and> sb_checkpoint_id x = sb_checkpoint_id y \<longrightarrow> x = y"
    using twins by blast
  have "fst (superblock_read_from hash D d') = Ok sb"
  proof (cases "unat t = 1")
    case True
    then show ?thesis unfolding other [OF w(2)] using w(3) better_new(1) [OF best newer] by simp
  next
    case False
    then have "unat t = 2" using t12 by simp
    then show ?thesis unfolding other [OF w(2)] using w(3) better_new(2) [OF best newer] by simp
  qed
  moreover have "fst (superblock_read_from hash D d2) = Ok old"
    if "keeps D ok blk (- {unat t}) d d2" "decode_slot hash (blk d2 (unat t)) = None" for d2
  proof (cases "unat t = 1")
    case True
    then show ?thesis unfolding other [OF that(1)] using that(2) better_old(1) [OF best tw t_def] by simp
  next
    case False
    then have "unat t = 2" using t12 by simp
    then show ?thesis unfolding other [OF that(1)] using that(2) better_old(2) [OF best tw t_def] by simp
  qed
  moreover have "unat t \<in> {1, 2}" using t12 by simp
  ultimately show ?thesis using w(1,2) by blast
qed

end

lemma torn_superblock: "1024 \<le> length b \<Longrightarrow> decode_slot hash (torn b) = decode_slot hash b \<and> length (torn b) = length b"
proof -
  assume "1024 \<le> length b"
  then have "take 512 (torn b) = take 512 b" by (simp add: torn_def Let_def)
  then show ?thesis by (simp add: decode_slot_def) (simp add: torn_def Let_def)
qed

section \<open>Properties\<close>

text \<open>
  Property C3.  A commit survives a power failure.  Let a volume have a readable superblock and let a newer one be
  committed.  The commit overwrites one of the two slots and no other block; when it completes, the new
  superblock is the one read.  If instead the power fails during the write, so that the
  slot holds anything that does not pass the check, the old superblock is still the one read.\<close>

theorem commit_survives_power_failure:
  assumes "mem_ok d" and "2 < unat (block_count memory_device d)" and "sb_wf sb" and "superblock_is_valid hash sb"
    and "fst (superblock_read_from hash memory_device d) = Ok old" and "sb_checkpoint_id old < sb_checkpoint_id sb"
    and "\<And>x y. decode_slot hash (mem_blk d 1) = Some x \<Longrightarrow> decode_slot hash (mem_blk d 2) = Some y \<Longrightarrow>
      sb_checkpoint_id x = sb_checkpoint_id y \<Longrightarrow> x = y"
  shows "\<exists>t\<in>{1, 2}. \<exists>d'. superblock_write_to hash memory_device sb d = (Ok (), d')
    \<and> keeps memory_device mem_ok mem_blk (- {t}) d d' \<and> fst (superblock_read_from hash memory_device d') = Ok sb
    \<and> (\<forall>d2. keeps memory_device mem_ok mem_blk (- {t}) d d2 \<and> decode_slot hash (mem_blk d2 t) = None \<longrightarrow>
         fst (superblock_read_from hash memory_device d2) = Ok old)"
proof -
  have "512 \<le> block_size memory_device d" using assms(1) by (simp add: mem_ok_def)
  then show ?thesis by (rule memory.commit_outcomes [OF assms(1) _ assms(2-7)])
qed

text \<open>A formatted volume of four blocks of 512 bytes, with any hash, here the sum of the bytes.\<close>

definition byte_sum :: "bytes \<Rightarrow> u64" where
  "byte_sum bs = sum_list (map ucast bs)"

definition sample_superblock :: EuroFsSuperblock where
  "sample_superblock = new_empty byte_sum 64 (replicate 16 0xAB) 5"

definition sample_volume :: MemoryBlockDevice where
  "sample_volume = \<lparr>md_data = replicate 512 0 @ superblock_to_bytes sample_superblock @ superblock_to_bytes sample_superblock @ replicate 512 0,
     md_block_size = 512, md_flush_count = 0, md_discards = []\<rparr>"

definition sample_next :: EuroFsSuperblock where
  "sample_next = (let sb = sample_superblock\<lparr>sb_checkpoint_id := 2\<rparr> in sb\<lparr>sb_checksum := compute_checksum byte_sum sb\<rparr>)"

lemma sample_superblock_ok: "sb_wf sample_superblock" "superblock_is_valid byte_sum sample_superblock"
  unfolding sample_superblock_def by (rule new_empty_valid; simp)+

lemma sample_checkpoint: "sb_checkpoint_id sample_superblock = 1" "sb_checkpoint_id sample_next = 2"
  by (simp_all add: sample_superblock_def sample_next_def new_empty_def Let_def)

lemma sample_next_ok: "sb_wf sample_next" "superblock_is_valid byte_sum sample_next"
proof -
  show "sb_wf sample_next" using sample_superblock_ok(1) by (simp add: sample_next_def Let_def sb_wf_def)
  show "superblock_is_valid byte_sum sample_next"
    unfolding sample_next_def Let_def
    using sample_superblock_ok by (intro seal_valid) (simp_all add: sb_wf_def superblock_is_valid_def)
qed

lemma sample_volume_ok: "mem_ok sample_volume" "unat (block_count memory_device sample_volume) = 4"
  using length_superblock [OF sample_superblock_ok(1)] by (simp_all add: mem_ok_def sample_volume_def memory_device_def)

lemma sample_slots:
  "decode_slot byte_sum (mem_blk sample_volume 1) = Some sample_superblock"
  "decode_slot byte_sum (mem_blk sample_volume 2) = Some sample_superblock"
proof -
  have len: "length (superblock_to_bytes sample_superblock) = 512" by (rule length_superblock [OF sample_superblock_ok(1)])
  then have "mem_blk sample_volume 1 = superblock_to_bytes sample_superblock" "mem_blk sample_volume 2 = superblock_to_bytes sample_superblock"
    by (simp_all add: mem_blk_def sample_volume_def slice_def)
  then show "decode_slot byte_sum (mem_blk sample_volume 1) = Some sample_superblock"
    "decode_slot byte_sum (mem_blk sample_volume 2) = Some sample_superblock"
    using len sample_superblock_ok by (simp_all add: decode_slot_def superblock_round_trip)
qed

theorem commit_survives_power_failure_witness:
  "\<exists>d'. superblock_write_to byte_sum memory_device sample_next sample_volume = (Ok (), d')
     \<and> fst (superblock_read_from byte_sum memory_device d') = Ok sample_next"
proof -
  have "fst (superblock_read_from byte_sum memory_device sample_volume) = Ok sample_superblock"
    using memory.read_from_slots [OF sample_volume_ok(1), of byte_sum] sample_volume_ok(2) sample_slots
    by (simp add: better_def) (simp add: sample_volume_def)
  then show ?thesis
    using commit_survives_power_failure [OF sample_volume_ok(1) _ sample_next_ok, of sample_superblock] sample_volume_ok(2)
      sample_slots sample_checkpoint by auto
qed

text \<open>
  The torn writes of the tests do not tear the superblock.  The fault-injecting device keeps the first
  half of a torn block and clears the rest; the superblock fills only the first 512 bytes, so on a
  device with blocks of 1024 bytes or more, 4096 by default, the torn write leaves a complete superblock
  behind, although the device is meant to break its checksum.\<close>

lemma torn_write_spares_superblock:
  assumes "mem_ok d" and "1024 \<le> md_block_size d" and "unat t < unat (block_count memory_device d)"
    and "sb_wf sb" and "superblock_is_valid hash sb"
  shows "\<exists>f. faulty_write_blocks memory_device t 1 (padded_block memory_device d (superblock_to_bytes sb)) (tear_at d 1) = (Ok (), f)
    \<and> fb_crashed f \<and> decode_slot hash (mem_blk (fb_inner f) (unat t)) = Some sb"
proof -
  let ?b = "padded_block memory_device d (superblock_to_bytes sb)"
  have size: "1024 \<le> unat (md_block_size d)" using assms(2) by (simp add: word_le_nat_alt)
  have b: "decode_slot hash ?b = Some sb" "length ?b = unat (md_block_size d)"
    using decode_padded [OF assms(4,5), of memory_device d] size by simp_all
  obtain d' where "mem_write_blocks t 1 (torn ?b) d = (Ok (), d')" "mem_blk d' (unat t) = torn ?b"
    using mem_write_in [OF assms(1,3), of "torn ?b"] torn_superblock [of ?b hash] size b(2) by auto
  then show ?thesis
    using torn_superblock [of ?b hash] size b
    by (auto simp: faulty_write_blocks_def tear_at_def FaultyBlockDevice_new_def Let_def)
qed

end
