(* ===== verification/Verity.thy ===== *)
theory Verity
  imports Prelude
begin

text \<open>
  Block verification of system images (\<open>crates/euroverity/src/lib.rs\<close>): a Merkle tree over the blocks of an
  image, proofs for single blocks and the signed manifest.  SHA-256 and Ed25519 come from third-party crates
  and are parameters: \<open>sha\<close> with its 32-byte digests, and the key decoding and signature check.  Index and
  sizes are \<open>usize\<close> and modelled as naturals.
\<close>

section \<open>The tree\<close>

type_synonym sha = "bytes \<Rightarrow> bytes"

definition block_input :: "bytes \<Rightarrow> bytes \<Rightarrow> bytes" where
  "block_input salt block = salt @ [0x00] @ block"

definition node_input :: "bytes \<Rightarrow> bytes \<Rightarrow> bytes \<Rightarrow> bytes" where
  "node_input salt left right = salt @ [0x01] @ left @ right"

definition hash_block :: "sha \<Rightarrow> bytes \<Rightarrow> bytes \<Rightarrow> bytes" where
  "hash_block sha salt block = sha (block_input salt block)"

definition hash_node :: "sha \<Rightarrow> bytes \<Rightarrow> bytes \<Rightarrow> bytes \<Rightarrow> bytes" where
  "hash_node sha salt left right = sha (node_input salt left right)"

record VerityTree =
  vt_salt :: bytes
  vt_block_size :: nat
  vt_block_count :: nat
  vt_levels :: "bytes list list"

definition verity_block_count :: "bytes \<Rightarrow> nat \<Rightarrow> nat" where
  "verity_block_count data bs = max ((length data + bs - 1) div bs) 1"

definition verity_block :: "bytes \<Rightarrow> nat \<Rightarrow> nat \<Rightarrow> bytes" where
  "verity_block data bs i =
     (let start = i * bs; stop = min (start + bs) (length data);
          block = slice (min start (length data)) stop data
      in block @ replicate (bs - length block) 0)"

fun next_level :: "sha \<Rightarrow> bytes \<Rightarrow> bytes list \<Rightarrow> bytes list" where
  "next_level sha salt [] = []"
| "next_level sha salt [x] = [hash_node sha salt x x]"
| "next_level sha salt (x # y # xs) = hash_node sha salt x y # next_level sha salt xs"

lemma length_next_level: "length (next_level sha salt xs) = (length xs + 1) div 2"
  by (induction sha salt xs rule: next_level.induct) auto

function build_levels :: "sha \<Rightarrow> bytes \<Rightarrow> bytes list \<Rightarrow> bytes list list" where
  "build_levels sha salt cur =
     (if length cur > 1 then cur # build_levels sha salt (next_level sha salt cur) else [cur])"
  by pat_completeness auto
termination by (relation "measure (\<lambda>(sha, salt, cur). length cur)") (auto simp: length_next_level)

declare build_levels.simps [simp del]

text \<open>\<open>None\<close> is the failed assertion of \<open>build\<close>.\<close>

definition VerityTree_build :: "sha \<Rightarrow> bytes \<Rightarrow> nat \<Rightarrow> bytes \<Rightarrow> VerityTree option" where
  "VerityTree_build sha data bs salt =
     (if bs > 0 then
        (let n = verity_block_count data bs;
             leaves = map (\<lambda>i. hash_block sha salt (verity_block data bs i)) [0..<n]
         in Some \<lparr>vt_salt = salt, vt_block_size = bs, vt_block_count = n, vt_levels = build_levels sha salt leaves\<rparr>)
      else None)"

definition VerityTree_root :: "VerityTree \<Rightarrow> bytes" where
  "VerityTree_root t = hd (last (vt_levels t))"

text \<open>The sibling at one level; \<open>None\<close> is an index out of range, which panics.\<close>

definition sibling :: "bytes list \<Rightarrow> nat \<Rightarrow> bytes option" where
  "sibling level idx =
     (if even idx then
        (if idx + 1 < length level then Some (level ! (idx + 1))
         else if idx < length level then Some (level ! idx) else None)
      else if idx - 1 < length level then Some (level ! (idx - 1)) else None)"

fun proof_loop :: "bytes list list \<Rightarrow> nat \<Rightarrow> bytes list option" where
  "proof_loop [] idx = Some []"
| "proof_loop (level # ls) idx = (case sibling level idx of
     None \<Rightarrow> None
   | Some s \<Rightarrow> map_option (Cons s) (proof_loop ls (idx div 2)))"

definition VerityTree_proof :: "VerityTree \<Rightarrow> nat \<Rightarrow> bytes list option" where
  "VerityTree_proof t index = proof_loop (butlast (vt_levels t)) index"

definition climb_step :: "sha \<Rightarrow> bytes \<Rightarrow> bytes \<Rightarrow> nat \<Rightarrow> bytes \<Rightarrow> bytes" where
  "climb_step sha salt h idx sib = (if even idx then hash_node sha salt h sib else hash_node sha salt sib h)"

fun climb :: "sha \<Rightarrow> bytes \<Rightarrow> bytes \<Rightarrow> nat \<Rightarrow> bytes list \<Rightarrow> bytes" where
  "climb sha salt h idx [] = h"
| "climb sha salt h idx (sib # path) = climb sha salt (climb_step sha salt h idx sib) (idx div 2) path"

definition verify_block :: "sha \<Rightarrow> bytes \<Rightarrow> bytes \<Rightarrow> nat \<Rightarrow> bytes \<Rightarrow> bytes list \<Rightarrow> bool" where
  "verify_block sha root salt index block path \<longleftrightarrow> climb sha salt (hash_block sha salt block) index path = root"

section \<open>The manifest\<close>

record VerityManifest =
  vm_root :: bytes
  vm_salt :: bytes
  vm_block_size :: u32
  vm_block_count :: u32

definition Manifest_of :: "VerityTree \<Rightarrow> VerityManifest" where
  "Manifest_of t = \<lparr>vm_root = VerityTree_root t, vm_salt = vt_salt t,
     vm_block_size = of_nat (vt_block_size t), vm_block_count = of_nat (vt_block_count t)\<rparr>"

definition MANIFEST_TAG :: bytes where
  "MANIFEST_TAG = [0x45, 0x75, 0x72, 0x6F, 0x56, 0x65, 0x72, 0x69, 0x74, 0x79, 0x2D, 0x6D, 0x61, 0x6E,
     0x69, 0x66, 0x65, 0x73, 0x74, 0x2D, 0x76, 0x31, 0x00]"

definition tbs :: "VerityManifest \<Rightarrow> bytes" where
  "tbs m = MANIFEST_TAG @ vm_root m @ vm_salt m @ to_le 4 (vm_block_size m) @ to_le 4 (vm_block_count m)"

definition Manifest_sign :: "('k \<Rightarrow> bytes \<Rightarrow> bytes) \<Rightarrow> 'k \<Rightarrow> VerityManifest \<Rightarrow> bytes" where
  "Manifest_sign sign signing_key m = sign signing_key (tbs m)"

definition Manifest_verify ::
    "(bytes \<Rightarrow> 'v option) \<Rightarrow> ('v \<Rightarrow> bytes \<Rightarrow> bytes \<Rightarrow> bool) \<Rightarrow> bytes \<Rightarrow> bytes \<Rightarrow> VerityManifest \<Rightarrow> bool" where
  "Manifest_verify key_from_bytes check_sig pubkey sig m =
     (case key_from_bytes pubkey of None \<Rightarrow> False | Some vk \<Rightarrow> check_sig vk (tbs m) sig)"

section \<open>The levels\<close>

lemma nth_next_level:
  "p < length (next_level sha salt xs) \<Longrightarrow>
   next_level sha salt xs ! p = hash_node sha salt (xs ! (2 * p)) (xs ! (if 2 * p + 1 < length xs then 2 * p + 1 else 2 * p))"
proof (induction sha salt xs arbitrary: p rule: next_level.induct)
  case (3 sha salt x y xs)
  then show ?case by (cases p) auto
qed auto

lemma build_levels_not_Nil: "build_levels sha salt cur \<noteq> []"
  by (subst build_levels.simps) simp

lemma build_levels_0: "build_levels sha salt cur ! 0 = cur"
  by (subst build_levels.simps) simp

lemma build_levels_Suc:
  "Suc j < length (build_levels sha salt cur) \<Longrightarrow>
   build_levels sha salt cur ! Suc j = next_level sha salt (build_levels sha salt cur ! j)"
proof (induction sha salt cur arbitrary: j rule: build_levels.induct)
  case (1 sha salt cur)
  show ?case
  proof (cases "length cur > 1")
    case True
    note eq = build_levels.simps [of sha salt cur]
    show ?thesis
    proof (cases j)
      case 0
      then show ?thesis using True by (subst (1 2) eq) (simp add: build_levels_0)
    next
      case (Suc k)
      then have "Suc k < length (build_levels sha salt (next_level sha salt cur))"
        using 1(2) True by (subst (asm) eq) simp
      then show ?thesis using 1(1) [OF True, of k] True Suc by (subst (1 2) eq) simp
    qed
  next
    case False
    then show ?thesis using 1(2) by (subst (asm) build_levels.simps) simp
  qed
qed

lemma build_levels_last: "cur \<noteq> [] \<Longrightarrow> length (last (build_levels sha salt cur)) = 1"
proof (induction sha salt cur rule: build_levels.induct)
  case (1 sha salt cur)
  show ?case
  proof (cases "length cur > 1")
    case True
    then have "next_level sha salt cur \<noteq> []"
      by (simp add: length_next_level flip: length_greater_0_conv)
    then show ?thesis using 1(1) [OF True] True build_levels_not_Nil by (subst build_levels.simps) simp
  next
    case False
    then have "length cur = 1" using 1(2) by (cases cur) auto
    then show ?thesis by (subst build_levels.simps) simp
  qed
qed

lemma climb_append:
  "climb sha salt h idx (ps @ qs) = climb sha salt (climb sha salt h idx ps) (idx div 2 ^ length ps) qs"
  by (induction ps arbitrary: h idx) (simp_all add: div_mult2_eq)

section \<open>A proof leads to the block of its index\<close>

text \<open>The byte strings hashed when the tree is built over \<open>leaves\<close>, and when a proof is checked.\<close>

definition level_inputs :: "bytes \<Rightarrow> bytes list \<Rightarrow> bytes set" where
  "level_inputs salt cur = {node_input salt (cur ! (2 * p)) (cur ! (if 2 * p + 1 < length cur then 2 * p + 1 else 2 * p)) | p. 2 * p < length cur}"

definition build_inputs :: "sha \<Rightarrow> bytes \<Rightarrow> bytes list \<Rightarrow> bytes set" where
  "build_inputs sha salt blocks =
     block_input salt ` set blocks
     \<union> (\<Union>cur\<in>set (butlast (build_levels sha salt (map (hash_block sha salt) blocks))). level_inputs salt cur)"

fun climb_inputs :: "sha \<Rightarrow> bytes \<Rightarrow> bytes \<Rightarrow> nat \<Rightarrow> bytes list \<Rightarrow> bytes set" where
  "climb_inputs sha salt h idx [] = {}"
| "climb_inputs sha salt h idx (sib # path) =
     insert (if even idx then node_input salt h sib else node_input salt sib h)
       (climb_inputs sha salt (climb_step sha salt h idx sib) (idx div 2) path)"

definition verify_inputs :: "sha \<Rightarrow> bytes \<Rightarrow> nat \<Rightarrow> bytes \<Rightarrow> bytes list \<Rightarrow> bytes set" where
  "verify_inputs sha salt index block path =
     insert (block_input salt block) (climb_inputs sha salt (hash_block sha salt block) index path)"

lemma climb_inputs_append:
  "climb_inputs sha salt h idx (ps @ qs)
   = climb_inputs sha salt h idx ps \<union> climb_inputs sha salt (climb sha salt h idx ps) (idx div 2 ^ length ps) qs"
  by (induction ps arbitrary: h idx) (auto simp: div_mult2_eq)

lemma tags_differ: "block_input salt b \<noteq> node_input salt l r"
  by (simp add: block_input_def node_input_def)

lemma node_input_eq:
  "length l = length l' \<Longrightarrow> node_input salt l r = node_input salt l' r' \<longleftrightarrow> l = l' \<and> r = r'"
  by (simp add: node_input_def)

text \<open>The digests of SHA-256 have 32 bytes.\<close>

definition digest32 :: "sha \<Rightarrow> bool" where
  "digest32 sha \<longleftrightarrow> (\<forall>x. length (sha x) = 32)"

text \<open>One level: if climbing one step reaches a node of the next level, it came from a child of that node.\<close>

lemma climb_step_inv:
  assumes "climb_step sha salt h idx sib = next_level sha salt cur ! p" and "p < length (next_level sha salt cur)"
    and "inj_on sha X" and "level_inputs salt cur \<subseteq> X" and "climb_inputs sha salt h idx [sib] \<subseteq> X"
    and "length h = 32" "length sib = 32" "\<And>x. x \<in> set cur \<Longrightarrow> length x = 32"
  shows "h = cur ! (if even idx then 2 * p else if 2 * p + 1 < length cur then 2 * p + 1 else 2 * p)"
proof -
  let ?l = "cur ! (2 * p)" and ?r = "cur ! (if 2 * p + 1 < length cur then 2 * p + 1 else 2 * p)"
  have p: "2 * p < length cur" using assms(2) by (simp add: length_next_level)
  let ?in = "if even idx then node_input salt h sib else node_input salt sib h"
  have same: "sha ?in = sha (node_input salt ?l ?r)"
    using assms(1) nth_next_level [OF assms(2)] by (simp add: climb_step_def hash_node_def split: if_splits)
  have "node_input salt ?l ?r \<in> X" using assms(4) p by (auto simp: level_inputs_def)
  moreover have "?in \<in> X" using assms(5) by simp
  ultimately have eq: "?in = node_input salt ?l ?r" by (intro inj_onD [OF assms(3) same])
  have "length ?l = 32" using p assms(8) by simp
  then show ?thesis using eq assms(6,7) by (auto simp: node_input_eq split: if_splits)
qed

lemma climb_snoc: "climb sha salt h idx (ps @ [s]) = climb_step sha salt (climb sha salt h idx ps) (idx div 2 ^ length ps) s"
  by (simp add: climb_append)

text \<open>The levels over a list of blocks, and the assumption that no two strings hashed for the tree or for the
  proof collide.\<close>

definition levels_of :: "sha \<Rightarrow> bytes \<Rightarrow> bytes list \<Rightarrow> bytes list list" where
  "levels_of sha salt blocks = build_levels sha salt (map (hash_block sha salt) blocks)"

definition no_collision :: "sha \<Rightarrow> bytes \<Rightarrow> bytes list \<Rightarrow> nat \<Rightarrow> bytes \<Rightarrow> bytes list \<Rightarrow> bool" where
  "no_collision sha salt blocks idx block path \<longleftrightarrow>
     inj_on sha (build_inputs sha salt blocks \<union> verify_inputs sha salt idx block path)"

lemma nth_butlast_member: "Suc j < length xs \<Longrightarrow> xs ! j \<in> set (butlast xs)"
  using nth_mem [of j "butlast xs"] nth_butlast [of j xs] by simp

lemma no_collision_prefix:
  "no_collision sha salt blocks idx block (ps @ [s]) \<Longrightarrow> no_collision sha salt blocks idx block ps"
  unfolding no_collision_def by (erule inj_on_subset) (auto simp: verify_inputs_def climb_inputs_append)

lemma levels_of_Suc:
  "Suc j < length (levels_of sha salt blocks) \<Longrightarrow> levels_of sha salt blocks ! Suc j = next_level sha salt (levels_of sha salt blocks ! j)"
  by (simp add: levels_of_def build_levels_Suc)

lemma levels_of_0: "levels_of sha salt blocks ! 0 = map (hash_block sha salt) blocks"
  by (simp add: levels_of_def build_levels_0)

lemma level_lengths:
  assumes sha: "digest32 sha"
  shows "j < length (levels_of sha salt blocks) \<Longrightarrow> x \<in> set (levels_of sha salt blocks ! j) \<Longrightarrow> length x = 32"
proof (induction j)
  case 0
  then show ?case using sha by (auto simp: levels_of_0 hash_block_def digest32_def)
next
  case (Suc j)
  then obtain p where "p < length (next_level sha salt (levels_of sha salt blocks ! j))" "x = next_level sha salt (levels_of sha salt blocks ! j) ! p"
    by (auto simp: levels_of_Suc in_set_conv_nth)
  then show ?case using sha by (simp add: nth_next_level hash_node_def digest32_def)
qed

lemma climb_length:
  assumes "digest32 sha"
  shows "length (climb sha salt (hash_block sha salt block) idx path) = 32"
  using assms by (cases path rule: rev_cases) (simp_all add: digest32_def hash_block_def climb_snoc climb_step_def hash_node_def)

lemma climb_down:
  assumes sha: "digest32 sha" and nc: "no_collision sha salt blocks idx block (ps @ [s])"
    and j: "Suc j < length (levels_of sha salt blocks)" "p < length (levels_of sha salt blocks ! Suc j)"
    and s: "length s = 32"
    and reach: "climb sha salt (hash_block sha salt block) idx (ps @ [s]) = levels_of sha salt blocks ! Suc j ! p"
  shows "climb sha salt (hash_block sha salt block) idx ps = levels_of sha salt blocks ! j !
    (if even (idx div 2 ^ length ps) then 2 * p
     else if 2 * p + 1 < length (levels_of sha salt blocks ! j) then 2 * p + 1 else 2 * p)"
proof (rule climb_step_inv)
  let ?cur = "levels_of sha salt blocks ! j" and ?X = "build_inputs sha salt blocks \<union> verify_inputs sha salt idx block (ps @ [s])"
  show "climb_step sha salt (climb sha salt (hash_block sha salt block) idx ps) (idx div 2 ^ length ps) s = next_level sha salt ?cur ! p"
    using reach levels_of_Suc [OF j(1)] by (simp add: climb_snoc)
  show "p < length (next_level sha salt ?cur)" using j levels_of_Suc [OF j(1)] by simp
  show "inj_on sha ?X" using nc by (simp add: no_collision_def)
  have "?cur \<in> set (butlast (levels_of sha salt blocks))" by (rule nth_butlast_member [OF j(1)])
  then show "level_inputs salt ?cur \<subseteq> ?X" by (auto simp: build_inputs_def levels_of_def)
  show "climb_inputs sha salt (climb sha salt (hash_block sha salt block) idx ps) (idx div 2 ^ length ps) [s] \<subseteq> ?X"
    by (auto simp: verify_inputs_def climb_inputs_append)
  show "x \<in> set ?cur \<Longrightarrow> length x = 32" for x by (rule level_lengths [OF sha, of j salt blocks]) (use j(1) in simp_all)
qed (use climb_length [OF sha] s in simp_all)

lemma climb_top_node:
  assumes "no_collision sha salt blocks idx block (ps @ [s])" and "b \<in> set blocks"
  shows "climb sha salt (hash_block sha salt block) idx (ps @ [s]) \<noteq> hash_block sha salt b"
proof
  let ?h = "climb sha salt (hash_block sha salt block) idx ps" and ?i = "idx div 2 ^ length ps"
  let ?in = "if even ?i then node_input salt ?h s else node_input salt s ?h"
  assume "climb sha salt (hash_block sha salt block) idx (ps @ [s]) = hash_block sha salt b"
  then have same: "sha ?in = sha (block_input salt b)"
    by (simp add: climb_snoc climb_step_def hash_node_def hash_block_def split: if_splits)
  have "?in \<in> verify_inputs sha salt idx block (ps @ [s])" by (simp add: verify_inputs_def climb_inputs_append)
  moreover have "block_input salt b \<in> build_inputs sha salt blocks" using assms(2) by (simp add: build_inputs_def)
  ultimately have "?in = block_input salt b"
    by (intro inj_onD [OF assms(1) [unfolded no_collision_def] same]) blast+
  then show False using tags_differ by (metis (full_types))
qed

lemma block_not_node:
  assumes "no_collision sha salt blocks idx block []" and "Suc j < length (levels_of sha salt blocks)"
    and "p < length (levels_of sha salt blocks ! Suc j)"
  shows "hash_block sha salt block \<noteq> levels_of sha salt blocks ! Suc j ! p"
proof
  let ?cur = "levels_of sha salt blocks ! j"
  let ?n = "node_input salt (?cur ! (2 * p)) (?cur ! (if 2 * p + 1 < length ?cur then 2 * p + 1 else 2 * p))"
  have p: "p < length (next_level sha salt ?cur)" using assms(2,3) levels_of_Suc by simp
  assume "hash_block sha salt block = levels_of sha salt blocks ! Suc j ! p"
  then have same: "sha (block_input salt block) = sha ?n"
    using nth_next_level [OF p] levels_of_Suc [OF assms(2)] by (simp add: hash_block_def hash_node_def)
  have "?n \<in> level_inputs salt ?cur" using p by (auto simp: level_inputs_def length_next_level)
  moreover have "?cur \<in> set (butlast (levels_of sha salt blocks))" by (rule nth_butlast_member [OF assms(2)])
  ultimately have "?n \<in> build_inputs sha salt blocks" unfolding build_inputs_def levels_of_def by blast
  moreover have "block_input salt block \<in> verify_inputs sha salt idx block []" by (simp add: verify_inputs_def)
  ultimately have "block_input salt block = ?n"
    by (intro inj_onD [OF assms(1) [unfolded no_collision_def] same]) blast+
  then show False using tags_differ by blast
qed

lemma climb_depth:
  assumes sha: "digest32 sha"
  shows "no_collision sha salt blocks idx block path \<Longrightarrow> j < length (levels_of sha salt blocks) \<Longrightarrow>
    p < length (levels_of sha salt blocks ! j) \<Longrightarrow> (\<forall>s\<in>set path. length s = 32) \<Longrightarrow>
    climb sha salt (hash_block sha salt block) idx path = levels_of sha salt blocks ! j ! p \<Longrightarrow> length path = j"
proof (induction j arbitrary: p path)
  case 0
  then have "p < length blocks" "levels_of sha salt blocks ! 0 ! p = hash_block sha salt (blocks ! p)" by (simp_all add: levels_of_0)
  then show ?case using 0 climb_top_node by (cases path rule: rev_cases) (simp, metis nth_mem)
next
  case (Suc j)
  show ?case
  proof (cases path rule: rev_cases)
    case Nil
    then show ?thesis using Suc.prems block_not_node by simp
  next
    case (snoc ps s)
    let ?q = "if even (idx div 2 ^ length ps) then 2 * p
     else if 2 * p + 1 < length (levels_of sha salt blocks ! j) then 2 * p + 1 else 2 * p"
    have "climb sha salt (hash_block sha salt block) idx ps = levels_of sha salt blocks ! j ! ?q"
      by (rule climb_down [OF sha]) (use Suc.prems snoc in auto)
    moreover have "2 * p < length (levels_of sha salt blocks ! j)"
      using Suc.prems(2,3) levels_of_Suc by (simp add: length_next_level)
    ultimately show ?thesis
      using Suc.IH [of ps ?q] Suc.prems snoc no_collision_prefix by auto
  qed
qed

lemma climb_position:
  assumes sha: "digest32 sha"
  shows "no_collision sha salt blocks idx block path \<Longrightarrow> j < length (levels_of sha salt blocks) \<Longrightarrow>
    (\<forall>k\<le>j. idx div 2 ^ k < length (levels_of sha salt blocks ! k)) \<Longrightarrow> (\<forall>s\<in>set path. length s = 32) \<Longrightarrow> length path = j \<Longrightarrow>
    climb sha salt (hash_block sha salt block) idx path = levels_of sha salt blocks ! j ! (idx div 2 ^ j) \<Longrightarrow>
    hash_block sha salt block = levels_of sha salt blocks ! 0 ! idx"
proof (induction j arbitrary: path)
  case 0
  then show ?case by simp
next
  case (Suc j)
  then obtain ps s where snoc: "path = ps @ [s]" "length ps = j" by (cases path rule: rev_cases) auto
  let ?p = "idx div 2 ^ Suc j" and ?i = "idx div 2 ^ j"
  have half: "?p = ?i div 2" by (simp only: power_Suc2 div_mult2_eq)
  have inr: "?i < length (levels_of sha salt blocks ! j)" using Suc.prems(3) by simp
  have "climb sha salt (hash_block sha salt block) idx ps = levels_of sha salt blocks ! j !
    (if even ?i then 2 * ?p else if 2 * ?p + 1 < length (levels_of sha salt blocks ! j) then 2 * ?p + 1 else 2 * ?p)"
    using climb_down [OF sha, of salt blocks idx block ps s j ?p] Suc.prems snoc by auto
  also have "(if even ?i then 2 * ?p else if 2 * ?p + 1 < length (levels_of sha salt blocks ! j) then 2 * ?p + 1 else 2 * ?p) = ?i"
    using inr unfolding half by (auto elim!: evenE oddE)
  finally show ?case using Suc.IH [of ps] Suc.prems snoc no_collision_prefix by auto
qed

section \<open>Building, proving, verifying\<close>

lemma proof_climbs:
  "idx < length cur \<Longrightarrow> \<exists>path. proof_loop (butlast (build_levels sha salt cur)) idx = Some path
     \<and> climb sha salt (cur ! idx) idx path = hd (last (build_levels sha salt cur))"
proof (induction sha salt cur arbitrary: idx rule: build_levels.induct)
  case (1 sha salt cur)
  note eq = build_levels.simps [of sha salt cur]
  show ?case
  proof (cases "length cur > 1")
    case True
    let ?next = "next_level sha salt cur"
    have half: "idx div 2 < length ?next" using 1(2) by (simp add: length_next_level)
    have "\<exists>s. sibling cur idx = Some s \<and> climb_step sha salt (cur ! idx) idx s = ?next ! (idx div 2)"
    proof (cases "even idx")
      case True
      then show ?thesis using 1(2) nth_next_level [OF half] by (auto simp: sibling_def climb_step_def elim!: evenE)
    next
      case False
      then show ?thesis using 1(2) nth_next_level [OF half] by (auto simp: sibling_def climb_step_def elim!: oddE)
    qed
    then obtain s where s: "sibling cur idx = Some s" "climb_step sha salt (cur ! idx) idx s = ?next ! (idx div 2)" by blast
    obtain path where "proof_loop (butlast (build_levels sha salt ?next)) (idx div 2) = Some path"
      "climb sha salt (?next ! (idx div 2)) (idx div 2) path = hd (last (build_levels sha salt ?next))"
      using 1(1) [OF True half] by blast
    then show ?thesis
      using True s build_levels_not_Nil by (intro exI [of _ "s # path"]) (subst (1 2) eq, simp)
  next
    case False
    then have "cur = [cur ! 0]" "idx = 0" using 1(2) by (cases cur; simp)+
    then show ?thesis using False by (intro exI [of _ "[]"]) (subst (1 2) eq, simp, metis list.sel(1))
  qed
qed

lemma levels_reach:
  assumes "idx < length blocks" and "k < length (levels_of sha salt blocks)"
  shows "idx div 2 ^ k < length (levels_of sha salt blocks ! k)"
  using assms(2)
proof (induction k)
  case 0
  then show ?case using assms(1) by (simp add: levels_of_0)
next
  case (Suc k)
  then have "idx div 2 ^ k < length (levels_of sha salt blocks ! k)" by simp
  then have "idx div 2 ^ k div 2 < length (levels_of sha salt blocks ! Suc k)"
    by (simp add: levels_of_Suc [OF Suc.prems] length_next_level)
  then show ?case by (simp only: power_Suc2 div_mult2_eq)
qed

lemma root_determines_block:
  assumes sha: "digest32 sha" and idx: "idx < length blocks" and nc: "no_collision sha salt blocks idx block path"
    and path: "\<forall>s\<in>set path. length s = 32"
    and root: "climb sha salt (hash_block sha salt block) idx path = hd (last (levels_of sha salt blocks))"
  shows "block = blocks ! idx"
proof -
  let ?L = "levels_of sha salt blocks" and ?d = "length (levels_of sha salt blocks) - 1"
  have ne: "?L \<noteq> []" by (simp add: levels_of_def build_levels_not_Nil)
  then have d: "?d < length ?L" "last ?L = ?L ! ?d" by (simp_all add: last_conv_nth)
  have one: "length (?L ! ?d) = 1"
    using build_levels_last [of "map (hash_block sha salt) blocks"] idx d(2) by (simp add: levels_of_def) (metis length_0_conv not_less_zero)
  then have at: "climb sha salt (hash_block sha salt block) idx path = ?L ! ?d ! 0" using root d(2) by (metis hd_conv_nth length_0_conv zero_neq_one)
  have top: "idx div 2 ^ ?d = 0" using levels_reach [OF idx d(1)] one by (metis less_one)
  have "0 < length (?L ! ?d)" using one by simp
  then have "length path = ?d" by (rule climb_depth [OF sha nc d(1) _ path at])
  then have "hash_block sha salt block = ?L ! 0 ! idx"
    using climb_position [OF sha nc d(1) _ path] levels_reach [OF idx] d(1) at top by simp
  then have same: "sha (block_input salt block) = sha (block_input salt (blocks ! idx))"
    using idx by (simp add: levels_of_0 hash_block_def)
  have "block_input salt block \<in> verify_inputs sha salt idx block path" "block_input salt (blocks ! idx) \<in> build_inputs sha salt blocks"
    using idx by (simp_all add: verify_inputs_def build_inputs_def)
  then have "block_input salt block = block_input salt (blocks ! idx)"
    by (intro inj_onD [OF nc [unfolded no_collision_def] same]) blast+
  then show ?thesis by (simp add: block_input_def)
qed

text \<open>The signed bytes determine the manifest.\<close>

lemma tbs_inj:
  assumes "length (vm_root m) = 32" "length (vm_root m') = 32" "length (vm_salt m) = 32" "length (vm_salt m') = 32" "tbs m = tbs m'"
  shows "m = m'"
proof -
  have inj: "w = w'" if "to_le 4 w = to_le 4 w'" for w w' :: u32
    using from_to_le [of 4 w] from_to_le [of 4 w'] unfolding that by simp
  have "vm_root m = vm_root m' \<and> vm_salt m = vm_salt m' \<and> to_le 4 (vm_block_size m) = to_le 4 (vm_block_size m')
    \<and> to_le 4 (vm_block_count m) = to_le 4 (vm_block_count m')"
    using assms by (simp add: tbs_def)
  then have "vm_root m = vm_root m' \<and> vm_salt m = vm_salt m' \<and> vm_block_size m = vm_block_size m' \<and> vm_block_count m = vm_block_count m'"
    using inj by blast
  then show ?thesis by simp
qed

section \<open>Properties\<close>

text \<open>
  Property C7.  The root hash fixes every block of the image.  For an image and a tree built over it, the proof
  the tree gives for a block verifies against the root; and whatever block and proof of 32-byte hashes are
  presented for an index in range, if they verify then the block is the block of the image at
  that index, unless two different strings hashed for the tree or the proof have the same digest.\<close>

theorem root_fixes_image:
  assumes "digest32 sha" and "VerityTree_build sha data bs salt = Some t" and "index < vt_block_count t"
  shows "(\<exists>path. VerityTree_proof t index = Some path
      \<and> verify_block sha (VerityTree_root t) salt index (verity_block data bs index) path)
    \<and> (verify_block sha (VerityTree_root t) salt index block path \<and> (\<forall>s\<in>set path. length s = 32)
        \<and> no_collision sha salt (map (verity_block data bs) [0..<vt_block_count t]) index block path
      \<longrightarrow> block = verity_block data bs index)"
proof -
  let ?blocks = "map (verity_block data bs) [0..<vt_block_count t]"
  have leaves: "map (hash_block sha salt) ?blocks = map (\<lambda>i. hash_block sha salt (verity_block data bs i)) [0..<vt_block_count t]"
    by simp
  have lv: "vt_levels t = levels_of sha salt ?blocks"
    using assms(2) unfolding levels_of_def leaves by (auto simp: VerityTree_build_def Let_def split: if_splits)
  have idx: "index < length ?blocks" "?blocks ! index = verity_block data bs index" using assms(3) by simp_all
  obtain path' where "proof_loop (butlast (vt_levels t)) index = Some path'"
    "climb sha salt (map (hash_block sha salt) ?blocks ! index) index path' = hd (last (vt_levels t))"
    using proof_climbs [of index "map (hash_block sha salt) ?blocks" sha salt] idx(1) unfolding lv levels_of_def by auto
  then have "\<exists>path. VerityTree_proof t index = Some path
      \<and> verify_block sha (VerityTree_root t) salt index (verity_block data bs index) path"
    using assms(3) by (simp add: VerityTree_proof_def verify_block_def VerityTree_root_def)
  moreover have "block = verity_block data bs index"
    if "verify_block sha (VerityTree_root t) salt index block path" "\<forall>s\<in>set path. length s = 32"
      "no_collision sha salt ?blocks index block path"
    using root_determines_block [OF assms(1) idx(1) that(3,2)] that(1) idx(2)
    by (simp add: verify_block_def VerityTree_root_def lv)
  ultimately show ?thesis by blast
qed

text \<open>A digest for the example: the 32 bytes after the salt.\<close>

definition sample_sha :: sha where
  "sample_sha x = take 32 (drop 32 x @ replicate 32 0)"

theorem root_fixes_image_witness:
  "\<exists>t path. VerityTree_build sample_sha [1, 2] 1 (replicate 32 7) = Some t
    \<and> verify_block sample_sha (VerityTree_root t) (replicate 32 7) 1 [2] path
    \<and> no_collision sample_sha (replicate 32 7) [[1], [2]] 1 [2] path"
proof -
  let ?salt = "replicate 32 7 :: bytes" and ?path = "[hash_block sample_sha (replicate 32 7) [1]]"
  let ?in = "{block_input ?salt [1], block_input ?salt [2], node_input ?salt (hash_block sample_sha ?salt [1]) (hash_block sample_sha ?salt [2])}"
  obtain t where t: "VerityTree_build sample_sha [1, 2] 1 ?salt = Some t" "vt_block_count t = 2"
    by (simp add: VerityTree_build_def verity_block_count_def)
  have d: "digest32 sample_sha" by (auto simp: digest32_def sample_sha_def min_def)
  have blocks: "map (verity_block [1, 2] 1) [0..<2] = [[1], [2]]" "verity_block [1, 2] 1 1 = [2]"
    by (simp_all add: verity_block_def slice_def upt_rec)
  have "level_inputs ?salt [hash_block sample_sha ?salt [1], hash_block sample_sha ?salt [2]] \<subseteq> ?in"
    by (auto simp: level_inputs_def)
  then have "build_inputs sample_sha ?salt [[1], [2]] \<union> verify_inputs sample_sha ?salt 1 [2] ?path \<subseteq> ?in"
    by (auto simp: build_inputs_def verify_inputs_def build_levels.simps)
  moreover have "inj_on sample_sha ?in"
    by (simp add: block_input_def node_input_def hash_block_def sample_sha_def)
  ultimately have "no_collision sample_sha ?salt [[1], [2]] 1 [2] ?path"
    unfolding no_collision_def by (rule inj_on_subset [rotated])
  moreover have "VerityTree_proof t 1 = Some ?path"
    using t blocks by (auto simp: VerityTree_build_def VerityTree_proof_def build_levels.simps verity_block_count_def
        sibling_def verity_block_def slice_def upt_rec)
  then have "verify_block sample_sha (VerityTree_root t) ?salt 1 [2] ?path"
    using root_fixes_image [OF d t(1), of 1 "[2]" ?path] t(2) blocks by simp
  ultimately show ?thesis using t(1) by blast
qed

end
