(* ===== verification/BadBlocks.thy ===== *)
theory BadBlocks
  imports Interfaces
begin

text \<open>
  The bad-block table (\<open>crates/eurofs/src/badblocks.rs\<close>): remapping of broken blocks to reserve blocks and the
  form in which the table is kept on disk.
\<close>

section \<open>The table\<close>

definition BBT_MAGIC :: u32 where "BBT_MAGIC = 0x42425400"
definition BBT_ENTRY :: nat where "BBT_ENTRY = 16"

record Remap =
  rm_bad :: u64
  rm_spare :: u64

record BadBlockTable =
  bb_remaps :: "Remap list"
  bb_spare_base :: u64
  bb_spare_count :: u64
  bb_spare_next :: u64

definition BadBlockTable_new :: "u64 \<Rightarrow> u64 \<Rightarrow> BadBlockTable" where
  "BadBlockTable_new spare_base spare_count =
     \<lparr>bb_remaps = [], bb_spare_base = spare_base, bb_spare_count = spare_count, bb_spare_next = 0\<rparr>"

definition translate :: "BadBlockTable \<Rightarrow> u64 \<Rightarrow> u64" where
  "translate t lba = (case List.find (\<lambda>r. rm_bad r = lba) (bb_remaps t) of None \<Rightarrow> lba | Some r \<Rightarrow> rm_spare r)"

definition is_bad :: "BadBlockTable \<Rightarrow> u64 \<Rightarrow> bool" where
  "is_bad t lba \<longleftrightarrow> list_ex (\<lambda>r. rm_bad r = lba) (bb_remaps t)"

definition mark_bad :: "u64 \<Rightarrow> BadBlockTable \<Rightarrow> u64 option \<times> BadBlockTable" where
  "mark_bad lba t =
     (case List.find (\<lambda>r. rm_bad r = lba) (bb_remaps t) of
        Some r \<Rightarrow> (Some (rm_spare r), t)
      | None \<Rightarrow>
          if bb_spare_next t \<ge> bb_spare_count t then (None, t)
          else (let spare = bb_spare_base t + bb_spare_next t
                in (Some spare, t\<lparr>bb_spare_next := bb_spare_next t + 1,
                      bb_remaps := bb_remaps t @ [\<lparr>rm_bad = lba, rm_spare = spare\<rparr>]\<rparr>)))"

definition bad_count :: "BadBlockTable \<Rightarrow> nat" where
  "bad_count t = length (bb_remaps t)"

definition spares_left :: "BadBlockTable \<Rightarrow> u64" where
  "spares_left t = bb_spare_count t - bb_spare_next t"

section \<open>The disk form\<close>

definition sum_checksum :: "bytes \<Rightarrow> u32" where
  "sum_checksum b = foldl (\<lambda>a x. a + ucast x) 0 b"

definition remap_bytes :: "Remap \<Rightarrow> bytes" where
  "remap_bytes r = to_le 8 (rm_bad r) @ to_le 8 (rm_spare r)"

definition table_body :: "BadBlockTable \<Rightarrow> bytes" where
  "table_body t =
     to_le 4 BBT_MAGIC @ to_le 4 (of_nat (length (bb_remaps t)) :: u32) @ to_le 8 (bb_spare_base t)
     @ to_le 8 (bb_spare_count t) @ to_le 8 (bb_spare_next t) @ concat (map remap_bytes (bb_remaps t))"

definition BadBlockTable_serialize :: "BadBlockTable \<Rightarrow> bytes" where
  "BadBlockTable_serialize t = (let b = table_body t in b @ to_le 4 (sum_checksum b))"

definition read_remap :: "bytes \<Rightarrow> nat \<Rightarrow> Remap" where
  "read_remap data i =
     (let off = 32 + i * BBT_ENTRY
      in \<lparr>rm_bad = from_le (slice off (off + 8) data), rm_spare = from_le (slice (off + 8) (off + 16) data)\<rparr>)"

definition BadBlockTable_deserialize :: "bytes \<Rightarrow> BadBlockTable option" where
  "BadBlockTable_deserialize data =
     (if length data < 32 + 4 then None
      else if from_le (slice 0 4 data) \<noteq> BBT_MAGIC then None
      else
        (let n = unat (from_le (slice 4 8 data) :: u32);
             need = 32 + n * BBT_ENTRY + 4
         in if length data < need then None
            else if sum_checksum (take (need - 4) data) \<noteq> from_le (slice (need - 4) need data) then None
            else Some \<lparr>bb_remaps = map (read_remap data) [0..<n],
                       bb_spare_base = from_le (slice 8 16 data), bb_spare_count = from_le (slice 16 24 data),
                       bb_spare_next = from_le (slice 24 32 data)\<rparr>))"

section \<open>Remapping\<close>

text \<open>The reserve pool does not wrap around the end of the address space.\<close>

definition pool :: "BadBlockTable \<Rightarrow> u64 set" where
  "pool t = {l. unat (bb_spare_base t) \<le> unat l \<and> unat l < unat (bb_spare_base t) + unat (bb_spare_count t)}"

definition bbt_ok :: "BadBlockTable \<Rightarrow> bool" where
  "bbt_ok t \<longleftrightarrow>
     unat (bb_spare_base t) + unat (bb_spare_count t) \<le> 2 ^ 64
     \<and> unat (bb_spare_next t) = length (bb_remaps t) \<and> length (bb_remaps t) \<le> unat (bb_spare_count t)
     \<and> distinct (map rm_bad (bb_remaps t))
     \<and> (\<forall>i<length (bb_remaps t). unat (rm_spare (bb_remaps t ! i)) = unat (bb_spare_base t) + i)"

fun mark_all :: "u64 list \<Rightarrow> BadBlockTable \<Rightarrow> BadBlockTable" where
  "mark_all [] t = t"
| "mark_all (l # ls) t = mark_all ls (snd (mark_bad l t))"

lemma bbt_ok_new: "unat base + unat cnt \<le> 2 ^ 64 \<Longrightarrow> bbt_ok (BadBlockTable_new base cnt)"
  by (simp add: bbt_ok_def BadBlockTable_new_def)

lemma mark_bad_cases:
  assumes "bbt_ok t"
  obtains (known) r where "r \<in> set (bb_remaps t)" "rm_bad r = lba" "mark_bad lba t = (Some (rm_spare r), t)"
  | (full) "lba \<notin> rm_bad ` set (bb_remaps t)" "length (bb_remaps t) = unat (bb_spare_count t)" "mark_bad lba t = (None, t)"
  | (fresh) t' where "lba \<notin> rm_bad ` set (bb_remaps t)" "length (bb_remaps t) < unat (bb_spare_count t)"
      "t' = t\<lparr>bb_spare_next := bb_spare_next t + 1,
         bb_remaps := bb_remaps t @ [\<lparr>rm_bad = lba, rm_spare = bb_spare_base t + bb_spare_next t\<rparr>]\<rparr>"
      "mark_bad lba t = (Some (bb_spare_base t + bb_spare_next t), t')" "bbt_ok t'"
proof (cases "List.find (\<lambda>r. rm_bad r = lba) (bb_remaps t)")
  case (Some r)
  then have "r \<in> set (bb_remaps t)" "rm_bad r = lba" by (auto simp: find_Some_iff)
  then show ?thesis using Some known by (simp add: mark_bad_def)
next
  case None
  then have new: "lba \<notin> rm_bad ` set (bb_remaps t)" by (auto simp: find_None_iff)
  have n: "unat (bb_spare_next t) = length (bb_remaps t)" using assms by (simp add: bbt_ok_def)
  show ?thesis
  proof (cases "bb_spare_next t \<ge> bb_spare_count t")
    case True
    then show ?thesis using full None new n assms by (simp add: mark_bad_def bbt_ok_def word_le_nat_alt)
  next
    case False
    then have lt: "length (bb_remaps t) < unat (bb_spare_count t)" using n by (simp add: word_le_nat_alt)
    have sum: "unat (bb_spare_base t) + unat (bb_spare_count t) \<le> 2 ^ 64" using assms by (simp add: bbt_ok_def)
    let ?t = "t\<lparr>bb_spare_next := bb_spare_next t + 1,
         bb_remaps := bb_remaps t @ [\<lparr>rm_bad = lba, rm_spare = bb_spare_base t + bb_spare_next t\<rparr>]\<rparr>"
    have "unat (bb_spare_next t + 1) = Suc (length (bb_remaps t))"
      using n lt unat_lt [of "bb_spare_count t"] by (simp add: unat_add_lt)
    moreover have "unat (bb_spare_base t + bb_spare_next t) = unat (bb_spare_base t) + length (bb_remaps t)"
      using n lt sum by (simp add: unat_add_lt)
    ultimately have "bbt_ok ?t" using assms new lt by (auto simp: bbt_ok_def nth_append)
    moreover have "mark_bad lba t = (Some (bb_spare_base t + bb_spare_next t), ?t)"
      using None False by (simp add: mark_bad_def Let_def)
    ultimately show ?thesis using fresh new lt by blast
  qed
qed

lemma mark_bad_ok: "bbt_ok t \<Longrightarrow> bbt_ok (snd (mark_bad lba t)) \<and> pool (snd (mark_bad lba t)) = pool t"
  by (rule mark_bad_cases [of t lba]) (auto simp: pool_def)

lemma mark_all_ok: "bbt_ok t \<Longrightarrow> bbt_ok (mark_all ls t) \<and> pool (mark_all ls t) = pool t"
  by (induction ls arbitrary: t) (simp_all add: mark_bad_ok)

lemma mark_all_bad: "bbt_ok t \<Longrightarrow> is_bad (mark_all ls t) l \<Longrightarrow> is_bad t l \<or> l \<in> set ls"
proof (induction ls arbitrary: t)
  case Nil
  then show ?case by simp
next
  case (Cons k ls)
  have "is_bad (snd (mark_bad k t)) l \<Longrightarrow> is_bad t l \<or> l = k"
    using Cons.prems(1) by (rule mark_bad_cases [of t k]) (auto simp: is_bad_def)
  then show ?case using Cons.IH [of "snd (mark_bad k t)"] mark_bad_ok [OF Cons.prems(1)] Cons.prems by auto
qed

lemma translate_bad:
  assumes "bbt_ok t" and "is_bad t l"
  shows "\<exists>i<length (bb_remaps t). rm_bad (bb_remaps t ! i) = l \<and> unat (translate t l) = unat (bb_spare_base t) + i"
proof -
  obtain r where r: "List.find (\<lambda>r. rm_bad r = l) (bb_remaps t) = Some r"
    using assms(2) by (cases "List.find (\<lambda>r. rm_bad r = l) (bb_remaps t)") (auto simp: is_bad_def list_ex_iff find_None_iff)
  then obtain i where "i < length (bb_remaps t)" "r = bb_remaps t ! i" "rm_bad r = l" by (auto simp: find_Some_iff)
  then show ?thesis using r assms(1) by (auto simp: translate_def bbt_ok_def)
qed

lemma translate_good: "\<not> is_bad t l \<Longrightarrow> translate t l = l"
  by (auto simp: is_bad_def list_ex_iff translate_def find_Some_iff split: option.splits)

lemma translate_pool: "bbt_ok t \<Longrightarrow> is_bad t l \<Longrightarrow> translate t l \<in> pool t"
  using translate_bad [of t l] by (auto simp: pool_def bbt_ok_def)

lemma translate_inj:
  assumes "bbt_ok t" and "l \<notin> pool t" "k \<notin> pool t" and "translate t l = translate t k"
  shows "l = k"
proof (cases "is_bad t l \<and> is_bad t k")
  case True
  then show ?thesis using translate_bad [OF assms(1)] assms(4) by (metis add_left_cancel)
next
  case False
  then show ?thesis using translate_pool [OF assms(1)] translate_good assms(2-4) by metis
qed

section \<open>Reading the table back\<close>

lemma length_remap_bytes [simp]: "length (remap_bytes r) = 16"
  by (simp add: remap_bytes_def)

lemma length_remaps: "length (concat (map remap_bytes rs)) = 16 * length rs"
  by (induction rs) simp_all

lemma drop_remaps: "drop (16 * i) (concat (map remap_bytes rs)) = concat (map remap_bytes (drop i rs))"
proof (induction i arbitrary: rs)
  case 0
  then show ?case by simp
next
  case (Suc i)
  then show ?case by (cases rs) (simp_all add: drop_append)
qed

lemma length_table_body: "length (table_body t) = 32 + 16 * length (bb_remaps t)"
  by (simp add: table_body_def length_remaps)

lemma read_remap_body:
  assumes "i < length (bb_remaps t)"
  shows "read_remap (table_body t @ ck) i = bb_remaps t ! i"
proof -
  let ?r = "bb_remaps t ! i"
  have "drop (32 + i * 16) (table_body t @ ck) = drop (16 * i) (concat (map remap_bytes (bb_remaps t))) @ ck"
    using assms by (simp add: table_body_def length_remaps mult.commute)
  also have "\<dots> = to_le 8 (rm_bad ?r) @ to_le 8 (rm_spare ?r) @ concat (map remap_bytes (drop (Suc i) (bb_remaps t))) @ ck"
    using assms by (simp add: drop_remaps Cons_nth_drop_Suc [symmetric] remap_bytes_def)
  finally have d: "drop (32 + i * 16) (table_body t @ ck) = to_le 8 (rm_bad ?r) @ to_le 8 (rm_spare ?r) @ concat (map remap_bytes (drop (Suc i) (bb_remaps t))) @ ck" .
  have "slice (32 + i * 16) (32 + i * 16 + 8) (table_body t @ ck) = to_le 8 (rm_bad ?r)"
    unfolding slice_def d by simp
  moreover have "slice (32 + i * 16 + 8) (32 + i * 16 + 16) (table_body t @ ck) = take 8 (drop 8 (drop (32 + i * 16) (table_body t @ ck)))"
    unfolding slice_def drop_drop by (simp only: add.commute add_diff_cancel_left add.assoc) (simp add: add.commute)
  then have "slice (32 + i * 16 + 8) (32 + i * 16 + 16) (table_body t @ ck) = to_le 8 (rm_spare ?r)"
    unfolding d by simp
  ultimately show ?thesis by (simp add: read_remap_def BBT_ENTRY_def Let_def from_to_le)
qed

lemma table_header:
  "slice 0 4 (table_body t @ ck) = to_le 4 BBT_MAGIC" "slice 4 8 (table_body t @ ck) = to_le 4 (of_nat (length (bb_remaps t)) :: u32)"
  "slice 8 16 (table_body t @ ck) = to_le 8 (bb_spare_base t)" "slice 16 24 (table_body t @ ck) = to_le 8 (bb_spare_count t)"
  "slice 24 32 (table_body t @ ck) = to_le 8 (bb_spare_next t)"
  by (simp_all add: table_body_def slice_def)

lemma table_round_trip:
  assumes "length (bb_remaps t) < 2 ^ 32"
  shows "BadBlockTable_deserialize (BadBlockTable_serialize t) = Some t"
proof -
  let ?ck = "to_le 4 (sum_checksum (table_body t))"
  have n: "unat (of_nat (length (bb_remaps t)) :: u32) = length (bb_remaps t)" using assms by (simp add: unat_of_nat_lt)
  have "map (read_remap (table_body t @ ?ck)) [0..<length (bb_remaps t)] = bb_remaps t"
    by (rule nth_equalityI) (simp_all add: read_remap_body)
  moreover have "slice (length (table_body t)) (length (table_body t) + 4) (table_body t @ ?ck) = ?ck"
    by (simp add: slice_def)
  ultimately show ?thesis
    using length_table_body [of t]
    by (simp add: BadBlockTable_serialize_def BadBlockTable_deserialize_def Let_def table_header from_to_le n BBT_ENTRY_def mult.commute)
qed

interpretation bad_block_table: wire_format "\<lambda>t. length (bb_remaps t) < 2 ^ 32" BadBlockTable_serialize BadBlockTable_deserialize
  by unfold_locales (rule table_round_trip)

section \<open>Properties\<close>

text \<open>
  Property C40.  Remapping keeps blocks apart.  After any blocks outside the reserve pool have been marked bad, two
  different blocks outside the pool never share a physical block, no block is served by one the table has
  registered as bad, and the table survives being written to disk and read back.  This does not extend to the reserve
  blocks themselves: when the reserve of a block is marked bad in turn, the block is still sent to it.\<close>

theorem remapping_keeps_blocks_apart:
  assumes "unat base + unat cnt \<le> 2 ^ 64" and "unat cnt < 2 ^ 32" and "t = mark_all ls (BadBlockTable_new base cnt)"
    and "\<forall>x\<in>set ls. x \<notin> pool (BadBlockTable_new base cnt)"
    and "l \<notin> pool (BadBlockTable_new base cnt)" and "k \<notin> pool (BadBlockTable_new base cnt)" and "l \<noteq> k"
  shows "translate t l \<noteq> translate t k \<and> \<not> is_bad t (translate t l)
    \<and> BadBlockTable_deserialize (BadBlockTable_serialize t) = Some t
    \<and> translate (mark_all [5, 100] (BadBlockTable_new 100 8)) 5 = 100 \<and> is_bad (mark_all [5, 100] (BadBlockTable_new 100 8)) 100"
proof -
  let ?n = "BadBlockTable_new base cnt"
  have n: "bbt_ok ?n" using assms(1) by (rule bbt_ok_new)
  have ok: "bbt_ok t" "pool t = pool ?n" using mark_all_ok [OF n] assms(3) by simp_all
  have bad: "x \<notin> pool ?n" if "is_bad t x" for x
  proof -
    have "\<not> is_bad ?n x" by (simp add: is_bad_def BadBlockTable_new_def)
    then show ?thesis using mark_all_bad [OF n, of ls x] that assms(3,4) by blast
  qed
  have "translate t l \<noteq> translate t k" using translate_inj [OF ok(1)] assms(5-7) ok(2) by blast
  moreover have "\<not> is_bad t (translate t l)"
    using bad translate_pool [OF ok(1)] translate_good ok(2) by metis
  moreover have "bb_spare_count t = cnt"
  proof -
    have "bb_spare_count (mark_all ls s) = bb_spare_count s" for s
      by (induction ls arbitrary: s) (simp_all add: mark_bad_def Let_def split: option.splits)
    then show ?thesis by (simp add: assms(3) BadBlockTable_new_def)
  qed
  then have "length (bb_remaps t) \<le> unat cnt" using ok(1) by (simp add: bbt_ok_def)
  then have "length (bb_remaps t) < 2 ^ 32" using assms(2) by simp
  then have "BadBlockTable_deserialize (BadBlockTable_serialize t) = Some t" by (rule bad_block_table.dec_enc)
  moreover have "translate (mark_all [5, 100] (BadBlockTable_new 100 8)) 5 = 100 \<and> is_bad (mark_all [5, 100] (BadBlockTable_new 100 8)) 100"
    by (simp add: BadBlockTable_new_def mark_bad_def translate_def is_bad_def word_le_nat_alt)
  ultimately show ?thesis by simp
qed

theorem remapping_keeps_blocks_apart_witness:
  "translate (mark_all [7, 9] (BadBlockTable_new 100 8)) 7 \<noteq> translate (mark_all [7, 9] (BadBlockTable_new 100 8)) 9
   \<and> BadBlockTable_deserialize (BadBlockTable_serialize (mark_all [7, 9] (BadBlockTable_new 100 8)))
     = Some (mark_all [7, 9] (BadBlockTable_new 100 8))"
  using remapping_keeps_blocks_apart [of 100 8 "mark_all [7, 9] (BadBlockTable_new 100 8)" "[7, 9]" 7 9]
  by (simp add: pool_def BadBlockTable_new_def)

end
