(* ===== verification/Paths.thy ===== *)
theory Paths
  imports Text
begin

text \<open>
  Path utilities of EuroFS (\<open>crates/eurofs/src/path.rs\<close>).
\<close>

section \<open>Operations\<close>

definition split_path :: "string \<Rightarrow> string list" where
  "split_path path = filter (\<lambda>s. s \<noteq> []) (str_split (CHR ''/'') path)"

definition rfind :: "char \<Rightarrow> string \<Rightarrow> nat option" where
  "rfind c s = map_option (\<lambda>i. length s - 1 - i) (position (\<lambda>x. x = c) (rev s))"

definition path_parent :: "string \<Rightarrow> string" where
  "path_parent path =
     (let trimmed = trim_end (CHR ''/'') path
      in case rfind (CHR ''/'') trimmed of
           None \<Rightarrow> ''/''
         | Some i \<Rightarrow> if i = 0 then ''/'' else take i trimmed)"

definition filename :: "string \<Rightarrow> string" where
  "filename path =
     (let trimmed = trim_end (CHR ''/'') path
      in case rfind (CHR ''/'') trimmed of
           Some i \<Rightarrow> drop (i + 1) trimmed
         | None \<Rightarrow> trimmed)"

definition path_normalize :: "string \<Rightarrow> string" where
  "path_normalize path =
     (let components = split_path path
      in if components = [] then ''/''
         else fold (\<lambda>c result. result @ ''/'' @ c) components '''')"

definition path_join :: "string \<Rightarrow> string \<Rightarrow> string" where
  "path_join base name = trim_end (CHR ''/'') base @ ''/'' @ name"

section \<open>Components\<close>

text \<open>A name: not empty, no slash.\<close>

definition is_name :: "string \<Rightarrow> bool" where
  "is_name s \<longleftrightarrow> s \<noteq> [] \<and> CHR ''/'' \<notin> set s"

lemma split_path_names: "s \<in> set (split_path path) \<Longrightarrow> is_name s"
  by (auto simp: split_path_def is_name_def dest: str_split_no_sep)

lemma fold_slash: "fold (\<lambda>c result. result @ CHR ''/'' # c) cs r = r @ concat (map (\<lambda>c. CHR ''/'' # c) cs)"
  by (induction cs arbitrary: r) simp_all

lemma split_path_components:
  assumes "\<And>c. c \<in> set cs \<Longrightarrow> is_name c"
  shows "split_path (concat (map (\<lambda>c. ''/'' @ c) cs)) = cs"
proof -
  have "str_split (CHR ''/'') (p @ concat (map (\<lambda>c. ''/'' @ c) cs)) = p # cs" if "CHR ''/'' \<notin> set p" for p
    using that assms
  proof (induction cs arbitrary: p)
    case Nil
    then show ?case by (simp add: str_split_plain)
  next
    case (Cons c cs)
    then have "str_split (CHR ''/'') (c @ concat (map (\<lambda>c. ''/'' @ c) cs)) = c # cs" by (simp add: is_name_def)
    then show ?case using Cons.prems(1) by (simp add: str_split_append)
  qed
  from this [of "[]"] have "str_split (CHR ''/'') (concat (map (\<lambda>c. ''/'' @ c) cs)) = [] # cs" by simp
  then show ?thesis using assms by (auto simp: split_path_def is_name_def intro!: filter_True)
qed

text \<open>Normalizing keeps the components and is idempotent: two paths have the same normal form exactly
  when they have the same components.\<close>

lemma split_normalize: "split_path (path_normalize path) = split_path path"
proof (cases "split_path path = []")
  case True
  then show ?thesis by (simp add: path_normalize_def) (simp add: split_path_def)
next
  case False
  then show ?thesis
    using split_path_components [of "split_path path"] split_path_names by (simp add: path_normalize_def fold_slash)
qed

lemma normalize_idem: "path_normalize (path_normalize path) = path_normalize path"
  using split_normalize [of path] unfolding path_normalize_def [of "path_normalize path"] by (simp add: path_normalize_def [of path])

lemma normalize_eq_iff: "path_normalize a = path_normalize b \<longleftrightarrow> split_path a = split_path b"
  by (metis path_normalize_def split_normalize)

section \<open>Parent and name\<close>

lemma trim_end_name: "s \<noteq> [] \<Longrightarrow> last s \<noteq> c \<Longrightarrow> trim_end c s = s"
  by (cases s rule: rev_cases) (simp_all add: trim_end_def)

lemma rfind_append: "c \<notin> set name \<Longrightarrow> rfind c (base @ c # name) = Some (length base)"
proof -
  assume c: "c \<notin> set name"
  have "position (\<lambda>x. x = c) (rev name @ c # rev base) = Some (length name)"
    using c by (auto simp: position_Some nth_append in_set_conv_nth) (metis in_set_conv_nth length_rev nth_mem set_rev)
  then show ?thesis by (simp add: rfind_def)
qed

lemma trimmed_join: "is_name name \<Longrightarrow> trim_end (CHR ''/'') (path_join base name) = path_join base name"
  by (rule trim_end_name) (auto simp: path_join_def is_name_def dest: last_in_set)

lemma join_parent_filename:
  assumes "is_name name"
  shows "filename (path_join base name) = name"
    and "path_parent (path_join base name) = (if trim_end (CHR ''/'') base = [] then ''/'' else trim_end (CHR ''/'') base)"
proof -
  have r: "rfind (CHR ''/'') (path_join base name) = Some (length (trim_end (CHR ''/'') base))"
    using assms rfind_append [of "CHR ''/''" name] by (simp add: path_join_def is_name_def)
  then show "filename (path_join base name) = name"
    by (simp add: filename_def trimmed_join [OF assms]) (simp add: path_join_def)
  show "path_parent (path_join base name) = (if trim_end (CHR ''/'') base = [] then ''/'' else trim_end (CHR ''/'') base)"
    using r by (simp add: path_parent_def trimmed_join [OF assms]) (simp add: path_join_def)
qed

end
