(* ===== verification/RamDisk.thy ===== *)
theory RamDisk
  imports Paths Block "HOL-Library.List_Lexorder" "HOL-Library.Char_ord"
begin

text \<open>
  The in-memory file system (\<open>crates/eurofs/src/ramdisk.rs\<close>): a map from normalized paths to files and
  directories.  A directory keeps the set of its children's names; listings are in lexicographic order, as
  the source's ordered map gives them.
\<close>

section \<open>The file system\<close>

datatype Node = File bytes | Directory "string set"

datatype EntryKind = KFile | KDirectory | KSymlink

record DirEntry =
  de_name :: string
  de_kind :: EntryKind
  de_size :: u64
  de_mode :: u16
  de_mtime :: u64

record RamDisk =
  rd_nodes :: "string \<Rightarrow> Node option"
  rd_max_size :: u64
  rd_used_size :: u64

type_synonym 'a fs_result = "('a, FsError) result"

definition RamDisk_new :: "u64 \<Rightarrow> RamDisk" where
  "RamDisk_new max_size = \<lparr>rd_nodes = [''/'' \<mapsto> Directory {}], rd_max_size = max_size, rd_used_size = 0\<rparr>"

definition add_child :: "string \<Rightarrow> string \<Rightarrow> RamDisk \<Rightarrow> RamDisk" where
  "add_child parent_path name d =
     (case rd_nodes d parent_path of
        Some (Directory children) \<Rightarrow> d\<lparr>rd_nodes := (rd_nodes d)(parent_path \<mapsto> Directory (insert name children))\<rparr>
      | _ \<Rightarrow> d)"

definition remove_child :: "string \<Rightarrow> string \<Rightarrow> RamDisk \<Rightarrow> RamDisk" where
  "remove_child parent_path name d =
     (case rd_nodes d parent_path of
        Some (Directory children) \<Rightarrow> d\<lparr>rd_nodes := (rd_nodes d)(parent_path \<mapsto> Directory (children - {name}))\<rparr>
      | _ \<Rightarrow> d)"

definition ramdisk_read_file :: "string \<Rightarrow> RamDisk \<Rightarrow> bytes fs_result" where
  "ramdisk_read_file path d =
     (case rd_nodes d (path_normalize path) of
        Some (File data) \<Rightarrow> Ok data
      | Some (Directory _) \<Rightarrow> Err NotAFile
      | None \<Rightarrow> Err NotFound)"

text \<open>The space check, made only on a bounded disk: the new use, or the error.\<close>

definition charge_space :: "string \<Rightarrow> u64 \<Rightarrow> RamDisk \<Rightarrow> u64 fs_result" where
  "charge_space norm new d =
     (if rd_max_size d > 0 then
        (case rd_nodes d norm of
           Some (Directory _) \<Rightarrow> Err NotAFile
         | node \<Rightarrow>
             (let old = (case node of Some (File data) \<Rightarrow> of_nat (length data) | _ \<Rightarrow> 0);
                  projected = rd_used_size d + new - min old (rd_used_size d)
              in if new > old \<and> projected > rd_max_size d then Err NoSpace
                 else Ok (rd_used_size d - old + new)))
      else Ok (rd_used_size d))"

text \<open>The directory a new entry goes to.\<close>

definition check_parent :: "string \<Rightarrow> RamDisk \<Rightarrow> unit fs_result" where
  "check_parent parent_path d =
     (case rd_nodes d parent_path of
        Some (Directory _) \<Rightarrow> Ok ()
      | Some _ \<Rightarrow> Err NotADirectory
      | None \<Rightarrow> Err NotFound)"

definition ramdisk_write_file :: "string \<Rightarrow> bytes \<Rightarrow> RamDisk \<Rightarrow> unit fs_result \<times> RamDisk" where
  "ramdisk_write_file path data d =
     (let norm = path_normalize path
      in if norm = ''/'' then (Err InvalidPath, d)
         else case charge_space norm (of_nat (length data)) d of
           Err e \<Rightarrow> (Err e, d)
         | Ok used \<Rightarrow>
             (let d = d\<lparr>rd_used_size := used\<rparr>; parent_path = path_parent norm
              in case check_parent parent_path d of
                   Err e \<Rightarrow> (Err e, d)
                 | Ok _ \<Rightarrow>
                     (let is_new = (rd_nodes d norm = None);
                          d = d\<lparr>rd_nodes := (rd_nodes d)(norm \<mapsto> File data)\<rparr>
                      in (Ok (), if is_new then add_child parent_path (filename norm) d else d))))"

definition ramdisk_remove_file :: "string \<Rightarrow> RamDisk \<Rightarrow> unit fs_result \<times> RamDisk" where
  "ramdisk_remove_file path d =
     (let norm = path_normalize path
      in case rd_nodes d norm of
           Some (File data) \<Rightarrow>
             (let d = d\<lparr>rd_used_size := saturating_sub (rd_used_size d) (of_nat (length data)),
                        rd_nodes := (rd_nodes d)(norm := None)\<rparr>
              in (Ok (), remove_child (path_parent norm) (filename norm) d))
         | Some (Directory _) \<Rightarrow> (Err NotAFile, d)
         | None \<Rightarrow> (Err NotFound, d))"

definition ramdisk_create_dir :: "string \<Rightarrow> RamDisk \<Rightarrow> unit fs_result \<times> RamDisk" where
  "ramdisk_create_dir path d =
     (let norm = path_normalize path
      in if norm = ''/'' then (Ok (), d)
         else if rd_nodes d norm \<noteq> None then (Err AlreadyExists, d)
         else (let parent_path = path_parent norm
               in case check_parent parent_path d of
                    Err e \<Rightarrow> (Err e, d)
                  | Ok _ \<Rightarrow> (Ok (), add_child parent_path (filename norm) (d\<lparr>rd_nodes := (rd_nodes d)(norm \<mapsto> Directory {})\<rparr>))))"

text \<open>The modes are octal 644 and 755.\<close>

definition node_entry :: "string \<Rightarrow> Node \<Rightarrow> DirEntry" where
  "node_entry name node =
     (case node of
        File data \<Rightarrow> \<lparr>de_name = name, de_kind = KFile, de_size = of_nat (length data), de_mode = 0x1A4, de_mtime = 0\<rparr>
      | Directory _ \<Rightarrow> \<lparr>de_name = name, de_kind = KDirectory, de_size = 0, de_mode = 0x1ED, de_mtime = 0\<rparr>)"

definition ramdisk_list_dir :: "string \<Rightarrow> RamDisk \<Rightarrow> DirEntry list fs_result" where
  "ramdisk_list_dir path d =
     (let norm = path_normalize path
      in case rd_nodes d norm of
           Some (Directory children) \<Rightarrow>
             Ok (List.map_filter (\<lambda>name. map_option (node_entry name) (rd_nodes d (path_join norm name)))
                   (sorted_list_of_set children))
         | Some _ \<Rightarrow> Err NotADirectory
         | None \<Rightarrow> Err NotFound)"

definition ramdisk_exists :: "string \<Rightarrow> RamDisk \<Rightarrow> bool" where
  "ramdisk_exists path d \<longleftrightarrow> rd_nodes d (path_normalize path) \<noteq> None"

definition ramdisk_metadata :: "string \<Rightarrow> RamDisk \<Rightarrow> DirEntry fs_result" where
  "ramdisk_metadata path d =
     (let norm = path_normalize path
      in ok_or (map_option (node_entry (filename norm)) (rd_nodes d norm)) NotFound)"

definition ramdisk_space_info :: "RamDisk \<Rightarrow> u64 \<times> u64" where
  "ramdisk_space_info d =
     (if rd_max_size d = 0 then (- 1, - 1)
      else (rd_max_size d, saturating_sub (rd_max_size d) (rd_used_size d)))"

section \<open>Filling it\<close>

lemma parent_shorter: "path \<noteq> ''/'' \<Longrightarrow> path_parent path \<noteq> ''/'' \<Longrightarrow> length (path_parent path) < length path"
proof -
  assume "path_parent path \<noteq> ''/''"
  then obtain i where i: "rfind (CHR ''/'') (trim_end (CHR ''/'') path) = Some i" "path_parent path = take i (trim_end (CHR ''/'') path)"
    by (auto simp: path_parent_def Let_def split: option.splits if_splits)
  then have "i < length (trim_end (CHR ''/'') path)"
    by (auto simp: rfind_def position_Some)
  moreover have "length (trim_end (CHR ''/'') path) \<le> length path"
    by (simp add: trim_end_def) (metis length_dropWhile_le length_rev)
  ultimately show ?thesis using i by simp
qed

function ensure_dir_exists :: "string \<Rightarrow> RamDisk \<Rightarrow> RamDisk" where
  "ensure_dir_exists path d =
     (if path = ''/'' \<or> ramdisk_exists path d then d
      else snd (ramdisk_create_dir path (ensure_dir_exists (path_parent path) d)))"
  by pat_completeness auto
termination
  by (relation "measure (\<lambda>(path, d). if path = ''/'' then 0 else Suc (length path))") (auto simp: parent_shorter)

declare ensure_dir_exists.simps [simp del]

definition populate :: "(string \<times> bytes) list \<Rightarrow> RamDisk \<Rightarrow> RamDisk" where
  "populate files d =
     fold (\<lambda>(path, data) d. let norm = path_normalize path
        in snd (ramdisk_write_file norm data (ensure_dir_exists (path_parent norm) d))) files d"

section \<open>Paths as component lists\<close>

definition mk :: "string list \<Rightarrow> string" where
  "mk cs = (if cs = [] then ''/'' else concat (map (\<lambda>c. CHR ''/'' # c) cs))"

definition names :: "string list \<Rightarrow> bool" where
  "names cs \<longleftrightarrow> (\<forall>c\<in>set cs. is_name c)"

lemma normalize_mk: "path_normalize path = mk (split_path path)" "names (split_path path)"
  by (auto simp: path_normalize_def mk_def fold_slash names_def dest: split_path_names)

lemma split_mk: "names cs \<Longrightarrow> split_path (mk cs) = cs"
proof (cases "cs = []")
  case True
  then show ?thesis by (simp add: mk_def split_path_def)
next
  case False
  assume "names cs"
  then show ?thesis using split_path_components [of cs] False by (simp add: mk_def names_def)
qed

lemma mk_inj: "names cs \<Longrightarrow> names ds \<Longrightarrow> mk cs = mk ds \<longleftrightarrow> cs = ds"
  by (metis split_mk)

lemma normalize_of_mk: "names cs \<Longrightarrow> path_normalize (mk cs) = mk cs"
  by (simp add: normalize_mk split_mk)

lemma trim_mk: "names cs \<Longrightarrow> trim_end (CHR ''/'') (mk cs) = (if cs = [] then [] else mk cs)"
proof (cases "cs = []")
  case True
  then show ?thesis by (simp add: mk_def trim_end_def)
next
  case False
  assume "names cs"
  then have "mk cs \<noteq> []" "last (mk cs) \<noteq> CHR ''/''"
    using False by (cases cs rule: rev_cases; auto simp: mk_def names_def is_name_def dest: last_in_set)+
  then show ?thesis using False by (simp add: trim_end_name)
qed

lemma mk_snoc:
  assumes "names (cs @ [n])"
  shows "mk (cs @ [n]) = path_join (mk cs) n" "path_parent (mk (cs @ [n])) = mk cs" "filename (mk (cs @ [n])) = n"
    "mk (cs @ [n]) \<noteq> ''/''"
proof -
  have n: "names cs" "is_name n" using assms by (simp_all add: names_def)
  show j: "mk (cs @ [n]) = path_join (mk cs) n"
    by (simp add: path_join_def trim_mk [OF n(1)]) (simp add: mk_def)
  show "path_parent (mk (cs @ [n])) = mk cs" "filename (mk (cs @ [n])) = n"
    unfolding j using join_parent_filename [OF n(2)] trim_mk [OF n(1)] by (auto simp: mk_def)
  have "mk (cs @ [n]) \<noteq> mk []" using mk_inj [OF assms, of "[]"] by (simp add: names_def)
  then show "mk (cs @ [n]) \<noteq> ''/''" by (simp add: mk_def)
qed

lemma mk_root: "names cs \<Longrightarrow> mk cs = ''/'' \<longleftrightarrow> cs = []"
  using mk_inj [of cs "[]"] by (simp add: mk_def names_def)

section \<open>The tree\<close>

definition node :: "RamDisk \<Rightarrow> string list \<Rightarrow> Node option" where
  "node d cs = rd_nodes d (mk cs)"

definition tree_ok :: "RamDisk \<Rightarrow> bool" where
  "tree_ok d \<longleftrightarrow> (\<exists>ch. node d [] = Some (Directory ch))
     \<and> (\<forall>p. rd_nodes d p \<noteq> None \<longrightarrow> (\<exists>cs. names cs \<and> p = mk cs))
     \<and> (\<forall>cs ch. names cs \<and> node d cs = Some (Directory ch) \<longrightarrow> finite ch \<and> (\<forall>c\<in>ch. is_name c))
     \<and> (\<forall>cs n. names (cs @ [n]) \<longrightarrow> (node d (cs @ [n]) \<noteq> None \<longleftrightarrow> (\<exists>ch. node d cs = Some (Directory ch) \<and> n \<in> ch)))"

lemma tree_okD:
  assumes "tree_ok d"
  shows "\<exists>ch. node d [] = Some (Directory ch)" "rd_nodes d p \<noteq> None \<Longrightarrow> \<exists>cs. names cs \<and> p = mk cs"
    "names cs \<Longrightarrow> node d cs = Some (Directory ch) \<Longrightarrow> finite ch \<and> (\<forall>c\<in>ch. is_name c)"
    "names (cs @ [n]) \<Longrightarrow> node d (cs @ [n]) \<noteq> None \<longleftrightarrow> (\<exists>ch. node d cs = Some (Directory ch) \<and> n \<in> ch)"
  using assms unfolding tree_ok_def by blast+

lemma tree_okI:
  assumes "\<exists>ch. node d [] = Some (Directory ch)" "\<And>p. rd_nodes d p \<noteq> None \<Longrightarrow> \<exists>cs. names cs \<and> p = mk cs"
    "\<And>cs ch. names cs \<Longrightarrow> node d cs = Some (Directory ch) \<Longrightarrow> finite ch \<and> (\<forall>c\<in>ch. is_name c)"
    "\<And>cs n. names (cs @ [n]) \<Longrightarrow> node d (cs @ [n]) \<noteq> None \<longleftrightarrow> (\<exists>ch. node d cs = Some (Directory ch) \<and> n \<in> ch)"
  shows "tree_ok d"
  using assms unfolding tree_ok_def by blast

lemma names_snoc: "names (cs @ [n]) \<longleftrightarrow> names cs \<and> is_name n"
  by (auto simp: names_def)

text \<open>Putting a file or an empty directory under a directory.\<close>

definition put_node :: "string list \<Rightarrow> string \<Rightarrow> Node \<Rightarrow> RamDisk \<Rightarrow> RamDisk \<Rightarrow> bool" where
  "put_node bs n x d d' \<longleftrightarrow> (\<exists>ch. node d bs = Some (Directory ch)
     \<and> rd_nodes d' = (rd_nodes d)(mk (bs @ [n]) \<mapsto> x, mk bs \<mapsto> Directory (insert n ch)))"

lemma node_put:
  assumes "put_node bs n x d d'" and "names (bs @ [n])" and "names cs"
  shows "node d' cs = (if cs = bs @ [n] then Some x
    else if cs = bs then (case node d bs of Some (Directory ch) \<Rightarrow> Some (Directory (insert n ch)) | _ \<Rightarrow> None) else node d cs)"
proof -
  have "mk cs = mk (bs @ [n]) \<longleftrightarrow> cs = bs @ [n]" "mk cs = mk bs \<longleftrightarrow> cs = bs" "bs \<noteq> bs @ [n]"
    using assms(2,3) mk_inj by (auto simp: names_snoc)
  then show ?thesis using assms(1) by (auto simp: put_node_def node_def)
qed

lemma tree_put:
  assumes t: "tree_ok d" and put: "put_node bs n x d d'" and nm: "names (bs @ [n])"
    and x: "x = Directory {} \<or> (\<exists>data. x = File data)" and nd: "\<And>ch. node d (bs @ [n]) \<noteq> Some (Directory ch)"
  shows "tree_ok d'"
proof (rule tree_okI)
  obtain ch where ch: "node d bs = Some (Directory ch)" and nodes: "rd_nodes d' = (rd_nodes d)(mk (bs @ [n]) \<mapsto> x, mk bs \<mapsto> Directory (insert n ch))"
    using put by (auto simp: put_node_def)
  have bs: "names bs" "is_name n" using nm by (simp_all add: names_snoc)
  have look: "node d' cs = (if cs = bs @ [n] then Some x else if cs = bs then Some (Directory (insert n ch)) else node d cs)" if "names cs" for cs
    using node_put [OF put nm that] ch by simp
  have "names []" by (simp add: names_def)
  then show "\<exists>ch. node d' [] = Some (Directory ch)" using look [of "[]"] tree_okD(1) [OF t] by auto
  show "\<exists>cs. names cs \<and> p = mk cs" if "rd_nodes d' p \<noteq> None" for p
    using that tree_okD(2) [OF t, of p] nm bs by (auto simp: nodes split: if_splits)
  show "finite c \<and> (\<forall>m\<in>c. is_name m)" if "names cs" "node d' cs = Some (Directory c)" for cs c
    using that look [OF that(1)] tree_okD(3) [OF t that(1)] tree_okD(3) [OF t bs(1) ch] bs(2) x by (auto split: if_splits)
  show "node d' (cs @ [m]) \<noteq> None \<longleftrightarrow> (\<exists>c. node d' cs = Some (Directory c) \<and> m \<in> c)" if cm: "names (cs @ [m])" for cs m
  proof -
    have cs: "names cs" using cm by (simp add: names_snoc)
    note old = tree_okD(4) [OF t cm]
    consider "cs = bs" | "cs = bs @ [n]" | "cs \<noteq> bs" "cs \<noteq> bs @ [n]" by blast
    then show ?thesis
    proof cases
      case 1
      then show ?thesis using look [OF cm] look [OF cs] old ch by auto
    next
      case 2
      then have "node d (cs @ [m]) = None" using old nd by auto
      then show ?thesis using 2 look [OF cm] look [OF cs] x by auto
    next
      case 3
      then show ?thesis using look [OF cm] look [OF cs] old ch by auto
    qed
  qed
qed

text \<open>Taking a file out of a directory.\<close>

lemma tree_cut:
  assumes t: "tree_ok d" and ch: "node d bs = Some (Directory ch)" and isfile: "node d (bs @ [n]) = Some (File data)"
    and nm: "names (bs @ [n])" and nodes: "rd_nodes d' = (rd_nodes d)(mk (bs @ [n]) := None, mk bs \<mapsto> Directory (ch - {n}))"
  shows "tree_ok d'"
proof (rule tree_okI)
  have bs: "names bs" using nm by (simp add: names_snoc)
  have look: "node d' cs = (if cs = bs @ [n] then None else if cs = bs then Some (Directory (ch - {n})) else node d cs)" if "names cs" for cs
    using mk_inj [OF that nm] mk_inj [OF that bs] by (auto simp: node_def nodes)
  have "names []" by (simp add: names_def)
  then show "\<exists>ch. node d' [] = Some (Directory ch)" using look [of "[]"] tree_okD(1) [OF t] by auto
  show "\<exists>cs. names cs \<and> p = mk cs" if "rd_nodes d' p \<noteq> None" for p
    using that tree_okD(2) [OF t, of p] bs by (auto simp: nodes split: if_splits)
  show "finite c \<and> (\<forall>m\<in>c. is_name m)" if "names cs" "node d' cs = Some (Directory c)" for cs c
    using that look [OF that(1)] tree_okD(3) [OF t that(1)] tree_okD(3) [OF t bs ch] by (auto split: if_splits)
  show "node d' (cs @ [m]) \<noteq> None \<longleftrightarrow> (\<exists>c. node d' cs = Some (Directory c) \<and> m \<in> c)" if cm: "names (cs @ [m])" for cs m
  proof -
    have cs: "names cs" using cm by (simp add: names_snoc)
    note old = tree_okD(4) [OF t cm]
    consider "cs = bs" | "cs = bs @ [n]" | "cs \<noteq> bs" "cs \<noteq> bs @ [n]" by blast
    then show ?thesis
    proof cases
      case 1
      then show ?thesis using look [OF cm] look [OF cs] old ch by auto
    next
      case 2
      then have "node d (cs @ [m]) = None" using old isfile by auto
      then show ?thesis using 2 look [OF cm] look [OF cs] by auto
    next
      case 3
      then show ?thesis using look [OF cm] look [OF cs] old ch by auto
    qed
  qed
qed

section \<open>Operations on the tree\<close>

lemma path_cases:
  obtains (root) "path_normalize path = ''/''" "split_path path = []"
  | (entry) bs n where "names (bs @ [n])" "split_path path = bs @ [n]" "path_normalize path = mk (bs @ [n])"
      "path_normalize path \<noteq> ''/''" "path_parent (path_normalize path) = mk bs" "filename (path_normalize path) = n" "mk bs \<noteq> mk (bs @ [n])"
proof (cases "split_path path" rule: rev_cases)
  case Nil
  then show ?thesis using root normalize_mk(1) [of path] by (simp add: mk_def)
next
  case (snoc bs n)
  then have nm: "names (bs @ [n])" using normalize_mk(2) [of path] by simp
  moreover have "mk bs \<noteq> mk (bs @ [n])" using mk_inj [of bs "bs @ [n]"] nm by (simp add: names_snoc)
  ultimately show ?thesis using entry snoc normalize_mk(1) [of path] mk_snoc [OF nm] by simp
qed

lemma write_file_cases:
  assumes t: "tree_ok d" and w: "ramdisk_write_file path data d = (r, d')"
  shows "rd_max_size d' = rd_max_size d \<and>
    (rd_nodes d' = rd_nodes d \<and> \<not> is_ok r
     \<or> (\<exists>bs n. names (bs @ [n]) \<and> split_path path = bs @ [n] \<and> r = Ok () \<and> put_node bs n (File data) d d'
          \<and> (0 < rd_max_size d \<longrightarrow> (\<forall>ch. node d (bs @ [n]) \<noteq> Some (Directory ch)))))"
proof (cases path rule: path_cases)
  case root
  then show ?thesis using w by (auto simp: ramdisk_write_file_def)
next
  case (entry bs n)
  note p = entry(4-6)
  show ?thesis
  proof (cases "charge_space (path_normalize path) (of_nat (length data)) d")
    case (Inl e)
    then show ?thesis using w p by (auto simp: ramdisk_write_file_def)
  next
    case (Inr used)
    have nodir: "0 < rd_max_size d \<longrightarrow> (\<forall>ch. node d (bs @ [n]) \<noteq> Some (Directory ch))"
      using Inr entry(3) by (auto simp: charge_space_def node_def)
    show ?thesis
    proof (cases "\<exists>ch. rd_nodes d (mk bs) = Some (Directory ch)")
      case True
      then obtain ch where ch: "rd_nodes d (mk bs) = Some (Directory ch)" by blast
      have "(rd_nodes d)(mk (bs @ [n]) \<mapsto> File data) = (rd_nodes d)(mk (bs @ [n]) \<mapsto> File data, mk bs \<mapsto> Directory (insert n ch))"
        if "rd_nodes d (mk (bs @ [n])) \<noteq> None"
      proof -
        have "n \<in> ch" using tree_okD(4) [OF t entry(1)] that ch by (auto simp: node_def)
        then show ?thesis using ch entry(7) by (auto simp: fun_eq_iff insert_absorb)
      qed
      then have "put_node bs n (File data) d d' \<and> r = Ok () \<and> rd_max_size d' = rd_max_size d"
        using w ch p Inr entry(3,7) by (auto simp: ramdisk_write_file_def check_parent_def add_child_def put_node_def node_def Let_def split: if_splits)
      then show ?thesis using entry nodir by blast
    next
      case False
      then have "\<exists>e. check_parent (mk bs) (d\<lparr>rd_used_size := used\<rparr>) = Err e"
        by (auto simp: check_parent_def split: option.splits Node.splits)
      then obtain e where "check_parent (mk bs) (d\<lparr>rd_used_size := used\<rparr>) = Err e" by blast
      then have "r = Err e" "d' = d\<lparr>rd_used_size := used\<rparr>"
        using w p Inr by (simp_all add: ramdisk_write_file_def)
      then show ?thesis by simp
    qed
  qed
qed

lemma create_dir_cases:
  assumes w: "ramdisk_create_dir path d = (r, d')"
  shows "rd_max_size d' = rd_max_size d \<and>
    (d' = d \<or> (\<exists>bs n. names (bs @ [n]) \<and> node d (bs @ [n]) = None \<and> put_node bs n (Directory {}) d d'))"
proof (cases path rule: path_cases)
  case root
  then show ?thesis using w by (auto simp: ramdisk_create_dir_def)
next
  case (entry bs n)
  note p = entry(4-6)
  show ?thesis
  proof (cases "rd_nodes d (path_normalize path) = None \<and> (\<exists>ch. rd_nodes d (mk bs) = Some (Directory ch))")
    case True
    then obtain ch where "rd_nodes d (mk bs) = Some (Directory ch)" by blast
    then have "put_node bs n (Directory {}) d d'" "rd_max_size d' = rd_max_size d"
      using w True p entry(3,7) by (auto simp: ramdisk_create_dir_def check_parent_def add_child_def put_node_def node_def Let_def)
    then show ?thesis using entry True by (auto simp: node_def)
  next
    case False
    then have "d' = d"
      using w p by (auto simp: ramdisk_create_dir_def check_parent_def Let_def split: if_splits option.splits Node.splits)
    then show ?thesis by simp
  qed
qed

lemma remove_file_tree:
  assumes t: "tree_ok d" and w: "ramdisk_remove_file path d = (r, d')"
  shows "rd_max_size d' = rd_max_size d \<and> tree_ok d'"
proof (cases "\<exists>data. rd_nodes d (path_normalize path) = Some (File data)")
  case True
  then obtain data where isfile: "rd_nodes d (path_normalize path) = Some (File data)" by blast
  show ?thesis
  proof (cases path rule: path_cases)
    case root
    then show ?thesis using tree_okD(1) [OF t] isfile by (auto simp: node_def mk_def)
  next
    case (entry bs n)
    obtain ch where ch: "rd_nodes d (mk bs) = Some (Directory ch)"
      using tree_okD(4) [OF t entry(1)] isfile entry(3) by (auto simp: node_def)
    have "rd_nodes d' = (rd_nodes d)(mk (bs @ [n]) := None, mk bs \<mapsto> Directory (ch - {n}))" "rd_max_size d' = rd_max_size d"
      using w isfile ch entry(3,5,6,7) by (auto simp: ramdisk_remove_file_def remove_child_def Let_def)
    then show ?thesis using tree_cut [OF t, of bs ch n data d'] ch isfile entry(1,3) by (simp add: node_def)
  qed
next
  case False
  then show ?thesis using w t by (auto simp: ramdisk_remove_file_def Let_def split: option.splits Node.splits)
qed

section \<open>Runs\<close>

datatype rd_op = WriteFile string bytes | RemoveFile string | CreateDir string

fun rd_do :: "rd_op \<Rightarrow> RamDisk \<Rightarrow> RamDisk" where
  "rd_do (WriteFile path data) d = snd (ramdisk_write_file path data d)"
| "rd_do (RemoveFile path) d = snd (ramdisk_remove_file path d)"
| "rd_do (CreateDir path) d = snd (ramdisk_create_dir path d)"

lemma tree_ok_same: "tree_ok d \<Longrightarrow> rd_nodes d' = rd_nodes d \<Longrightarrow> tree_ok d'"
  unfolding tree_ok_def node_def by simp

lemma tree_ok_new: "tree_ok (RamDisk_new m)"
proof -
  have "node (RamDisk_new m) cs = (if cs = [] then Some (Directory {}) else None)" if "names cs" for cs
    using mk_root [OF that] by (simp add: node_def RamDisk_new_def)
  moreover have "names []" "mk [] = ''/''" by (simp_all add: names_def mk_def)
  ultimately show ?thesis
    by (intro tree_okI) (auto simp: names_snoc RamDisk_new_def split: if_splits)
qed

lemma tree_step:
  assumes "tree_ok d" and "0 < rd_max_size d"
  shows "tree_ok (rd_do w d) \<and> 0 < rd_max_size (rd_do w d)"
proof (cases w)
  case (WriteFile path data)
  obtain r d' where w: "ramdisk_write_file path data d = (r, d')" by (cases "ramdisk_write_file path data d")
  note c = write_file_cases [OF assms(1) w]
  show ?thesis
  proof (cases "rd_nodes d' = rd_nodes d")
    case True
    then show ?thesis using WriteFile w c assms tree_ok_same by auto
  next
    case False
    then obtain bs n where "names (bs @ [n])" "put_node bs n (File data) d d'" "\<forall>ch. node d (bs @ [n]) \<noteq> Some (Directory ch)"
      using c assms(2) by blast
    then have "tree_ok d'" using tree_put [OF assms(1)] by blast
    then show ?thesis using WriteFile w c assms(2) by simp
  qed
next
  case (RemoveFile path)
  then show ?thesis
    using remove_file_tree [OF assms(1), of path] assms(2) by (cases "ramdisk_remove_file path d") auto
next
  case (CreateDir path)
  obtain r d' where w: "ramdisk_create_dir path d = (r, d')" by (cases "ramdisk_create_dir path d")
  note c = create_dir_cases [OF w]
  show ?thesis
  proof (cases "d' = d")
    case True
    then show ?thesis using CreateDir w assms by simp
  next
    case False
    then obtain bs n where "names (bs @ [n])" "node d (bs @ [n]) = None" "put_node bs n (Directory {}) d d'" using c by blast
    then have "tree_ok d'" using tree_put [OF assms(1)] by (metis option.distinct(1))
    then show ?thesis using CreateDir w c assms(2) by simp
  qed
qed

lemma tree_run: "tree_ok d \<Longrightarrow> 0 < rd_max_size d \<Longrightarrow> tree_ok (fold rd_do ws d)"
proof (induction ws arbitrary: d)
  case Nil
  then show ?case by simp
next
  case (Cons w ws)
  then show ?case using tree_step [of d w] by simp
qed

lemma read_write:
  assumes t: "tree_ok d" and w: "ramdisk_write_file p data d = (Ok (), d')"
  shows "ramdisk_read_file q d' = (if path_normalize q = path_normalize p then Ok data else ramdisk_read_file q d)"
proof -
  obtain bs n where e: "names (bs @ [n])" "split_path p = bs @ [n]" "put_node bs n (File data) d d'"
    using write_file_cases [OF t w] by auto
  have q: "names (split_path q)" by (rule normalize_mk(2))
  have same: "path_normalize q = path_normalize p \<longleftrightarrow> split_path q = bs @ [n]"
    using normalize_eq_iff [of q p] e(2) by simp
  obtain ch where "node d bs = Some (Directory ch)" using e(3) by (auto simp: put_node_def)
  then show ?thesis
    using node_put [OF e(3,1) q] same by (auto simp: ramdisk_read_file_def normalize_mk(1) [of q] node_def)
qed


section \<open>Properties\<close>

text \<open>
  Property C9.  A bounded RAM disk stays a tree.  After any sequence of file writes, removals and directory
  creations, successful or not, on a disk with a size limit, the root is a directory, a path exists exactly when its
  parent is a directory that lists its name, and a successful write is what reads of that path
  return, in every spelling of the path, while reads of other paths are unchanged.\<close>

theorem ramdisk_stays_a_tree:
  assumes "0 < max_size" and "d = fold rd_do ws (RamDisk_new max_size)"
  shows "tree_ok d
    \<and> (ramdisk_write_file p data d = (Ok (), d') \<longrightarrow>
         ramdisk_read_file q d' = (if path_normalize q = path_normalize p then Ok data else ramdisk_read_file q d))"
proof -
  have "tree_ok d" unfolding assms(2) using assms(1) by (intro tree_run tree_ok_new) (simp add: RamDisk_new_def)
  then show ?thesis using read_write by blast
qed

theorem ramdisk_stays_a_tree_witness:
  "tree_ok (fold rd_do [CreateDir ''/etc'', WriteFile ''/etc//init'' [1, 2], RemoveFile ''/none''] (RamDisk_new 100))"
  by (rule ramdisk_stays_a_tree [of 100, OF _ refl, THEN conjunct1]) simp


end
