(* ===== verification/Watchdog.thy ===== *)
theory Watchdog
  imports Prelude
begin

text \<open>
  The deadman watchdog (\<open>crates/eurowatchdog/src/lib.rs\<close>).
\<close>

section \<open>The timer\<close>

record Watchdog =
  wd_timeout :: u64
  wd_deadline :: u64
  wd_tripped :: bool
  wd_pets :: u64

definition Watchdog_new :: "u64 \<Rightarrow> u64 \<Rightarrow> Watchdog" where
  "Watchdog_new timeout now =
     \<lparr>wd_timeout = max timeout 1, wd_deadline = saturating_add now (max timeout 1), wd_tripped = False, wd_pets = 0\<rparr>"

definition pet :: "u64 \<Rightarrow> Watchdog \<Rightarrow> Watchdog" where
  "pet now w = w\<lparr>wd_deadline := saturating_add now (wd_timeout w), wd_pets := wd_pets w + 1, wd_tripped := False\<rparr>"

definition Watchdog_check :: "u64 \<Rightarrow> Watchdog \<Rightarrow> bool \<times> Watchdog" where
  "Watchdog_check now w =
     (let w = (if now > wd_deadline w then w\<lparr>wd_tripped := True\<rparr> else w) in (wd_tripped w, w))"

definition slack :: "Watchdog \<Rightarrow> u64 \<Rightarrow> u64" where
  "slack w now = saturating_sub (wd_deadline w) now"

section \<open>When it trips\<close>

fun check_all :: "u64 list \<Rightarrow> Watchdog \<Rightarrow> bool \<times> Watchdog" where
  "check_all [] w = (wd_tripped w, w)"
| "check_all (now # ts) w = check_all ts (snd (Watchdog_check now w))"

text \<open>After a pet at time \<open>p\<close>, checks at any times report a hang exactly when one of them came more than the timeout
  later; the report stays until the next pet.  A deadline at the end of the clock is never missed.\<close>

lemma check_all_trips:
  "fst (check_all ts w) \<longleftrightarrow> wd_tripped w \<or> (\<exists>now\<in>set ts. wd_deadline w < now)"
proof (induction ts arbitrary: w)
  case Nil
  then show ?case by simp
next
  case (Cons now ts)
  show ?case by (simp add: Cons.IH) (auto simp: Watchdog_check_def Let_def)
qed

lemma trips_after_timeout:
  "fst (check_all ts (pet p w)) \<longleftrightarrow> (\<exists>now\<in>set ts. unat now > min (unat p + unat (wd_timeout w)) (2 ^ 64 - 1))"
  by (simp add: check_all_trips) (simp add: pet_def word_less_nat_alt unat_saturating_add)

lemma slack_zero: "slack w now = 0 \<longleftrightarrow> wd_deadline w \<le> now"
  by (auto simp: slack_def saturating_sub_def)

end
