(* ===== verification/Spec2Isabelle.thy ===== *)
theory Spec2Isabelle
  imports Frames Swap Grants DrvProto Firewall Update LockOrder Bpf Profiles Image Ipc Cache Superblock Verity BadBlocks RamDisk Watchdog
begin

text \<open>
  A verification library for EuroOS, an operating system in Rust.  The kernel keeps its decisions in
  crates without hardware access; this library models those crates function by function and proves what the
  kernel relies on.  Names follow the source; a method whose name clashes is written \<open>Type_method\<close> and record
  fields carry a short prefix.

  \<^bold>\<open>How the code is modelled.\<close>  Structures are records, enums datatypes.  An operation on \<open>&mut self\<close> takes the
  state last and returns its result and the new state; \<open>Result\<close> is the sum type with \<open>Ok\<close> and \<open>Err\<close>.  Machine
  integers whose width matters are words, whose \<open>+\<close> wraps: the release profile has no overflow checks.  Indices
  and lengths are naturals.  A panic is a value of its own (\<open>None\<close>, or \<open>BlockPanic\<close>) where the code can reach
  one.  Loops are structural recursions or functions with a termination proof; no definition uses fuel.
  Operations on shared tables are single steps, except the block cache, which is cut where the code releases
  its locks.

  \<^bold>\<open>The parts, their theories and what is shown.\<close>
  \<^item> \<open>Prelude\<close>, \<open>Text\<close>: what the sources use of the standard library (slices, little-endian bytes, checked and
    saturating arithmetic, bit scans; splitting, lines, decimal numbers, UTF-8 validity).  \<open>Interfaces\<close>: the
    contracts shared by several crates, as locales.
  \<^item> Memory (\<open>crates/euromm\<close>).  \<open>Frames\<close>: the bitmap allocator of \<open>frame.rs\<close>; no frame is handed out twice, the
    scans find the first fit, the map built at boot is exact.  \<open>Swap\<close>: swap slots and the second-chance clock of
    \<open>swap.rs\<close>.  Both are interpretations of \<open>resource_pool\<close>.
  \<^item> Userspace drivers (\<open>crates/eurodrv\<close>).  \<open>Grants\<close>: a validated device grant confines accesses, interrupt
    vectors are exclusive, the restart policy equals a reference with the whole history (\<open>grant.rs\<close>, \<open>vectors.rs\<close>,
    \<open>restart.rs\<close>).  \<open>DrvProto\<close>: messages and the information block (\<open>proto.rs\<close>, \<open>abi.rs\<close>); the decoder accepts exactly
    the encodings.
  \<^item> Sandboxing (\<open>crates/eurosandbox\<close>).  \<open>Bpf\<close>: loading and running seccomp filters (\<open>bpf.rs\<close>); a loaded filter runs
    forward, ends, and the strictest of several decides.  \<open>Profiles\<close>: the system-call profiles (\<open>syscalls.rs\<close>).
    \<open>Sandbox\<close>: container paths, overlay, resource and process limits (\<open>lib.rs\<close>, \<open>overlay.rs\<close>, \<open>limits.rs\<close>,
    \<open>rlimits.rs\<close>).  \<open>Image\<close>: signed container images (\<open>image.rs\<close>), with the signature check as an argument.
  \<^item> Communication (\<open>crates/euroipc\<close>).  \<open>Ipc\<close>: the channel table refines abstract ports with queues for every
    sequence of calls; restricted ports; the audit ring.  \<open>Firewall\<close> (\<open>crates/eurofw\<close>): the first matching rule
    decides.
  \<^item> Locks (\<open>crates/eurolock/src/lib.rs\<close>).  \<open>LockOrder\<close>: the ranking, the tracker as a stack, no circular
    waiting, the sharded statistics.
  \<^item> Updates and integrity.  \<open>Update\<close> (\<open>crates/euroupdate\<close>): the two boot slots and their configuration block.
    \<open>Verity\<close> (\<open>crates/euroverity\<close>): the Merkle tree over a system image; SHA-256 and Ed25519 are parameters, and
    soundness assumes that the strings actually hashed do not collide.  \<open>Watchdog\<close> (\<open>crates/eurowatchdog\<close>).
  \<^item> Storage (\<open>crates/eurofs\<close>).  \<open>Block\<close>: the device trait as a record of operations, its contract as the locale
    \<open>block_device\<close>, the memory device (\<open>block.rs\<close>).  \<open>Cache\<close>: the block cache (\<open>cache.rs\<close>), proved once for any device
    that keeps the contract; a cache keeps it again.  \<open>Superblock\<close>: the two-slot commit (\<open>superblock.rs\<close>), for
    any device and any hash, and the fault-injecting device (\<open>faulty.rs\<close>).  \<open>BadBlocks\<close> (\<open>badblocks.rs\<close>), \<open>Paths\<close>
    (\<open>path.rs\<close>), \<open>RamDisk\<close> (\<open>ramdisk.rs\<close>).
  \<^item> This theory: containers on the RAM disk, which joins \<open>Sandbox\<close> and \<open>RamDisk\<close>.

  \<^bold>\<open>What the development shows to go wrong.\<close>  Some properties prove a defect next to what holds: an update
  staged during a trial leaves no bootable slot; an unknown seccomp action hides a kill; the renderer's path check
  does not resolve parent references; memory accounting wraps; concurrent writes leave the block cache stale; a
  write on an unbounded RAM disk replaces a directory, and a refused write stays charged; a bad reserve block is
  not remapped.

  \<^bold>\<open>Bounds.\<close>  The audit ring is exact up to \<open>2\<^sup>6\<^sup>4\<close> records, a memory device holds less than \<open>2\<^sup>6\<^sup>3\<close> bytes, as
  every vector does, and a bad-block table has fewer than \<open>2\<^sup>3\<^sup>2\<close> entries, the width of its length field.

  \<^bold>\<open>Not modelled.\<close>  The copy-on-write file system and mount table (\<open>eurofs/src/disk.rs\<close>, \<open>vfs.rs\<close>, \<open>shared.rs\<close>)
  and the network stack (\<open>crates/euronet\<close>) are still to come.  The lock primitives of \<open>eurolock/src/sync.rs\<close> are
  processor atomics; their memory ordering is outside this model.  The kernel proper, the loader and the device
  drivers consist of hardware accesses; the applications and services are outside the scope of the library.
\<close>

section \<open>Containers on the RAM disk\<close>




end
